(* ===== verification/Prelude.thy ===== *)
theory Prelude
  imports Main "HOL-Library.Word" "HOL-Library.Stream"
begin

text \<open>
  What every component shares. The crates are written against the \<open>futures\<close> 0.1 interface: a
  poll answers \<open>Ok(Async::Ready(x))\<close>, \<open>Ok(Async::NotReady)\<close> or an error, and a state machine
  goes one step further at each poll. This theory holds
  \<^item> the vocabulary of that interface (\<open>async\<close>, \<open>poll\<close>, \<open>async_sink\<close>) and the two ways in which
    code outside this repository is observed: a future of somebody else is the sequence of
    answers it will give (\<open>fut\<close>), the receiving half of a channel is an infinite stream of
    answers (\<open>receiver\<close>). Neither assumes anything of that code: every finite run of the crates
    sees some such sequence;
  \<^item> Rust's control flow: a call returns, propagates an error with \<open>?\<close>, or panics (\<open>outcome\<close>);
    \<open>loop\<close> with its \<open>return\<close> (\<open>rust_loop\<close>), where \<open>None\<close> is a loop that never returns;
  \<^item> the rules by which the component theories reason about these: \<open>yields\<close>, a partial
    correctness judgement with one rule per construct, and \<open>rust_loop_terminates\<close>;
  \<^item> what the two ends of a channel promise each other: \<open>delivers_in_order\<close>, \<open>carries\<close>, \<open>drained\<close>;
  \<^item> \<open>BTreeMap\<close> as an association list sorted by key.
\<close>

named_theorems yields_intro \<comment> \<open>one rule per control construct, for backward reasoning\<close>
named_theorems fut_simps \<comment> \<open>how polling a future computes\<close>

section \<open>Polling\<close>

text \<open>\<open>futures::Async\<close>, \<open>futures::Poll\<close> and \<open>futures::AsyncSink\<close>; \<open>Inl\<close> is \<open>Err\<close>.\<close>

datatype 'a async = Ready 'a | NotReady

type_synonym ('a, 'e) poll = "'e + 'a async"

datatype 'a async_sink = Sink_Ready | Sink_NotReady 'a

text \<open>
  A future that is not written in this repository (a method handler of the user, a send on a
  channel, an HTTP exchange), seen from the code that polls it: it answers \<open>NotReady\<close> some number
  of times, possibly for ever, and then resolves to a value or an error.
\<close>

codatatype ('a, 'e) fut = Pending "('a, 'e) fut" | Resolved "'e + 'a"

definition poll_fut :: "('a, 'e) fut \<Rightarrow> ('a, 'e) poll \<times> ('a, 'e) fut" where
  "poll_fut f =
     (case f of
        Pending g \<Rightarrow> (Inr NotReady, g)
      | Resolved (Inl e) \<Rightarrow> (Inl e, f)
      | Resolved (Inr a) \<Rightarrow> (Inr (Ready a), f))"

lemma poll_fut_simps [simp, fut_simps]:
  "poll_fut (Pending g) = (Inr NotReady, g)"
  "poll_fut (Resolved (Inl e)) = (Inl e, Resolved (Inl e))"
  "poll_fut (Resolved (Inr a)) = (Inr (Ready a), Resolved (Inr a))"
  by (simp_all add: poll_fut_def)

text \<open>The future that never resolves.\<close>

primcorec never :: "('a, 'e) fut" where
  "never = Pending never"

text \<open>\<open>f\<close> resolves to \<open>r\<close> after at most \<open>n\<close> answers \<open>NotReady\<close>.\<close>

fun resolves_within :: "nat \<Rightarrow> ('a, 'e) fut \<Rightarrow> 'e + 'a \<Rightarrow> bool" where
  "resolves_within 0 f r = (case f of Pending g \<Rightarrow> False | Resolved r' \<Rightarrow> r' = r)"
| "resolves_within (Suc n) f r =
     (case f of Pending g \<Rightarrow> resolves_within n g r | Resolved r' \<Rightarrow> r' = r)"

lemma resolves_within_Resolved [simp]: "resolves_within n (Resolved r') r = (r' = r)"
  by (cases n) auto

lemma resolves_within_Pending [simp]:
  "resolves_within n (Pending g) r \<longleftrightarrow> (\<exists>m. n = Suc m \<and> resolves_within m g r)"
  by (cases n) auto

lemma never_unresolved [simp]: "\<not> resolves_within n never r"
  by (induction n) (subst never.code, simp)+

text \<open>\<open>future.map(h)\<close> on the success value.\<close>

primcorec map_ok :: "('a \<Rightarrow> 'b) \<Rightarrow> ('a, 'e) fut \<Rightarrow> ('b, 'e) fut" where
  "map_ok h f =
     (case f of
        Pending g \<Rightarrow> Pending (map_ok h g)
      | Resolved r \<Rightarrow> Resolved (case r of Inl e \<Rightarrow> Inl e | Inr a \<Rightarrow> Inr (h a)))"

lemma map_ok_simps [simp, fut_simps]:
  "map_ok h (Pending g) = Pending (map_ok h g)"
  "map_ok h (Resolved r) = Resolved (map_sum (\<lambda>e. e) h r)"
  by (subst map_ok.code, simp split: sum.split)+

lemma resolves_within_map_ok:
  "resolves_within n f r \<Longrightarrow> resolves_within n (map_ok h f) (map_sum (\<lambda>e. e) h r)"
proof (induction n arbitrary: f)
  case 0
  then show ?case by (cases f) auto
next
  case (Suc n)
  then show ?case by (cases f) auto
qed

text \<open>
  The other combinators of \<open>Future\<close> the crates use: \<open>map_err\<close>, and \<open>and_then\<close>, which starts the next
  future in the very poll in which the first one resolves.
\<close>

primcorec map_err :: "('e \<Rightarrow> 'f) \<Rightarrow> ('a, 'e) fut \<Rightarrow> ('a, 'f) fut" where
  "map_err h f =
     (case f of
        Pending g \<Rightarrow> Pending (map_err h g)
      | Resolved r \<Rightarrow> Resolved (case r of Inl e \<Rightarrow> Inl (h e) | Inr a \<Rightarrow> Inr a))"

primcorec and_then :: "('a, 'e) fut \<Rightarrow> ('a \<Rightarrow> ('b, 'e) fut) \<Rightarrow> ('b, 'e) fut" where
  "and_then f k =
     (case f of
        Pending g \<Rightarrow> Pending (and_then g k)
      | Resolved r \<Rightarrow> (case r of Inl e \<Rightarrow> Resolved (Inl e) | Inr a \<Rightarrow> k a))"

lemma map_err_simps [simp, fut_simps]:
  "map_err h (Pending g) = Pending (map_err h g)"
  "map_err h (Resolved r) = Resolved (map_sum h (\<lambda>a. a) r)"
  by (subst map_err.code, simp split: sum.split)+

lemma and_then_simps [simp, fut_simps]:
  "and_then (Pending g) k = Pending (and_then g k)"
  "and_then (Resolved (Inl e)) k = Resolved (Inl e)"
  "and_then (Resolved (Inr a)) k = k a"
  by (subst and_then.code, simp)+

lemma resolves_within_map_err:
  "resolves_within n f r \<Longrightarrow> resolves_within n (map_err h f) (map_sum h (\<lambda>a. a) r)"
proof (induction n arbitrary: f)
  case 0
  then show ?case by (cases f) auto
next
  case (Suc n)
  then show ?case by (cases f) auto
qed

lemma resolves_within_mono: "resolves_within n f r \<Longrightarrow> n \<le> m \<Longrightarrow> resolves_within m f r"
proof (induction n arbitrary: f m)
  case 0
  then show ?case by (cases f) auto
next
  case (Suc n)
  then show ?case by (cases f; cases m) auto
qed

lemma resolves_within_and_then:
  assumes "resolves_within n f (Inr a)" "resolves_within m (k a) r"
  shows "resolves_within (n + m) (and_then f k) r"
  using assms
proof (induction n arbitrary: f)
  case 0
  then show ?case by (cases f) auto
next
  case (Suc n)
  show ?case
  proof (cases f)
    case (Pending g)
    with Suc show ?thesis by simp
  next
    case (Resolved r')
    with Suc.prems resolves_within_mono[of m "k a" r "Suc n + m"] show ?thesis by simp
  qed
qed

lemma resolves_within_and_then_error:
  "resolves_within n f (Inl e) \<Longrightarrow> resolves_within n (and_then f k) (Inl e)"
proof (induction n arbitrary: f)
  case 0
  then show ?case by (cases f) auto
next
  case (Suc n)
  then show ?case by (cases f) auto
qed

lemma resolves_and_then:
  assumes "resolves_within n f s"
    and "\<And>a. s = Inr a \<Longrightarrow> resolves_within m (k a) r" and "\<And>e. s = Inl e \<Longrightarrow> r = Inl e"
  shows "resolves_within (n + m) (and_then f k) r"
proof (cases s)
  case (Inl e)
  with assms(1,3) resolves_within_and_then_error[of n f e k] show ?thesis
    using resolves_within_mono[of n "and_then f k" r "n + m"] by simp
next
  case (Inr a)
  with assms(1,2) resolves_within_and_then[of n f a m k r] show ?thesis by simp
qed

lemma resolves_within_unique: "resolves_within n f r \<Longrightarrow> resolves_within m f r' \<Longrightarrow> r = r'"
proof (induction n arbitrary: f m)
  case 0
  then show ?case by (cases f) auto
next
  case (Suc n)
  then show ?case by (cases f) auto
qed

text \<open>
  The receiving half of a channel: the answers it will give, one for each poll. A poll consumes
  the first answer.
\<close>

type_synonym 'a receiver = "('a option, unit) poll stream"

definition receiver_poll :: "'a receiver \<Rightarrow> ('a option, unit) poll \<times> 'a receiver" where
  "receiver_poll r = (shd r, stl r)"

lemma receiver_poll_SCons [simp]: "receiver_poll (a ## r) = (a, r)"
  by (simp add: receiver_poll_def)

text \<open>The shapes an answer can have, for case splits, and the items among a list of answers.\<close>

lemma poll_cases [case_names error item finished wait]:
  fixes a :: "('i option, 'e) poll"
  obtains (error) e where "a = Inl e" | (item) i where "a = Inr (Ready (Some i))"
    | (finished) "a = Inr (Ready None)" | (wait) "a = Inr NotReady"
  by (metis async.exhaust obj_sumE option.exhaust)

fun items_of :: "('i option, 'e) poll list \<Rightarrow> 'i list" where
  "items_of [] = []"
| "items_of (Inr (Ready (Some i)) # as) = i # items_of as"
| "items_of (_ # as) = items_of as"

lemma items_of_append [simp]: "items_of (as @ bs) = items_of as @ items_of bs"
  by (induction as rule: items_of.induct) auto

lemma items_of_idle [simp]: "items_of (map (\<lambda>n. Inr NotReady) ns) = []"
  by (induction ns) simp_all

text \<open>
  What \<open>futures\<close> documents of a channel, for both of its ends: what has been received at any time is a first
  part of what was sent, in the order of sending.
\<close>

definition delivers_in_order :: "'a receiver \<Rightarrow> 'a list \<Rightarrow> bool" where
  "delivers_in_order rx sent \<longleftrightarrow> (\<forall>k. \<exists>l. items_of (stake k rx) = take l sent)"

lemma delivers_in_orderD: "delivers_in_order rx sent \<Longrightarrow> \<exists>l. items_of (stake k rx) = take l sent"
  by (simp add: delivers_in_order_def)

lemma delivers_one: "delivers_in_order (Inr (Ready (Some a)) ## sconst (Inr NotReady)) [a]"
proof -
  have "items_of (stake k (Inr (Ready (Some a)) ## sconst (Inr NotReady))) = take k [a]" for k
    by (cases k) simp_all
  then show ?thesis unfolding delivers_in_order_def by blast
qed

lemma map_filter_append: "List.map_filter f (xs @ ys) = List.map_filter f xs @ List.map_filter f ys"
  by (simp add: List.map_filter_def)

lemma map_filter_snoc [simp]:
  "List.map_filter f (xs @ [x]) = List.map_filter f xs @ (case f x of None \<Rightarrow> [] | Some y \<Rightarrow> [y])"
  by (simp add: List.map_filter_def split: option.split)

lemma length_map_filter: "length (List.map_filter f xs) \<le> length xs"
  by (simp add: List.map_filter_def)

section \<open>Control flow\<close>

text \<open>
  The result of a Rust call: it returns, it leaves with an error (\<open>?\<close>, \<open>return Err\<close>), or it
  panics. After a panic the state is not used any more.
\<close>

datatype ('a, 'e) outcome = Ret 'a | Raise 'e | Panic

lemma answer_cases [case_names wait ready failed panicked]:
  fixes r :: "(unit async, 'e) outcome"
  obtains (wait) "r = Ret NotReady" | (ready) "r = Ret (Ready ())" | (failed) e where "r = Raise e"
    | (panicked) "r = Panic"
  by (metis async.exhaust old.unit.exhaust outcome.exhaust)

text \<open>The answer of one turn of a \<open>loop\<close>: go on, or leave the loop with a result.\<close>

datatype 'r flow = Continue | Return 'r

partial_function (option) rust_loop :: "('s \<Rightarrow> 'r flow \<times> 's) \<Rightarrow> 's \<Rightarrow> ('r \<times> 's) option" where
  "rust_loop body s =
     (case body s of
        (Return r, s') \<Rightarrow> Some (r, s')
      | (Continue, s') \<Rightarrow> rust_loop body s')"

text \<open>
  \<open>m?; k\<close>: run \<open>k\<close> on the value of \<open>m\<close>, or leave with the error of \<open>m\<close>. The first form is for
  calls that always return, the second for calls that may loop for ever (\<open>None\<close>).
\<close>

definition try_seq ::
  "('a, 'e) outcome \<times> 's \<Rightarrow> ('a \<Rightarrow> 's \<Rightarrow> ('b, 'e) outcome \<times> 's) \<Rightarrow> ('b, 'e) outcome \<times> 's" where
  "try_seq m k =
     (case m of
        (Ret a, s) \<Rightarrow> k a s
      | (Raise e, s) \<Rightarrow> (Raise e, s)
      | (Panic, s) \<Rightarrow> (Panic, s))"

definition try_then ::
  "(('a, 'e) outcome \<times> 's) option \<Rightarrow> ('a \<Rightarrow> 's \<Rightarrow> (('b, 'e) outcome \<times> 's) option)
     \<Rightarrow> (('b, 'e) outcome \<times> 's) option" where
  "try_then m k =
     (case m of
        None \<Rightarrow> None
      | Some (Ret a, s) \<Rightarrow> k a s
      | Some (Raise e, s) \<Rightarrow> Some (Raise e, s)
      | Some (Panic, s) \<Rightarrow> Some (Panic, s))"

lemma try_seq_simps [simp]:
  "try_seq (Ret a, s) k = k a s"
  "try_seq (Raise e, s) k = (Raise e, s)"
  "try_seq (Panic, s) k = (Panic, s)"
  by (simp_all add: try_seq_def)

lemma try_then_simps [simp]:
  "try_then None k = None"
  "try_then (Some (Ret a, s)) k = k a s"
  "try_then (Some (Raise e, s)) k = Some (Raise e, s)"
  "try_then (Some (Panic, s)) k = Some (Panic, s)"
  by (simp_all add: try_then_def)

section \<open>Reasoning about calls and loops\<close>

text \<open>\<open>yields m Q\<close>: if the call returns at all, its result and its state satisfy \<open>Q\<close>.\<close>

definition yields :: "('r \<times> 's) option \<Rightarrow> ('r \<Rightarrow> 's \<Rightarrow> bool) \<Rightarrow> bool" where
  "yields m Q \<longleftrightarrow> (case m of None \<Rightarrow> True | Some (r, s) \<Rightarrow> Q r s)"

lemma yields_None [simp, yields_intro]: "yields None Q"
  by (simp add: yields_def)

lemma yields_Some [simp]: "yields (Some (r, s)) Q = Q r s"
  by (simp add: yields_def)

lemma yieldsD: "yields m Q \<Longrightarrow> m = Some (r, s) \<Longrightarrow> Q r s"
  by (simp add: yields_def)

lemma yieldsI: "(\<And>r s. m = Some (r, s) \<Longrightarrow> Q r s) \<Longrightarrow> yields m Q"
  by (cases m) (auto simp: yields_def)

lemma yields_mono: "yields m P \<Longrightarrow> (\<And>r s. P r s \<Longrightarrow> Q r s) \<Longrightarrow> yields m Q"
  by (cases m) (auto simp: yields_def)

lemma yields_try_then [yields_intro]:
  assumes "yields m (\<lambda>r s. case r of
      Ret a \<Rightarrow> yields (k a s) Q | Raise e \<Rightarrow> Q (Raise e) s | Panic \<Rightarrow> Q Panic s)"
  shows "yields (try_then m k) Q"
  using assms by (cases m) (auto simp: yields_def try_then_def split: outcome.splits)

text \<open>A predicate of the state that both calls keep.\<close>

lemma yields_try_then_inv:
  assumes "yields m (\<lambda>_. I)" "\<And>a s. I s \<Longrightarrow> yields (k a s) (\<lambda>_. I)"
  shows "yields (try_then m k) (\<lambda>_. I)"
  by (rule yields_try_then, rule yields_mono[OF assms(1)]) (auto split: outcome.splits intro: assms(2))

lemma try_then_RetE:
  assumes "try_then m k = Some (Ret a, s)"
  obtains b s1 where "m = Some (Ret b, s1)" "k b s1 = Some (Ret a, s)"
  using assms by (auto simp: try_then_def split: option.splits outcome.splits)

text \<open>A loop: an invariant of the turns that go on gives the postcondition of the one that leaves.\<close>

lemma rust_loop_invariant:
  assumes returned: "rust_loop body s = Some (r, s')"
    and start: "I s"
    and continue: "\<And>t u. I t \<Longrightarrow> body t = (Continue, u) \<Longrightarrow> I u"
    and leave: "\<And>t u q. I t \<Longrightarrow> body t = (Return q, u) \<Longrightarrow> Q q u"
  shows "Q r s'"
proof -
  have "body = body \<longrightarrow> I s \<longrightarrow> Q (fst (r, s')) (snd (r, s'))"
  proof (rule rust_loop.raw_induct
      [where P = "\<lambda>b s res. b = body \<longrightarrow> I s \<longrightarrow> Q (fst res) (snd res)", OF _ returned],
      intro impI)
    fix loop b t res
    assume IH: "\<And>b t res. loop b t = Some res \<Longrightarrow> b = body \<longrightarrow> I t \<longrightarrow> Q (fst res) (snd res)"
      and eq: "(case b t of (Continue, s') \<Rightarrow> loop b s' | (Return r, s') \<Rightarrow> Some (r, s')) = Some res"
      and b: "b = body" and I: "I t"
    obtain f u where fu: "body t = (f, u)" by (cases "body t")
    show "Q (fst res) (snd res)"
    proof (cases f)
      case Continue
      with fu eq b have "loop body u = Some res" by simp
      with IH continue[OF I] fu Continue show ?thesis by blast
    next
      case (Return q)
      with fu eq b leave[OF I] show ?thesis by auto
    qed
  qed
  with start show ?thesis by simp
qed

lemma yields_rust_loop:
  assumes "I s"
    and "\<And>t u. I t \<Longrightarrow> body t = (Continue, u) \<Longrightarrow> I u"
    and "\<And>t u q. I t \<Longrightarrow> body t = (Return q, u) \<Longrightarrow> Q q u"
  shows "yields (rust_loop body s) Q"
  using assms by (intro yieldsI) (rule rust_loop_invariant)

text \<open>A loop whose turns decrease a measure while they go on returns.\<close>

lemma rust_loop_terminates:
  assumes "I s"
    and "\<And>t u. I t \<Longrightarrow> body t = (Continue, u) \<Longrightarrow> I u \<and> (m u :: nat) < m t"
  shows "\<exists>res. rust_loop body s = Some res"
  using assms(1)
proof (induction "m s" arbitrary: s rule: less_induct)
  case less
  show ?case
  proof (cases "body s")
    case (Pair f u)
    show ?thesis
    proof (cases f)
      case Continue
      with Pair less.prems assms(2) have "I u" "m u < m s" by blast+
      then obtain res where "rust_loop body u = Some res" using less.hyps by blast
      with Pair Continue show ?thesis by (simp add: rust_loop.simps[of body s])
    next
      case (Return r)
      with Pair show ?thesis by (simp add: rust_loop.simps[of body s])
    qed
  qed
qed

text \<open>A loop whose turns all go on never returns.\<close>

lemma rust_loop_diverges:
  assumes start: "I s"
    and continue: "\<And>t. I t \<Longrightarrow> \<exists>u. body t = (Continue, u) \<and> I u"
  shows "rust_loop body s = None"
proof (rule ccontr)
  assume "rust_loop body s \<noteq> None"
  then obtain r s' where "rust_loop body s = Some (r, s')" by auto
  then show False
    by (rule rust_loop_invariant[where I = I and Q = "\<lambda>_ _. False"])
      (use start continue in \<open>fastforce\<close>)+
qed

lemma rust_loop_Return: "body s = (Return r, s') \<Longrightarrow> rust_loop body s = Some (r, s')"
  by (simp add: rust_loop.simps[of body s])

lemma rust_loop_Continue: "body s = (Continue, s') \<Longrightarrow> rust_loop body s = rust_loop body s'"
  by (simp add: rust_loop.simps[of body s])

section \<open>Streams that run dry\<close>

text \<open>
  The loops of the crates drain a stream until it is not ready. They return because a stream
  that is left alone runs out of items: the contract is the locale \<open>dry_stream\<close>, a bound on the
  items still to come (\<open>backlog\<close>) that every poll respects and every item decreases.
\<close>

definition is_item :: "('a option, 'e) poll \<Rightarrow> bool" where
  "is_item a \<longleftrightarrow> (\<exists>i. a = Inr (Ready (Some i)))"

locale dry_stream =
  fixes poll_stream :: "'s \<Rightarrow> ('i option, 'e) poll \<times> 's"
    and runs_dry :: "'s \<Rightarrow> bool"
    and backlog :: "'s \<Rightarrow> nat"
  assumes poll_keeps: "runs_dry s \<Longrightarrow> poll_stream s = (r, s') \<Longrightarrow> runs_dry s' \<and> backlog s' \<le> backlog s"
    and item_decreases: "runs_dry s \<Longrightarrow> poll_stream s = (Inr (Ready (Some i)), s') \<Longrightarrow> backlog s' < backlog s"
begin

lemma polled:
  assumes "runs_dry s"
  shows "runs_dry (snd (poll_stream s))" "backlog (snd (poll_stream s)) \<le> backlog s"
    and "is_item (fst (poll_stream s)) \<Longrightarrow> backlog (snd (poll_stream s)) < backlog s"
  using poll_keeps[OF assms] item_decreases[OF assms]
  by (cases "poll_stream s"; auto simp: is_item_def)+

text \<open>A loop that goes on only after it has taken an item returns.\<close>

lemma drain_returns:
  assumes "I c" "runs_dry (src c)"
    and "\<And>c c'. I c \<Longrightarrow> runs_dry (src c) \<Longrightarrow> body c = (Continue, c') \<Longrightarrow>
           I c' \<and> (\<exists>i s'. poll_stream (src c) = (Inr (Ready (Some i)), s') \<and> src c' = s')"
  shows "\<exists>res. rust_loop body c = Some res"
proof (rule rust_loop_terminates[where I = "\<lambda>c. I c \<and> runs_dry (src c)" and m = "\<lambda>c. backlog (src c)"])
  fix t u assume t: "I t \<and> runs_dry (src t)" "body t = (Continue, u)"
  with assms(3)[of t u] obtain i s' where "I u" "poll_stream (src t) = (Inr (Ready (Some i)), s')" "src u = s'"
    by blast
  with t poll_keeps item_decreases show "(I u \<and> runs_dry (src u)) \<and> backlog (src u) < backlog (src t)"
    by blast
qed (use assms in simp)

end

lemma items_of_not_item [simp]: "\<not> is_item a \<Longrightarrow> items_of (a # as) = items_of as"
  by (cases a rule: poll_cases) (auto simp: is_item_def)

text \<open>A channel on which only finitely many messages arrive runs dry.\<close>

definition finitely_many :: "('a option, 'e) poll stream \<Rightarrow> bool" where
  "finitely_many r \<longleftrightarrow> (\<exists>n. \<forall>m\<ge>n. \<not> is_item (snth r m))"

definition pending_items :: "('a option, 'e) poll stream \<Rightarrow> nat" where
  "pending_items r = (LEAST n. \<forall>m\<ge>n. \<not> is_item (snth r m))"

lemma finitely_many_stl: "finitely_many r \<Longrightarrow> finitely_many (stl r)"
  unfolding finitely_many_def by (metis snth.simps(2) le_Suc_eq)

lemma pending_items_bound:
  "finitely_many r \<Longrightarrow> \<forall>m\<ge>pending_items r. \<not> is_item (snth r m)"
  unfolding finitely_many_def pending_items_def by (rule LeastI_ex)

lemma pending_items_stl:
  assumes "finitely_many r"
  shows "pending_items (stl r) \<le> pending_items r - 1"
proof -
  have "\<forall>m\<ge>pending_items r - 1. \<not> is_item (snth (stl r) m)"
    using pending_items_bound[OF assms] by (metis le_diff_conv snth.simps(2) Suc_eq_plus1)
  then show ?thesis unfolding pending_items_def by (rule Least_le)
qed

lemma pending_items_pos:
  assumes "finitely_many r" "is_item (shd r)"
  shows "0 < pending_items r"
  using pending_items_bound[OF assms(1)] assms(2) by (metis gr0I le0 snth.simps(1))

interpretation channel: dry_stream receiver_poll finitely_many pending_items
proof unfold_locales
  fix s :: "'a receiver" and r s'
  assume "finitely_many s" "receiver_poll s = (r, s')"
  then show "finitely_many s' \<and> pending_items s' \<le> pending_items s"
    using pending_items_stl[of s] by (auto simp: receiver_poll_def finitely_many_stl)
next
  fix s :: "'a receiver" and i s'
  assume "finitely_many s" "receiver_poll s = (Inr (Ready (Some i)), s')"
  then show "pending_items s' < pending_items s"
    using pending_items_stl[of s] pending_items_pos[of s]
    by (auto simp: receiver_poll_def is_item_def)
qed

lemma sset_stl_subset: "a \<in> sset (stl s) \<Longrightarrow> a \<in> sset s"
  by (cases s) auto

lemma finitely_many_sconst [simp]: "\<not> is_item a \<Longrightarrow> finitely_many (sconst a)"
  by (auto simp: finitely_many_def)

lemma finitely_many_SCons [simp]: "finitely_many (a ## r) = finitely_many r"
proof
  assume "finitely_many r"
  then obtain n where "\<forall>m\<ge>n. \<not> is_item (snth r m)" by (auto simp: finitely_many_def)
  then have "\<forall>m\<ge>Suc n. \<not> is_item (snth (a ## r) m)"
    by (metis Suc_le_D Suc_le_mono snth_Stream)
  then show "finitely_many (a ## r)" unfolding finitely_many_def by blast
qed (use finitely_many_stl in fastforce)

section \<open>What a channel carries\<close>

text \<open>Every message that the channel still hands out satisfies \<open>M\<close>.\<close>

definition carries :: "('a \<Rightarrow> bool) \<Rightarrow> 'a receiver \<Rightarrow> bool" where
  "carries M chan \<longleftrightarrow> (\<forall>msg. Inr (Ready (Some msg)) \<in> sset chan \<longrightarrow> M msg)"

lemma carries_stl: "carries M c \<Longrightarrow> carries M (stl c)"
  unfolding carries_def by (meson sset_stl_subset)

lemma carries_shd: "carries M c \<Longrightarrow> shd c = Inr (Ready (Some msg)) \<Longrightarrow> M msg"
  unfolding carries_def by (metis shd_sset)

text \<open>
  What \<open>futures\<close> promises of a receiver that has just answered \<open>NotReady\<close>: it has handed out all that was sent.
\<close>

definition drained :: "'a receiver \<Rightarrow> 'a list \<Rightarrow> 'a receiver \<Rightarrow> bool" where
  "drained rx sent q \<longleftrightarrow>
     (\<forall>l. q = sdrop (Suc l) rx \<longrightarrow> snth rx l = Inr NotReady \<longrightarrow> items_of (stake (Suc l) rx) = sent)"

lemma items_of_stake_Suc:
  "items_of (stake (Suc k) xs) = items_of (stake k xs) @ items_of [snth xs k]"
  by (simp only: stake_Suc items_of_append)

lemma drained_idle:
  assumes "drained rx sent (stl q)" "q = sdrop l rx" "shd q = Inr NotReady"
  shows "items_of (stake l rx) = sent"
proof -
  from assms(2,3) have l: "snth rx l = Inr NotReady" "stl q = sdrop (Suc l) rx" by (simp_all add: sdrop_simps)
  with assms(1) have "items_of (stake (Suc l) rx) = sent" by (simp add: drained_def)
  with l(1) show ?thesis unfolding items_of_stake_Suc by simp
qed

section \<open>Ordered maps\<close>

text \<open>
  \<open>std::collections::BTreeMap\<close>: an association list with strictly increasing keys, which is
  also the order of \<open>iter()\<close> and \<open>iter_mut()\<close>.
\<close>

type_synonym ('k, 'v) btree_map = "('k \<times> 'v) list"

definition btree_ok :: "('k::linorder, 'v) btree_map \<Rightarrow> bool" where
  "btree_ok m \<longleftrightarrow> sorted (map fst m) \<and> distinct (map fst m)"

fun btree_insert :: "'k::linorder \<Rightarrow> 'v \<Rightarrow> ('k, 'v) btree_map \<Rightarrow> ('k, 'v) btree_map" where
  "btree_insert k v [] = [(k, v)]"
| "btree_insert k v ((k', v') # m) =
     (if k < k' then (k, v) # (k', v') # m
      else if k = k' then (k, v) # m
      else (k', v') # btree_insert k v m)"

definition btree_remove :: "'k \<Rightarrow> ('k, 'v) btree_map \<Rightarrow> ('k, 'v) btree_map" where
  "btree_remove k m = filter (\<lambda>(k', _). k' \<noteq> k) m"

lemma set_fst_btree_insert [simp]:
  "fst ` set (btree_insert k v m) = insert k (fst ` set m)"
  by (induction k v m rule: btree_insert.induct) (simp_all add: insert_commute)

lemma btree_ok_Nil [simp]: "btree_ok []"
  by (simp add: btree_ok_def)

lemma btree_ok_insert [simp, intro]: "btree_ok m \<Longrightarrow> btree_ok (btree_insert k v m)"
  unfolding btree_ok_def
proof (induction m)
  case Nil
  then show ?case by simp
next
  case (Cons p m)
  then show ?case by (cases p) (auto simp: less_imp_le not_less dest: order.strict_trans)
qed

lemma btree_ok_remove [simp, intro]: "btree_ok m \<Longrightarrow> btree_ok (btree_remove k m)"
  by (auto simp: btree_ok_def btree_remove_def sorted_map distinct_map inj_on_def
      intro: sorted_wrt_filter)

lemma map_of_btree_insert [simp]: "map_of (btree_insert k v m) = (map_of m)(k \<mapsto> v)"
  by (induction m) auto

lemma map_of_btree_remove [simp]: "map_of (btree_remove k m) = (map_of m)(k := None)"
  by (induction m) (auto simp: btree_remove_def)

lemma btree_remove_Nil [simp]: "btree_remove k [] = []"
  by (simp add: btree_remove_def)

lemma btree_remove_absent: "k \<notin> fst ` set m \<Longrightarrow> btree_remove k m = m"
  by (force simp: btree_remove_def filter_id_conv)

lemma set_btree_insert_absent:
  "k \<notin> fst ` set m \<Longrightarrow> set (btree_insert k v m) = insert (k, v) (set m)"
proof (induction m)
  case Nil
  then show ?case by simp
next
  case (Cons p m)
  then show ?case by (cases p) (simp add: insert_commute)
qed

end
