(* ===== verification/Select_Weak.thy ===== *)
theory Select_Weak
  imports Prelude "HOL-Library.Sublist"
begin

text \<open>
  \<open>utils/src/select_weak.rs\<close>: \<open>SelectWithWeak\<close> merges a strong and a weak stream. It takes turns
  on which of the two it polls first, and it ends when the strong one ends. The Rust type is
  generic in both streams; so is the model, which takes their poll functions as arguments. The
  fields \<open>strong\<close> and \<open>weak\<close> are the streams after \<open>fuse()\<close>, a combinator of \<open>futures\<close>.
  \<open>queue_ok\<close> is what the clients of the merged stream ask of two channels.
\<close>

record ('a, 'b) select_with_weak =
  strong :: 'a
  weak :: 'b
  use_strong :: bool
  weak_done :: bool

definition select_with_weak :: "'a \<Rightarrow> 'b \<Rightarrow> ('a, 'b) select_with_weak" where
  "select_with_weak s w = \<lparr>strong = s, weak = w, use_strong = False, weak_done = False\<rparr>"

type_synonym ('i, 'e, 's) stream_poll = "'s \<Rightarrow> ('i option, 'e) poll \<times> 's"

definition check_weak ::
  "('i, 'e, 'b) stream_poll \<Rightarrow> ('i, 'e, ('a, 'b) select_with_weak) stream_poll" where
  "check_weak poll_weak s =
     (if weak_done s then (Inr NotReady, s)
      else
        (case poll_weak (weak s) of
           (Inr (Ready None), w) \<Rightarrow> (Inr NotReady, s\<lparr>weak := w, weak_done := True\<rparr>)
         | (other, w) \<Rightarrow> (other, s\<lparr>weak := w\<rparr>)))"

definition poll_strong ::
  "('i, 'e, 'a) stream_poll \<Rightarrow> ('i, 'e, ('a, 'b) select_with_weak) stream_poll" where
  "poll_strong poll_str s = (case poll_str (strong s) of (r, st) \<Rightarrow> (r, s\<lparr>strong := st\<rparr>))"

definition select_poll ::
  "('i, 'e, 'a) stream_poll \<Rightarrow> ('i, 'e, 'b) stream_poll
     \<Rightarrow> ('i, 'e, ('a, 'b) select_with_weak) stream_poll" where
  "select_poll poll_str poll_weak s =
     (if \<not> use_strong s then
        (case check_weak poll_weak (s\<lparr>use_strong := True\<rparr>) of
           (Inr NotReady, s') \<Rightarrow> poll_strong poll_str s'
         | (other, s') \<Rightarrow> (other, s'))
      else
        (case poll_strong poll_str (s\<lparr>use_strong := False\<rparr>) of
           (Inr NotReady, s') \<Rightarrow> check_weak poll_weak s'
         | (other, s') \<Rightarrow> (other, s')))"

section \<open>One poll\<close>

lemmas select_defs = select_poll_def check_weak_def poll_strong_def

text \<open>
  One poll in one equation. It polls each stream at most once, answers what the stream it polled
  last answered, and polls the second one only when the first had nothing to say.
\<close>

lemma select_poll_eq:
  "select_poll ps pw s =
     (let (a, st) = ps (strong s); (b, w) = pw (weak s) in
      if use_strong s then
        (if a \<noteq> Inr NotReady then (a, s\<lparr>use_strong := False, strong := st\<rparr>)
         else if weak_done s then (Inr NotReady, s\<lparr>use_strong := False, strong := st\<rparr>)
         else if b = Inr (Ready None)
           then (Inr NotReady, s\<lparr>use_strong := False, strong := st, weak := w, weak_done := True\<rparr>)
         else (b, s\<lparr>use_strong := False, strong := st, weak := w\<rparr>))
      else
        (if weak_done s then (a, s\<lparr>use_strong := True, strong := st\<rparr>)
         else if b = Inr (Ready None)
           then (a, s\<lparr>use_strong := True, strong := st, weak := w, weak_done := True\<rparr>)
         else if b = Inr NotReady then (a, s\<lparr>use_strong := True, strong := st, weak := w\<rparr>)
         else (b, s\<lparr>use_strong := True, weak := w\<rparr>)))"
  by (cases "ps (strong s)"; cases "fst (ps (strong s))" rule: poll_cases;
      cases "pw (weak s)"; cases "fst (pw (weak s))" rule: poll_cases)
    (simp_all add: select_defs)

lemma select_toggles: "select_poll ps pw s = (r, s') \<Longrightarrow> use_strong s' = (\<not> use_strong s)"
  by (auto simp: select_poll_eq Let_def split: prod.splits if_splits)

lemma select_answer:
  assumes "select_poll ps pw s = (r, s')"
  shows "ps (strong s) = (r, strong s')
           \<and> (weak s' = weak s
              \<or> weak s' = snd (pw (weak s)) \<and> \<not> is_item (fst (pw (weak s))))
       \<or> pw (weak s) = (r, weak s') \<and> \<not> weak_done s \<and> r \<noteq> Inr (Ready None)
           \<and> (strong s' = strong s \<or> ps (strong s) = (Inr NotReady, strong s'))
       \<or> r = Inr NotReady \<and> ps (strong s) = (Inr NotReady, strong s')
           \<and> (weak s' = weak s
              \<or> weak s' = snd (pw (weak s)) \<and> \<not> is_item (fst (pw (weak s))))"
proof -
  obtain a st b w where p: "ps (strong s) = (a, st)" "pw (weak s) = (b, w)" by fastforce
  from assms show ?thesis
    unfolding select_poll_eq p Let_def prod.case
    by (auto simp: is_item_def p split: if_split_asm)
qed

lemma select_cases:
  assumes "select_poll ps pw s = (r, s')"
  obtains (strong_answer) "ps (strong s) = (r, strong s')"
      "weak s' = weak s \<or> weak s' = snd (pw (weak s)) \<and> \<not> is_item (fst (pw (weak s)))"
  | (weak_answer) "pw (weak s) = (r, weak s')" "\<not> weak_done s" "r \<noteq> Inr (Ready None)"
      "strong s' = strong s \<or> ps (strong s) = (Inr NotReady, strong s')"
  | (idle) "r = Inr NotReady" "ps (strong s) = (Inr NotReady, strong s')"
      "weak s' = weak s \<or> weak s' = snd (pw (weak s)) \<and> \<not> is_item (fst (pw (weak s)))"
  using select_answer[OF assms] by blast

lemma select_ends:
  assumes "select_poll ps pw s = (r, s')"
  shows "strong s' = strong s \<or> strong s' = snd (ps (strong s))"
    and "weak s' = weak s \<or> weak s' = snd (pw (weak s))"
proof -
  show "strong s' = strong s \<or> strong s' = snd (ps (strong s))"
    using assms by (cases rule: select_cases) auto
  show "weak s' = weak s \<or> weak s' = snd (pw (weak s))"
    using assms by (cases rule: select_cases) auto
qed

section \<open>Merging keeps the bound on the backlog\<close>

locale two_dry_streams =
  s: dry_stream poll_s dry_s backlog_s + w: dry_stream poll_w dry_w backlog_w
  for poll_s :: "'a \<Rightarrow> ('i option, 'e) poll \<times> 'a" and dry_s and backlog_s :: "'a \<Rightarrow> nat"
    and poll_w :: "'b \<Rightarrow> ('i option, 'e) poll \<times> 'b" and dry_w and backlog_w :: "'b \<Rightarrow> nat"
begin

lemma select_backlog:
  assumes dry: "dry_s (strong q)" "dry_w (weak q)" and poll: "select_poll poll_s poll_w q = (r, q')"
  shows "dry_s (strong q') \<and> dry_w (weak q')
    \<and> backlog_s (strong q') + backlog_w (weak q') \<le> backlog_s (strong q) + backlog_w (weak q)
    \<and> (is_item r \<longrightarrow>
          backlog_s (strong q') + backlog_w (weak q') < backlog_s (strong q) + backlog_w (weak q))"
proof -
  have st: "dry_s (strong q') \<and> backlog_s (strong q') \<le> backlog_s (strong q)"
    and wk: "dry_w (weak q') \<and> backlog_w (weak q') \<le> backlog_w (weak q)"
    using select_ends[OF poll] s.polled(1,2)[OF dry(1)] w.polled(1,2)[OF dry(2)] dry by (metis order_refl)+
  have item: "backlog_s (strong q') < backlog_s (strong q) \<or> backlog_w (weak q') < backlog_w (weak q)"
    if r: "r = Inr (Ready (Some i))" for i
    using poll
  proof (cases rule: select_cases)
    case strong_answer
    with r s.item_decreases[OF dry(1)] show ?thesis by blast
  next
    case weak_answer
    with r w.item_decreases[OF dry(2)] show ?thesis by blast
  next
    case idle
    with r show ?thesis by blast
  qed
  have "backlog_s (strong q') + backlog_w (weak q') < backlog_s (strong q) + backlog_w (weak q)"
    if r: "is_item r"
  proof -
    from r obtain i where "r = Inr (Ready (Some i))" by (auto simp: is_item_def)
    from item[OF this] st wk show ?thesis by linarith
  qed
  with st wk show ?thesis by (blast intro: add_mono)
qed

sublocale merged: dry_stream "select_poll poll_s poll_w"
  "\<lambda>q. dry_s (strong q) \<and> dry_w (weak q)" "\<lambda>q. backlog_s (strong q) + backlog_w (weak q)"
proof unfold_locales
  fix q q' and r
  assume "dry_s (strong q) \<and> dry_w (weak q)" "select_poll poll_s poll_w q = (r, q')"
  then show "(dry_s (strong q') \<and> dry_w (weak q')) \<and>
      backlog_s (strong q') + backlog_w (weak q') \<le> backlog_s (strong q) + backlog_w (weak q)"
    using select_backlog[of q r q'] by simp
next
  fix q q' and i
  assume "dry_s (strong q) \<and> dry_w (weak q)"
    and "select_poll poll_s poll_w q = (Inr (Ready (Some i)), q')"
  then show "backlog_s (strong q') + backlog_w (weak q') < backlog_s (strong q) + backlog_w (weak q)"
    using select_backlog[of q "Inr (Ready (Some i))" q'] by (simp add: is_item_def)
qed

end

interpretation two_channels: two_dry_streams receiver_poll finitely_many pending_items
  receiver_poll finitely_many pending_items
  by unfold_locales

section \<open>Fairness\<close>

text \<open>C21: Neither stream can starve the other. Whatever the strong stream has to say (an item, an
  error, its end) is the answer of one of the next two polls of the merged stream, no matter how
  busy the weak stream is; and the same holds the other way round for an item or an error of a weak
  stream that has not ended.\<close>

theorem select_no_starvation:
  assumes "ps (strong s) = (r, st)" and "pw (weak s) = (q, w)"
    and "select_poll ps pw s = (a1, s1)" and "select_poll ps pw s1 = (a2, s2)"
  shows "(r \<noteq> Inr NotReady \<longrightarrow> r \<in> {a1, a2})
       \<and> (q \<notin> {Inr NotReady, Inr (Ready None)} \<and> \<not> weak_done s \<longrightarrow> q \<in> {a1, a2})"
  using assms by (auto simp: select_poll_eq Let_def split: prod.splits if_splits)

definition busy_pair :: "(nat receiver, nat receiver) select_with_weak" where
  "busy_pair = select_with_weak (sconst (Inr (Ready (Some 1)))) (sconst (Inr (Ready (Some 2))))"

theorem select_no_starvation_witness:
  "\<exists>a1 s1 a2 s2. select_poll receiver_poll receiver_poll busy_pair = (a1, s1)
     \<and> select_poll receiver_poll receiver_poll s1 = (a2, s2)
     \<and> Inr (Ready (Some 1)) \<in> {a1, a2} \<and> Inr (Ready (Some 2)) \<in> {a1, a2}"
proof -
  obtain a1 s1 where 1: "select_poll receiver_poll receiver_poll busy_pair = (a1, s1)" by fastforce
  obtain a2 s2 where 2: "select_poll receiver_poll receiver_poll s1 = (a2, s2)" by fastforce
  have "receiver_poll (strong busy_pair) = (Inr (Ready (Some 1)), sconst (Inr (Ready (Some 1))))"
    and "receiver_poll (weak busy_pair) = (Inr (Ready (Some 2)), sconst (Inr (Ready (Some 2))))"
    and "\<not> weak_done busy_pair"
    by (simp_all add: busy_pair_def select_with_weak_def receiver_poll_def)
  from select_no_starvation[OF this(1,2) 1 2] this(3) 1 2 show ?thesis by auto
qed

text \<open>The merged stream ends with the strong stream and never with the weak one: it answers
  that it is finished only when the strong stream did, and it is not ready exactly when neither
  stream has anything to hand out.\<close>

lemma select_end_and_idle:
  "(fst (select_poll ps pw s) = Inr (Ready None) \<longrightarrow> fst (ps (strong s)) = Inr (Ready None))
   \<and> (fst (select_poll ps pw s) = Inr NotReady \<longleftrightarrow>
        fst (ps (strong s)) = Inr NotReady
        \<and> (weak_done s \<or> fst (pw (weak s)) \<in> {Inr NotReady, Inr (Ready None)}))"
  by (auto simp: select_poll_eq Let_def split: prod.splits if_splits)

lemma select_end_and_idle_example:
  "fst (select_poll receiver_poll receiver_poll
     (select_with_weak (sconst (Inr (Ready None)) :: nat receiver) (sconst (Inr NotReady)))) = Inr (Ready None)
   \<and> fst (receiver_poll (sconst (Inr (Ready None)) :: nat receiver)) = Inr (Ready None)"
proof -
  have e: "fst (select_poll receiver_poll receiver_poll
     (select_with_weak (sconst (Inr (Ready None)) :: nat receiver) (sconst (Inr NotReady)))) = Inr (Ready None)"
    by (simp add: select_poll_eq select_with_weak_def receiver_poll_def)
  from select_end_and_idle[of receiver_poll receiver_poll
      "select_with_weak (sconst (Inr (Ready None)) :: nat receiver) (sconst (Inr NotReady))"] e
  show ?thesis by (simp add: select_with_weak_def)
qed

section \<open>No message is lost, duplicated or reordered\<close>

text \<open>Polling \<open>n\<close> times.\<close>

fun select_polls ::
  "nat \<Rightarrow> ('i receiver, 'i receiver) select_with_weak
     \<Rightarrow> ('i option, unit) poll list \<times> ('i receiver, 'i receiver) select_with_weak" where
  "select_polls 0 s = ([], s)"
| "select_polls (Suc n) s =
     (let (a, s1) = select_poll receiver_poll receiver_poll s;
          (as, s2) = select_polls n s1
      in (a # as, s2))"

text \<open>One poll takes at most one answer from each channel, and hands out the item it took.\<close>

lemma select_poll_merges:
  assumes "select_poll receiver_poll receiver_poll s = (a, s1)"
  shows "\<exists>k l. strong s1 = sdrop k (strong s) \<and> weak s1 = sdrop l (weak s)
     \<and> (items_of (stake k (strong s)) = items_of [a] \<and> items_of (stake l (weak s)) = []
        \<or> items_of (stake k (strong s)) = [] \<and> items_of (stake l (weak s)) = items_of [a])"
  using assms
proof (cases rule: select_cases)
  case strong_answer
  then have "strong s1 = sdrop 1 (strong s)" "items_of (stake 1 (strong s)) = items_of [a]"
    by (auto simp: receiver_poll_def)
  moreover have "\<exists>l. weak s1 = sdrop l (weak s) \<and> items_of (stake l (weak s)) = []"
    using strong_answer(2)
    by (elim disjE) (rule exI[of _ 0], simp, rule exI[of _ 1], simp add: receiver_poll_def)
  ultimately show ?thesis by blast
next
  case weak_answer
  then have "weak s1 = sdrop 1 (weak s)" "items_of (stake 1 (weak s)) = items_of [a]"
    by (auto simp: receiver_poll_def)
  moreover have "\<exists>k. strong s1 = sdrop k (strong s) \<and> items_of (stake k (strong s)) = []"
    using weak_answer(4)
    by (elim disjE) (rule exI[of _ 0], simp, rule exI[of _ 1], auto simp: receiver_poll_def)
  ultimately show ?thesis by blast
next
  case idle
  then have "strong s1 = sdrop 1 (strong s)" "items_of (stake 1 (strong s)) = items_of [a]"
    by (auto simp: receiver_poll_def)
  moreover have "\<exists>l. weak s1 = sdrop l (weak s) \<and> items_of (stake l (weak s)) = []"
    using idle(3)
    by (elim disjE) (rule exI[of _ 0], simp, rule exI[of _ 1], simp add: receiver_poll_def)
  ultimately show ?thesis by blast
qed

lemma shuffles_prefix_left: "zs \<in> shuffles xs ys \<Longrightarrow> ps @ zs \<in> shuffles (ps @ xs) ys"
  by (induction ps) (auto intro: Cons_in_shuffles_leftI)

lemma shuffles_prefix_right: "zs \<in> shuffles xs ys \<Longrightarrow> ps @ zs \<in> shuffles xs (ps @ ys)"
  by (induction ps) (auto intro: Cons_in_shuffles_rightI)

text \<open>
  From \<open>q\<close> to \<open>q'\<close> the merged stream has handed out \<open>ms\<close>: an interleaving of what was taken from each of
  the channels.
\<close>

definition hands_out ::
  "('i receiver, 'i receiver) select_with_weak \<Rightarrow> 'i list \<Rightarrow> ('i receiver, 'i receiver) select_with_weak \<Rightarrow> bool" where
  "hands_out q ms q' \<longleftrightarrow>
     (\<exists>k l. strong q' = sdrop k (strong q) \<and> weak q' = sdrop l (weak q)
        \<and> ms \<in> shuffles (items_of (stake k (strong q))) (items_of (stake l (weak q))))"

lemma hands_out_refl [simp]: "hands_out q [] q"
  unfolding hands_out_def by (rule exI[of _ 0], rule exI[of _ 0]) simp

lemma shuffles_append:
  "zs \<in> shuffles xs ys \<Longrightarrow> zs' \<in> shuffles xs' ys' \<Longrightarrow> zs @ zs' \<in> shuffles (xs @ xs') (ys @ ys')"
proof (induction xs ys arbitrary: zs rule: shuffles.induct)
  case (1 ys)
  then show ?case using shuffles_prefix_right by simp
next
  case (2 xs)
  then show ?case using shuffles_prefix_left by simp
next
  case (3 x xs y ys)
  from "3.prems"(1) consider us where "zs = x # us" "us \<in> shuffles xs (y # ys)"
    | us where "zs = y # us" "us \<in> shuffles (x # xs) ys" by auto
  then show ?case
  proof cases
    case 1
    from "3.IH"(1)[OF 1(2) "3.prems"(2)] 1(1) show ?thesis by auto
  next
    case 2
    from "3.IH"(2)[OF 2(2) "3.prems"(2)] 2(1) show ?thesis by auto
  qed
qed

lemma hands_out_trans:
  assumes "hands_out a ms b" "hands_out b ns c"
  shows "hands_out a (ms @ ns) c"
proof -
  from assms(1) obtain k l where 1: "strong b = sdrop k (strong a)" "weak b = sdrop l (weak a)"
    "ms \<in> shuffles (items_of (stake k (strong a))) (items_of (stake l (weak a)))"
    unfolding hands_out_def by blast
  from assms(2) 1(1,2) obtain k' l' where 2: "strong c = sdrop k' (sdrop k (strong a))"
    "weak c = sdrop l' (sdrop l (weak a))"
    "ns \<in> shuffles (items_of (stake k' (sdrop k (strong a)))) (items_of (stake l' (sdrop l (weak a))))"
    unfolding hands_out_def by auto
  have "ms @ ns \<in> shuffles (items_of (stake (k + k') (strong a))) (items_of (stake (l + l') (weak a)))"
    using shuffles_append[OF 1(3) 2(3)] by (simp only: stake_add[symmetric] items_of_append)
  moreover have "strong c = sdrop (k + k') (strong a)" "weak c = sdrop (l + l') (weak a)"
    using 2(1,2) by (simp_all add: sdrop_add)
  ultimately show ?thesis unfolding hands_out_def by blast
qed

lemma select_hands_out:
  assumes "select_poll receiver_poll receiver_poll q = (a, q')"
  shows "hands_out q (items_of [a]) q'"
proof -
  from select_poll_merges[OF assms] obtain k l where kl: "strong q' = sdrop k (strong q)" "weak q' = sdrop l (weak q)"
    "items_of (stake k (strong q)) = items_of [a] \<and> items_of (stake l (weak q)) = []
      \<or> items_of (stake k (strong q)) = [] \<and> items_of (stake l (weak q)) = items_of [a]" by blast
  from kl(3) have "items_of [a] \<in> shuffles (items_of (stake k (strong q))) (items_of (stake l (weak q)))"
    by (elim disjE conjE) simp_all
  with kl(1,2) show ?thesis unfolding hands_out_def by blast
qed

lemma select_polls_hands_out: "hands_out q (items_of (fst (select_polls n q))) (snd (select_polls n q))"
proof (induction n arbitrary: q)
  case (Suc n)
  obtain a q1 where a: "select_poll receiver_poll receiver_poll q = (a, q1)" by fastforce
  obtain as q2 where as: "select_polls n q1 = (as, q2)" by fastforce
  have "items_of [a] @ items_of as = items_of (a # as)"
    unfolding items_of_append[symmetric] by simp
  moreover have "hands_out q (items_of [a] @ items_of as) q2"
    using hands_out_trans[OF select_hands_out[OF a] Suc.IH[of q1]] as by simp
  ultimately have "hands_out q (items_of (a # as)) q2" by (simp only:)
  then show ?case by (simp only: select_polls.simps a as Let_def prod.case fst_conv snd_conv)
qed simp

text \<open>C20: The merged stream loses, duplicates and reorders nothing: after any number of polls, the
  messages it has handed out are an interleaving of the messages that it has taken from the strong
  channel and of those that it has taken from the weak channel, each in the order of its channel.\<close>

theorem select_merges:
  "\<exists>k l. strong (snd (select_polls n s)) = sdrop k (strong s)
       \<and> weak (snd (select_polls n s)) = sdrop l (weak s)
       \<and> items_of (fst (select_polls n s))
           \<in> shuffles (items_of (stake k (strong s))) (items_of (stake l (weak s)))"
  using select_polls_hands_out[of s n] by (simp add: hands_out_def)

section \<open>Two channels\<close>

text \<open>Two merged channels that end at some point, and \<open>futures\<close> documents that a receiver never fails.\<close>

definition queue_ok :: "('a receiver, 'a receiver) select_with_weak \<Rightarrow> bool" where
  "queue_ok q \<longleftrightarrow> finitely_many (strong q) \<and> finitely_many (weak q)
     \<and> Inl () \<notin> sset (strong q) \<and> Inl () \<notin> sset (weak q)"

lemma queue_ok_poll:
  assumes "queue_ok q" "select_poll receiver_poll receiver_poll q = (a, q')"
  shows "queue_ok q' \<and> a \<noteq> Inl ()"
proof
  from select_ends[OF assms(2)] assms(1) show "queue_ok q'"
    by (auto simp: queue_ok_def receiver_poll_def finitely_many_stl dest: sset_stl_subset)
  show "a \<noteq> Inl ()"
    using assms(2)
  proof (cases rule: select_cases)
    case strong_answer
    with assms(1) shd_sset[of "strong q"] show ?thesis by (auto simp: queue_ok_def receiver_poll_def)
  next
    case weak_answer
    with assms(1) shd_sset[of "weak q"] show ?thesis by (auto simp: queue_ok_def receiver_poll_def)
  qed simp
qed

text \<open>A weak channel that does not end is polled whenever the merged stream answers \<open>NotReady\<close>.\<close>

definition weak_open :: "('a receiver, 'a receiver) select_with_weak \<Rightarrow> bool" where
  "weak_open q \<longleftrightarrow> \<not> weak_done q \<and> Inr (Ready None) \<notin> sset (weak q)"

lemma weak_open_poll:
  assumes "weak_open q" "select_poll receiver_poll receiver_poll q = (a, q')"
  shows "weak_open q'"
proof -
  from assms(1) have "shd (weak q) \<noteq> Inr (Ready None)" unfolding weak_open_def by (metis shd_sset)
  with assms show ?thesis
    by (auto simp: weak_open_def select_poll_eq receiver_poll_def Let_def dest: sset_stl_subset split: if_splits)
qed

lemma weak_open_idle:
  assumes "weak_open q" "select_poll receiver_poll receiver_poll q = (Inr NotReady, q')"
  shows "shd (strong q) = Inr NotReady \<and> shd (weak q) = Inr NotReady \<and> strong q' = stl (strong q) \<and> weak q' = stl (weak q)"
proof -
  from assms(1) have "shd (weak q) \<noteq> Inr (Ready None)" unfolding weak_open_def by (metis shd_sset)
  with assms show ?thesis
    by (auto simp: weak_open_def select_poll_eq receiver_poll_def Let_def split: if_splits)
qed

end
