(* ===== verification/Rpc_Types.thy ===== *)
theory Rpc_Types
  imports Prelude
begin

text \<open>
  The data that crosses the crates' boundaries: JSON values, the JSON-RPC 2.0 messages, the error
  kinds of \<open>core/src/lib.rs\<close>, and the three serialization functions at the end of that file.

  \<open>jsonrpc_core\<close> and \<open>serde_json\<close> are not part of the repository. Of their types the model has the
  constructors the sources build or match on; what they compute (serializing a message, parsing a
  string) is a field of the record \<open>serde\<close>, an argument of every definition that uses it. A
  field answers \<open>None\<close> where the library function answers an error. The cause that error-chain's
  \<open>chain_err\<close> attaches to an error is only ever printed, so an error is its kind.
\<close>

type_synonym u64 = "64 word"

section \<open>JSON values\<close>

text \<open>
  \<open>serde_json::Value\<close>. A number that is no \<open>u64\<close> is kept as its text: no code looks inside it.
\<close>

datatype json_number = U64 u64 | Other_number string

datatype json =
    JNull
  | JBool bool
  | JNumber json_number
  | JString string
  | JArray "json list"
  | JObject "(string \<times> json) list"

text \<open>\<open>jsonrpc_core::Params\<close>, \<open>Id\<close>, \<open>Version\<close> and \<open>Error\<close>.\<close>

datatype params = Params_Array "json list" | Params_Map "(string \<times> json) list"

datatype rpc_id = Id_Null | Id_Num u64 | Id_Str string

datatype version = V1 | V2

datatype rpc_error = Invalid_Request | Method_Not_Found | Rpc_Error int string "json option"

section \<open>Messages\<close>

record method_call =
  mc_jsonrpc :: "version option"
  mc_method :: string
  mc_params :: "params option"
  mc_id :: rpc_id

record notification =
  n_jsonrpc :: "version option"
  n_method :: string
  n_params :: "params option"

datatype call = Call_MethodCall method_call | Call_Notification notification | Call_Invalid rpc_id

datatype request = Request_Single call | Request_Batch "call list"

datatype rpc_output =
    Output_Success (jsonrpc: "version option") json (output_id: rpc_id)
  | Output_Failure (jsonrpc: "version option") rpc_error (output_id: rpc_id)

datatype response = Response_Single rpc_output | Response_Batch "rpc_output list"

text \<open>\<open>IncomingMessage\<close>: what a payload from the transport can be.\<close>

datatype incoming_message = Incoming_Response rpc_output | Incoming_Request request

section \<open>Errors\<close>

text \<open>The \<open>error_chain!\<close> block of \<open>core/src/lib.rs\<close>.\<close>

datatype core_error =
    TransportError
  | SerializeError
  | DeserializeError
  | ResponseError string
  | InvalidVersion
  | Shutdown
  | JsonRpcError rpc_error

section \<open>What the client sends\<close>

text \<open>
  \<open>oneshot::Sender<Result<JsonValue>>\<close> and \<open>oneshot::Sender<Result<()>>\<close>: the channel on which the
  outcome of a call or of a notification goes back, named by a number.
\<close>

type_synonym completion = nat

text \<open>\<open>OutgoingMessage\<close>.\<close>

datatype outgoing_message =
    Msg_RpcCall string "params option" completion
  | Msg_Notification string "params option" completion
  | Msg_Response response

text \<open>
  A clone of the \<open>mpsc::Sender<OutgoingMessage>\<close> on which the server half hands its responses to
  the client: the future that \<open>sink.send(msg)\<close> gives for each message.
\<close>

type_synonym response_sender = "outgoing_message \<Rightarrow> (unit, unit) fut"

section \<open>Serialization\<close>

text \<open>
  The functions of \<open>serde_json\<close> the crates call: \<open>to_value\<close> on parameters that are already
  \<open>Option<Params>\<close>, \<open>to_string\<close> on the three kinds of message, and \<open>from_str\<close> for the two variants
  of \<open>IncomingMessage\<close>.
\<close>

record serde =
  to_value_params :: "params option \<Rightarrow> json option"
  to_string_call :: "method_call \<Rightarrow> string option"
  to_string_notification :: "notification \<Rightarrow> string option"
  to_string_response :: "response \<Rightarrow> string option"
  from_str_output :: "string \<Rightarrow> rpc_output option"
  from_str_request :: "string \<Rightarrow> request option"

text \<open>
  \<open>serialize_parameters\<close>. Its argument is any serializable value; what the model needs of the
  value is \<open>serde_json::to_value\<close> on it, given as the first argument.
\<close>

definition serialize_parameters :: "('p \<Rightarrow> json option) \<Rightarrow> 'p \<Rightarrow> core_error + params option" where
  "serialize_parameters to_value p =
     (case to_value p of
        None \<Rightarrow> Inl SerializeError
      | Some JNull \<Rightarrow> Inr None
      | Some (JArray vec) \<Rightarrow> Inr (Some (Params_Array vec))
      | Some (JObject obj) \<Rightarrow> Inr (Some (Params_Map obj))
      | Some value \<Rightarrow> Inr (Some (Params_Array [value])))"

definition serialize_method_request ::
  "serde \<Rightarrow> rpc_id \<Rightarrow> string \<Rightarrow> params option \<Rightarrow> core_error + string" where
  "serialize_method_request sd i method ps =
     (case serialize_parameters (to_value_params sd) ps of
        Inl e \<Rightarrow> Inl e
      | Inr serialized_params \<Rightarrow>
          (case to_string_call sd
              \<lparr>mc_jsonrpc = Some V2, mc_method = method, mc_params = serialized_params, mc_id = i\<rparr> of
             None \<Rightarrow> Inl SerializeError
           | Some s \<Rightarrow> Inr s))"

definition serialize_notification_request ::
  "serde \<Rightarrow> string \<Rightarrow> params option \<Rightarrow> core_error + string" where
  "serialize_notification_request sd method ps =
     (case serialize_parameters (to_value_params sd) ps of
        Inl e \<Rightarrow> Inl e
      | Inr serialized_params \<Rightarrow>
          (case to_string_notification sd
              \<lparr>n_jsonrpc = Some V2, n_method = method, n_params = serialized_params\<rparr> of
             None \<Rightarrow> Inl SerializeError
           | Some s \<Rightarrow> Inr s))"

text \<open>
  \<open>serde_json::from_str::<IncomingMessage>\<close>: the enum is \<open>#[serde(untagged)]\<close>, so the variants are
  tried in the order of their declaration, the response first.
\<close>

definition parse_incoming :: "serde \<Rightarrow> string \<Rightarrow> incoming_message option" where
  "parse_incoming sd s =
     (case from_str_output sd s of
        Some out \<Rightarrow> Some (Incoming_Response out)
      | None \<Rightarrow> map_option Incoming_Request (from_str_request sd s))"

text \<open>
  What serde documents of an untagged \<open>Option<Params>\<close>: \<open>None\<close> is \<open>null\<close>, an array or a map is that
  array or map.
\<close>

definition params_transparent :: "(params option \<Rightarrow> json option) \<Rightarrow> bool" where
  "params_transparent to_value \<longleftrightarrow>
     to_value None = Some JNull
     \<and> (\<forall>vec. to_value (Some (Params_Array vec)) = Some (JArray vec))
     \<and> (\<forall>obj. to_value (Some (Params_Map obj)) = Some (JObject obj))"

text \<open>
  A function with that behaviour.
\<close>

fun params_value :: "params option \<Rightarrow> json option" where
  "params_value None = Some JNull"
| "params_value (Some (Params_Array vec)) = Some (JArray vec)"
| "params_value (Some (Params_Map obj)) = Some (JObject obj)"

lemma params_transparent_params_value [simp]: "params_transparent params_value"
  by (simp add: params_transparent_def)

lemma serialize_parameters_transparent:
  "params_transparent to_value \<Longrightarrow> serialize_parameters to_value ps = Inr ps"
  by (cases ps rule: params_value.cases) (simp_all add: params_transparent_def serialize_parameters_def)

end
