(* ===== verification/Id_Generator.thy ===== *)
theory Id_Generator
  imports Rpc_Types
begin

text \<open>
  \<open>core/src/id_generator.rs\<close>: a counter that starts at 1. The client draws the id of each call
  from one generator (\<open>next\<close>), the server the key of each pending future from another one
  (\<open>next_int\<close>). The counter is a \<open>u64\<close> and \<open>+= 1\<close> wraps around, as a release build does.

  The interface both clients rely on is the locale \<open>id_source\<close>: an id that has not been given out
  before, as long as the source is not exhausted. The generator provides it twice.
\<close>

record id_generator =
  next_id :: u64

definition id_generator_new :: id_generator where
  "id_generator_new = \<lparr>next_id = 1\<rparr>"

definition id_next :: "id_generator \<Rightarrow> rpc_id \<times> id_generator" where
  "id_next g = (Id_Num (next_id g), g\<lparr>next_id := next_id g + 1\<rparr>)"

definition id_next_int :: "id_generator \<Rightarrow> u64 \<times> id_generator" where
  "id_next_int g = (next_id g, g\<lparr>next_id := next_id g + 1\<rparr>)"

section \<open>The interface\<close>

locale id_source =
  fixes draw :: "'g \<Rightarrow> 'i \<times> 'g"
    and issued :: "'g \<Rightarrow> 'i set"
    and remaining :: "'g \<Rightarrow> nat"
  assumes draw_fresh: "0 < remaining g \<Longrightarrow> fst (draw g) \<notin> issued g"
    and draw_issued: "0 < remaining g \<Longrightarrow> issued (snd (draw g)) = insert (fst (draw g)) (issued g)"
    and draw_remaining: "0 < remaining g \<Longrightarrow> remaining (snd (draw g)) = remaining g - 1"
begin

fun draws :: "nat \<Rightarrow> 'g \<Rightarrow> 'i list \<times> 'g" where
  "draws 0 g = ([], g)"
| "draws (Suc n) g = (let (i, g') = draw g; (js, g'') = draws n g' in (i # js, g''))"

lemma draws_fresh:
  "n \<le> remaining g \<Longrightarrow>
     distinct (fst (draws n g)) \<and> set (fst (draws n g)) \<inter> issued g = {}"
proof (induction n arbitrary: g)
  case 0
  then show ?case by simp
next
  case (Suc n)
  obtain i g' where d: "draw g = (i, g')" by (cases "draw g")
  obtain js g'' where ds: "draws n g' = (js, g'')" by (cases "draws n g'")
  from Suc.prems have "0 < remaining g" by simp
  with d draw_fresh[of g] draw_issued[of g] draw_remaining[of g]
  have i: "i \<notin> issued g" and iss: "issued g' = insert i (issued g)" and "remaining g' = remaining g - 1"
    by simp_all
  with Suc.IH[of g'] Suc.prems ds show ?case by (auto simp: d)
qed

lemma issued_mono: "0 < remaining g \<Longrightarrow> issued g \<subseteq> issued (snd (draw g))"
  by (auto simp: draw_issued)

end

section \<open>The generator provides it\<close>

text \<open>The numbers handed out so far, and how many are left before the counter wraps around.\<close>

definition ids_issued :: "id_generator \<Rightarrow> u64 set" where
  "ids_issued g = {w. 1 \<le> w \<and> w < next_id g}"

definition ids_remaining :: "id_generator \<Rightarrow> nat" where
  "ids_remaining g = (if next_id g = 0 then 0 else 2 ^ 64 - 1 - unat (next_id g))"

lemma ids_remaining_pos:
  assumes "0 < ids_remaining g"
  shows "next_id g \<noteq> 0" "unat (next_id g + 1) = unat (next_id g) + 1"
proof -
  from assms show "next_id g \<noteq> 0" by (auto simp: ids_remaining_def split: if_splits)
  from assms have "unat (next_id g) + 1 < 2 ^ LENGTH(64)"
    by (auto simp: ids_remaining_def split: if_splits)
  then show "unat (next_id g + 1) = unat (next_id g) + 1"
    by (simp add: unat_word_ariths)
qed

lemma ids_remaining_new [simp]: "ids_remaining id_generator_new = 2 ^ 64 - 2"
  by (simp add: ids_remaining_def id_generator_new_def)

lemma ids_issued_new [simp]: "ids_issued id_generator_new = {}"
  by (auto simp: ids_issued_def id_generator_new_def)

lemma next_id_not_issued [simp]: "next_id g \<notin> ids_issued g"
  by (simp add: ids_issued_def)

lemma ids_issued_step:
  assumes "0 < ids_remaining g"
  shows "ids_issued (g\<lparr>next_id := next_id g + 1\<rparr>) = insert (next_id g) (ids_issued g)"
proof -
  from ids_remaining_pos[OF assms]
  have n: "next_id g \<noteq> 0" "unat (next_id g + 1) = unat (next_id g) + 1" .
  then have "w < next_id g + 1 \<longleftrightarrow> w = next_id g \<or> w < next_id g" for w
    by (auto simp: word_less_nat_alt less_Suc_eq word_unat_eq_iff)
  moreover have "1 \<le> next_id g"
    using n(1) by (simp add: word_le_nat_alt unat_gt_0 Suc_leI)
  ultimately show ?thesis by (auto simp: ids_issued_def)
qed

lemma ids_remaining_step:
  assumes "0 < ids_remaining g"
  shows "ids_remaining (g\<lparr>next_id := next_id g + 1\<rparr>) = ids_remaining g - 1"
proof -
  from ids_remaining_pos[OF assms]
  have n: "next_id g \<noteq> 0" "unat (next_id g + 1) = unat (next_id g) + 1" .
  from n(2) have "next_id g + 1 \<noteq> 0" by (metis add_is_0 one_neq_zero unat_0)
  with n show ?thesis by (simp add: ids_remaining_def)
qed

interpretation call_ids: id_source id_next "\<lambda>g. Id_Num ` ids_issued g" ids_remaining
  by unfold_locales (auto simp: id_next_def ids_issued_step ids_remaining_step)

interpretation future_ids: id_source id_next_int ids_issued ids_remaining
  by unfold_locales (auto simp: id_next_int_def ids_issued_step ids_remaining_step)

section \<open>The ids a client draws\<close>

lemma draws_from: "fst (call_ids.draws n g) = map (\<lambda>k. Id_Num (next_id g + of_nat k)) [0..<n]"
proof (induction n arbitrary: g)
  case (Suc n)
  have "map (\<lambda>k. Id_Num (next_id g + 1 + of_nat k)) [0..<n] = map (\<lambda>k. Id_Num (next_id g + of_nat k)) [1..<Suc n]"
    unfolding One_nat_def map_Suc_upt[symmetric] by (simp add: comp_def add.assoc)
  moreover have "id_next g = (Id_Num (next_id g), g\<lparr>next_id := next_id g + 1\<rparr>)" by (simp add: id_next_def)
  ultimately show ?case using Suc.IH[of "g\<lparr>next_id := next_id g + 1\<rparr>"]
    by (cases "call_ids.draws n (g\<lparr>next_id := next_id g + 1\<rparr>)") (simp add: upt_conv_Cons del: upt_Suc)
qed simp

lemma distinct_ids: "distinct (map (\<lambda>k. Id_Num (1 + of_nat k)) [0..<n]) \<longleftrightarrow> n \<le> 2 ^ 64"
proof
  assume "n \<le> 2 ^ 64"
  then have "inj_on (\<lambda>k. of_nat k :: u64) {0..<n}"
    by (auto simp: inj_on_def word_of_nat_eq_iff take_bit_nat_eq_self)
  then show "distinct (map (\<lambda>k. Id_Num (1 + of_nat k)) [0..<n])"
    by (auto simp: distinct_map inj_on_def)
next
  assume d: "distinct (map (\<lambda>k. Id_Num (1 + of_nat k)) [0..<n])"
  show "n \<le> 2 ^ 64"
  proof (rule ccontr)
    assume "\<not> n \<le> 2 ^ 64"
    then have "(0::nat) \<in> set [0..<n]" "2 ^ 64 \<in> set [0..<n]" by auto
    moreover have "(of_nat (2 ^ 64) :: u64) = of_nat 0" by (simp add: word_of_nat_eq_iff)
    ultimately show False
      using d unfolding distinct_map inj_on_def by fastforce
  qed
qed


end
