(* ===== verification/Server.thy ===== *)
theory Server
  imports Id_Generator "HOL-Library.Multiset"
begin

text \<open>
  \<open>core/src/server.rs\<close>: the server half of the client. \<open>Handlers\<close> maps method names to the user's
  callbacks; \<open>Server::process_request\<close> dispatches an incoming request to them and keeps the futures
  that are not ready yet; \<open>Server::poll\<close> first carries out the pending changes of the handler map
  (\<open>drain_handler_chan\<close>) and then drives these futures in the order of their keys.

  A callback of the user is a function from the call to a future. The two ghost fields of
  \<open>server\<close> record what left it: \<open>handler_replies\<close> the answers sent to the \<open>ServerHandle\<close>s,
  \<open>responses\<close> the messages handed to the client for the remote end, in the order of sending.
\<close>

section \<open>Handlers\<close>

datatype handler =
    Handler_Method "method_call \<Rightarrow> (rpc_output, core_error) fut"
  | Handler_Notification "notification \<Rightarrow> (unit, core_error) fut"

definition handler_description :: "handler \<Rightarrow> string" where
  "handler_description h =
     (case h of Handler_Method _ \<Rightarrow> ''method'' | Handler_Notification _ \<Rightarrow> ''notification'')"

datatype handler_error = AlreadyExists | NoHandler | Handler_Shutdown

datatype handler_setting_error = HandlerSettingError (setting_handler: handler) (setting_kind: handler_error)

type_synonym handlers = "string \<rightharpoonup> handler"

definition handlers_new :: handlers where
  "handlers_new = Map.empty"

definition handlers_add ::
  "handlers \<Rightarrow> string \<Rightarrow> handler \<Rightarrow> (handler_setting_error + unit) \<times> handlers" where
  "handlers_add hs method h =
     (if method \<in> dom hs then (Inl (HandlerSettingError h AlreadyExists), hs)
      else (Inr (), hs(method \<mapsto> h)))"

definition handlers_remove :: "handlers \<Rightarrow> string \<Rightarrow> (handler_error + handler) \<times> handlers" where
  "handlers_remove hs method =
     (case hs method of
        Some h \<Rightarrow> (Inr h, hs(method := None))
      | None \<Rightarrow> (Inl NoHandler, hs))"

definition failure :: "rpc_id \<Rightarrow> rpc_error \<Rightarrow> rpc_output" where
  "failure i e = Output_Failure (Some V2) e i"

type_synonym pending_call = "(rpc_output option, core_error) fut"

definition handle_method_call :: "handlers \<Rightarrow> method_call \<Rightarrow> pending_call" where
  "handle_method_call hs mc =
     (case hs (mc_method mc) of
        Some (Handler_Method h) \<Rightarrow> map_ok Some (h mc)
      | _ \<Rightarrow> Resolved (Inr (Some (failure (mc_id mc) Method_Not_Found))))"

definition handle_notification_call :: "handlers \<Rightarrow> notification \<Rightarrow> pending_call" where
  "handle_notification_call hs n =
     (case hs (n_method n) of
        Some (Handler_Notification h) \<Rightarrow> map_ok (\<lambda>_. None) (h n)
      | _ \<Rightarrow> Resolved (Inr None))"

definition handle_single_call :: "handlers \<Rightarrow> call \<Rightarrow> pending_call" where
  "handle_single_call hs c =
     (case c of
        Call_MethodCall mc \<Rightarrow> handle_method_call hs mc
      | Call_Notification n \<Rightarrow> handle_notification_call hs n
      | Call_Invalid i \<Rightarrow> Resolved (Inr (Some (failure i Invalid_Request))))"

section \<open>The futures of requests that are being handled\<close>

text \<open>
  The states of the future that \<open>process_request\<close> builds with \<open>and_then\<close>: it waits for the single
  call, or for the calls of a batch with the answers collected so far; then it sends the response.
  \<open>Drv_err\<close> is \<open>future::err(e)\<close>. A future that has answered \<open>Ready\<close> or an error is \<open>Drv_done\<close>, and
  polling it again panics.
\<close>

datatype drivable =
    Drv_single pending_call response_sender
  | Drv_batch "pending_call list" "rpc_output list" response_sender
  | Drv_sending outgoing_message "(unit, unit) fut"
  | Drv_err core_error
  | Drv_done

type_synonym drive_result = "(unit async, core_error) outcome \<times> drivable \<times> outgoing_message list"

definition drive_send :: "outgoing_message \<Rightarrow> (unit, unit) fut \<Rightarrow> drive_result" where
  "drive_send m f =
     (case poll_fut f of
        (Inr NotReady, f') \<Rightarrow> (Ret NotReady, Drv_sending m f', [])
      | (Inr (Ready _), _) \<Rightarrow> (Ret (Ready ()), Drv_done, [m])
      | (Inl _, _) \<Rightarrow> (Raise Shutdown, Drv_done, []))"

text \<open>
  One poll of \<open>futures_unordered(calls).filter_map(..).collect()\<close>: every call that is not finished
  is polled, the outputs of those that finish are collected, the first error ends the batch.
\<close>

fun poll_calls :: "pending_call list \<Rightarrow> core_error + pending_call list \<times> rpc_output list" where
  "poll_calls [] = Inr ([], [])"
| "poll_calls (f # fs) =
     (case poll_fut f of
        (Inl e, _) \<Rightarrow> Inl e
      | (Inr a, f') \<Rightarrow>
          (case poll_calls fs of
             Inl e \<Rightarrow> Inl e
           | Inr (fs', outs) \<Rightarrow>
               (case a of
                  NotReady \<Rightarrow> Inr (f' # fs', outs)
                | Ready None \<Rightarrow> Inr (fs', outs)
                | Ready (Some out) \<Rightarrow> Inr (fs', out # outs))))"

fun drive :: "drivable \<Rightarrow> drive_result" where
  "drive (Drv_single f sink) =
     (case poll_fut f of
        (Inr NotReady, f') \<Rightarrow> (Ret NotReady, Drv_single f' sink, [])
      | (Inr (Ready (Some response)), _) \<Rightarrow>
          drive_send (Msg_Response (Response_Single response)) (sink (Msg_Response (Response_Single response)))
      | (Inr (Ready None), _) \<Rightarrow> (Ret (Ready ()), Drv_done, [])
      | (Inl e, _) \<Rightarrow> (Raise e, Drv_done, []))"
| "drive (Drv_batch fs outs sink) =
     (case poll_calls fs of
        Inl e \<Rightarrow> (Raise e, Drv_done, [])
      | Inr (fs', outs') \<Rightarrow>
          (if fs' \<noteq> [] then (Ret NotReady, Drv_batch fs' (outs @ outs') sink, [])
           else if 0 < length (outs @ outs')
             then drive_send (Msg_Response (Response_Batch (outs @ outs')))
                    (sink (Msg_Response (Response_Batch (outs @ outs'))))
           else (Ret (Ready ()), Drv_done, [])))"
| "drive (Drv_sending m f) = drive_send m f"
| "drive (Drv_err e) = (Raise e, Drv_done, [])"
| "drive Drv_done = (Panic, Drv_done, [])"

section \<open>The server\<close>

datatype handler_msg =
    AddHandler string handler completion
  | RemoveHandler string completion

datatype handler_reply =
    Add_reply "handler_setting_error + unit"
  | Remove_reply "handler_error + handler"

record server =
  handler_chan :: "handler_msg receiver option"
  handler_map :: handlers
  pending_futures :: "(u64, drivable) btree_map"
  future_ids :: id_generator
  handler_replies :: "(completion \<times> handler_reply) list"
  responses :: "outgoing_message list"

text \<open>\<open>Server::new\<close>: the argument is the receiving half of the channel it creates.\<close>

definition server_new :: "handler_msg receiver \<Rightarrow> server" where
  "server_new rx =
     \<lparr>handler_chan = Some rx, handler_map = handlers_new, pending_futures = [],
      future_ids = id_generator_new, handler_replies = [], responses = []\<rparr>"

definition push_future :: "drivable \<Rightarrow> server \<Rightarrow> server" where
  "push_future d srv =
     (let (key, g) = id_next_int (future_ids srv)
      in srv\<lparr>future_ids := g, pending_futures := btree_insert key d (pending_futures srv)\<rparr>)"

definition reply :: "completion \<Rightarrow> handler_reply \<Rightarrow> server \<Rightarrow> server" where
  "reply tx r srv = srv\<lparr>handler_replies := handler_replies srv @ [(tx, r)]\<rparr>"

fun handle_msg :: "handler_msg \<Rightarrow> server \<Rightarrow> server" where
  "handle_msg (AddHandler name h tx) srv =
     (let (r, hs) = handlers_add (handler_map srv) name h
      in reply tx (Add_reply r) (srv\<lparr>handler_map := hs\<rparr>))"
| "handle_msg (RemoveHandler name tx) srv =
     (let (r, hs) = handlers_remove (handler_map srv) name
      in reply tx (Remove_reply r) (srv\<lparr>handler_map := hs\<rparr>))"

text \<open>One turn of the loop of \<open>drain_handler_chan\<close>, on the channel taken out of the server.\<close>

definition drain_turn ::
  "handler_msg receiver \<times> server \<Rightarrow> (unit, core_error) outcome flow \<times> handler_msg receiver \<times> server" where
  "drain_turn cs =
     (case cs of (chan, srv) \<Rightarrow>
       (case receiver_poll chan of
          (Inr (Ready (Some msg)), chan') \<Rightarrow> (Continue, chan', handle_msg msg srv)
        | (Inr NotReady, chan') \<Rightarrow> (Return (Ret ()), chan', srv\<lparr>handler_chan := Some chan'\<rparr>)
        | (Inl _, chan') \<Rightarrow> (Return Panic, chan', srv)
        | (Inr (Ready None), chan') \<Rightarrow> (Return (Ret ()), chan', srv)))"

definition drain_handler_chan :: "server \<Rightarrow> ((unit, core_error) outcome \<times> server) option" where
  "drain_handler_chan srv =
     (case handler_chan srv of
        None \<Rightarrow> Some (Ret (), srv)
      | Some chan \<Rightarrow>
          map_option (\<lambda>(r, _, srv'). (r, srv')) (rust_loop drain_turn (chan, srv\<lparr>handler_chan := None\<rparr>)))"

text \<open>
  \<open>pending_futures.iter_mut().map(|(key, fut)| Ok((*key, fut.poll()?))).collect()\<close>: the futures are
  polled in the order of their keys, up to the first one that fails.
\<close>

fun poll_futures ::
  "(u64, drivable) btree_map
     \<Rightarrow> ((u64 \<times> unit async) list, core_error) outcome \<times> (u64, drivable) btree_map \<times> outgoing_message list" where
  "poll_futures [] = (Ret [], [], [])"
| "poll_futures ((key, d) # m) =
     (case drive d of
        (Ret a, d', ms) \<Rightarrow>
          (case poll_futures m of
             (Ret polled, m', ms') \<Rightarrow> (Ret ((key, a) # polled), (key, d') # m', ms @ ms')
           | (r, m', ms') \<Rightarrow> (r, (key, d') # m', ms @ ms'))
      | (Raise e, d', ms) \<Rightarrow> (Raise e, (key, d') # m, ms)
      | (Panic, d', ms) \<Rightarrow> (Panic, (key, d') # m, ms))"

definition remove_finished ::
  "(u64 \<times> unit async) list \<Rightarrow> (u64, drivable) btree_map \<Rightarrow> (u64, drivable) btree_map" where
  "remove_finished polled m =
     foldl (\<lambda>m (key, res). if res = Ready () then btree_remove key m else m) m polled"

definition server_poll :: "server \<Rightarrow> ((unit async, core_error) outcome \<times> server) option" where
  "server_poll srv =
     try_then (drain_handler_chan srv) (\<lambda>_ srv.
       (case poll_futures (pending_futures srv) of
          (Ret polled, m, ms) \<Rightarrow>
            Some (Ret NotReady, srv\<lparr>pending_futures := remove_finished polled m, responses := responses srv @ ms\<rparr>)
        | (Raise e, m, ms) \<Rightarrow> Some (Raise e, srv\<lparr>pending_futures := m, responses := responses srv @ ms\<rparr>)
        | (Panic, m, ms) \<Rightarrow> Some (Panic, srv\<lparr>pending_futures := m, responses := responses srv @ ms\<rparr>)))"

definition driveable_future :: "handlers \<Rightarrow> request \<Rightarrow> response_sender \<Rightarrow> drivable" where
  "driveable_future hs req sink =
     (case req of
        Request_Single c \<Rightarrow> Drv_single (handle_single_call hs c) sink
      | Request_Batch calls \<Rightarrow> Drv_batch (map (handle_single_call hs) calls) [] sink)"

definition process_request ::
  "request \<Rightarrow> response_sender \<Rightarrow> server \<Rightarrow> (unit, core_error) outcome \<times> server" where
  "process_request req sink srv =
     (case drive (driveable_future (handler_map srv) req sink) of
        (r, d, ms) \<Rightarrow>
          (let srv' = srv\<lparr>responses := responses srv @ ms\<rparr> in
           case r of
             Ret NotReady \<Rightarrow> (Ret (), push_future d srv')
           | Raise e \<Rightarrow> (Ret (), push_future (Drv_err e) srv')
           | Ret (Ready _) \<Rightarrow> (Ret (), srv')
           | Panic \<Rightarrow> (Panic, srv')))"

text \<open>\<open>Drop for Server\<close>: \<open>Handlers::shutdown\<close> clears the map.\<close>

definition handlers_shutdown :: "handlers \<Rightarrow> handlers" where
  "handlers_shutdown hs = Map.empty"

definition server_drop :: "server \<Rightarrow> server" where
  "server_drop srv = srv\<lparr>handler_map := handlers_shutdown (handler_map srv)\<rparr>"

section \<open>The handler map\<close>

text \<open>
  The specification of the handler map: the messages of the channel, carried out one after the
  other on a plain map, with their answers.
\<close>

fun registry_step :: "handler_msg \<Rightarrow> handlers \<times> (completion \<times> handler_reply) list
    \<Rightarrow> handlers \<times> (completion \<times> handler_reply) list" where
  "registry_step (AddHandler name h tx) (m, out) =
     (case m name of
        None \<Rightarrow> (m(name \<mapsto> h), out @ [(tx, Add_reply (Inr ()))])
      | Some _ \<Rightarrow> (m, out @ [(tx, Add_reply (Inl (HandlerSettingError h AlreadyExists)))]))"
| "registry_step (RemoveHandler name tx) (m, out) =
     (m(name := None),
      out @ [(tx, Remove_reply (case m name of Some h \<Rightarrow> Inr h | None \<Rightarrow> Inl NoHandler))])"

definition registry :: "server \<Rightarrow> handlers \<times> (completion \<times> handler_reply) list" where
  "registry srv = (handler_map srv, handler_replies srv)"

text \<open>What draining the channel never touches.\<close>

definition same_work :: "server \<Rightarrow> server \<Rightarrow> bool" where
  "same_work s t \<longleftrightarrow> pending_futures t = pending_futures s \<and> future_ids t = future_ids s
     \<and> responses t = responses s"

lemma same_work_refl [simp]: "same_work s s"
  by (simp add: same_work_def)

lemma handle_msg_registry: "registry (handle_msg msg srv) = registry_step msg (registry srv)"
  by (cases msg)
    (auto simp: registry_def handlers_add_def handlers_remove_def reply_def domIff split: option.splits)

lemma handle_msg_frame [simp]:
  "handler_chan (handle_msg msg srv) = handler_chan srv"
  "pending_futures (handle_msg msg srv) = pending_futures srv"
  "future_ids (handle_msg msg srv) = future_ids srv"
  "responses (handle_msg msg srv) = responses srv"
  by (cases msg; simp add: reply_def split: prod.splits)+

lemma drain_turn_cases:
  assumes "drain_turn (chan, srv) = (f, chan', srv')"
  obtains (continue) msg where "shd chan = Inr (Ready (Some msg))" "f = Continue" "chan' = stl chan"
      "srv' = handle_msg msg srv"
  | (idle) "shd chan = Inr NotReady" "f = Return (Ret ())" "srv' = srv\<lparr>handler_chan := Some (stl chan)\<rparr>"
  | (finished) "shd chan = Inr (Ready None)" "f = Return (Ret ())" "srv' = srv"
  | (broken) "shd chan = Inl ()" "f = Return Panic" "srv' = srv"
  using assms
  by (cases "shd chan" rule: poll_cases) (auto simp: drain_turn_def receiver_poll_def)

text \<open>C19: Setting and removing handlers while the server runs behaves like a plain map: draining
  the handler channel carries out exactly the messages received, in their order, each on the map
  its predecessor left, and answers each of them; the futures being driven and the responses
  sent are not touched, and the channel is kept exactly when it is still open.\<close>

theorem drain_refines_registry:
  assumes "handler_chan srv = Some chan" and "drain_handler_chan srv = Some (Ret (), srv')"
  shows "\<exists>n. registry srv' = fold registry_step (items_of (stake n chan)) (registry srv)
     \<and> same_work srv srv'
     \<and> (handler_chan srv' = Some (sdrop (Suc n) chan) \<and> snth chan n = Inr NotReady
        \<or> handler_chan srv' = None \<and> snth chan n = Inr (Ready None))"
proof -
  define I where "I = (\<lambda>(c, s). \<exists>n. c = sdrop n chan \<and> handler_chan s = None \<and> same_work srv s
     \<and> registry s = fold registry_step (items_of (stake n chan)) (registry srv))"
  define Q where "Q = (\<lambda>(r :: (unit, core_error) outcome) (c :: handler_msg receiver, s). r = Ret () \<longrightarrow>
     (\<exists>n. registry s = fold registry_step (items_of (stake n chan)) (registry srv) \<and> same_work srv s
       \<and> (handler_chan s = Some (sdrop (Suc n) chan) \<and> snth chan n = Inr NotReady
          \<or> handler_chan s = None \<and> snth chan n = Inr (Ready None))))"
  from assms obtain c where "rust_loop drain_turn (chan, srv\<lparr>handler_chan := None\<rparr>) = Some (Ret (), c, srv')"
    by (auto simp: drain_handler_chan_def)
  then have "Q (Ret ()) (c, srv')"
  proof (rule rust_loop_invariant[where I = I])
    show "I (chan, srv\<lparr>handler_chan := None\<rparr>)"
      by (auto simp: I_def same_work_def registry_def intro: exI[of _ 0])
  next
    fix t u assume t: "I t" "drain_turn t = (Continue, u)"
    obtain c s c' s' where tu: "t = (c, s)" "u = (c', s')" by fastforce
    from t obtain n where n: "c = sdrop n chan" "handler_chan s = None" "same_work srv s"
      "registry s = fold registry_step (items_of (stake n chan)) (registry srv)"
      by (auto simp: I_def tu)
    from t(2) obtain msg where "shd c = Inr (Ready (Some msg))" "c' = stl c" "s' = handle_msg msg s"
      by (auto simp: tu elim: drain_turn_cases)
    with n show "I u"
      by (auto simp: I_def tu handle_msg_registry stake_Suc sdrop_simps same_work_def
          simp del: stake.simps(2) intro!: exI[of _ "Suc n"])
  next
    fix t u q assume t: "I t" "drain_turn t = (Return q, u)"
    obtain c s c' s' where tu: "t = (c, s)" "u = (c', s')" by fastforce
    with t show "Q q u"
      by (auto simp: I_def Q_def sdrop_simps same_work_def registry_def elim!: drain_turn_cases)
  qed
  then show ?thesis by (simp add: Q_def)
qed

section \<open>One poll of the server\<close>

lemma drive_send_cases:
  obtains (wait) f' where "drive_send m f = (Ret NotReady, Drv_sending m f', [])"
  | (sent) "drive_send m f = (Ret (Ready ()), Drv_done, [m])"
  | (closed) "drive_send m f = (Raise Shutdown, Drv_done, [])"
  by (cases f; cases "case f of Resolved r \<Rightarrow> r"; auto simp: drive_send_def split: sum.splits)

text \<open>A future that is polled while it is not finished never panics, and it is finished exactly
  when it has answered something else than \<open>NotReady\<close>; it sends nothing before that.\<close>

lemma drive_cases [case_names pending ready failed panicked]:
  obtains (pending) d' where "drive d = (Ret NotReady, d', [])" "d' \<noteq> Drv_done" "d \<noteq> Drv_done"
  | (ready) ms where "drive d = (Ret (Ready ()), Drv_done, ms)" "d \<noteq> Drv_done"
  | (failed) e where "drive d = (Raise e, Drv_done, [])" "d \<noteq> Drv_done"
  | (panicked) "drive d = (Panic, Drv_done, [])" "d = Drv_done"
proof (cases d rule: drive.cases)
  case (1 f sink)
  show ?thesis
  proof (cases f)
    case (Pending g)
    then show ?thesis using 1 by (auto intro: pending)
  next
    case (Resolved r)
    then show ?thesis
    proof (cases r)
      case (Inl e)
      then show ?thesis using 1 Resolved by (auto intro: failed)
    next
      case (Inr a)
      show ?thesis
      proof (cases a)
        case None
        then show ?thesis using 1 Resolved Inr by (auto intro: ready)
      next
        case (Some out)
        let ?m = "Msg_Response (Response_Single out)"
        show ?thesis
          using 1 Resolved Inr Some
          by (cases rule: drive_send_cases[of ?m "sink ?m"]) (auto intro: pending ready failed)
      qed
    qed
  qed
next
  case (2 fs outs sink)
  show ?thesis
  proof (cases "poll_calls fs")
    case (Inl e)
    then show ?thesis using 2 by (auto intro: failed)
  next
    case (Inr res)
    obtain fs' outs' where res: "res = (fs', outs')" by (cases res)
    let ?m = "Msg_Response (Response_Batch (outs @ outs'))"
    show ?thesis
    proof (cases "fs' = [] \<and> outs @ outs' \<noteq> []")
      case True
      then show ?thesis
        using 2 Inr res
        by (cases rule: drive_send_cases[of ?m "sink ?m"]) (auto intro: pending ready failed)
    next
      case False
      then show ?thesis using 2 Inr res by (cases "fs' = []") (auto intro: pending ready)
    qed
  qed
next
  case (3 m f)
  then show ?thesis by (cases rule: drive_send_cases[of m f]) (auto intro: pending ready failed)
qed (auto intro: failed panicked)

text \<open>
  What a poll of the pending futures amounts to when none of them fails: the ones that are still not
  ready stay, one step further, under their keys; what the others sent is sent in key order.
\<close>

definition still_pending :: "(u64, drivable) btree_map \<Rightarrow> (u64, drivable) btree_map" where
  "still_pending m =
     List.map_filter (\<lambda>(key, d). case drive d of (Ret NotReady, d', _) \<Rightarrow> Some (key, d') | _ \<Rightarrow> None) m"

definition emitted :: "(u64, drivable) btree_map \<Rightarrow> outgoing_message list" where
  "emitted m = concat (map (\<lambda>(_, d). snd (snd (drive d))) m)"

lemma still_pending_simps [simp]:
  "still_pending [] = []"
  "still_pending ((key, d) # m) =
     (case drive d of (Ret NotReady, d', _) \<Rightarrow> (key, d') # still_pending m | _ \<Rightarrow> still_pending m)"
  by (auto simp: still_pending_def map_filter_simps split: prod.splits outcome.splits async.splits)

lemma emitted_simps [simp]:
  "emitted [] = []" "emitted ((key, d) # m) = snd (snd (drive d)) @ emitted m"
  by (simp_all add: emitted_def)

lemma still_pending_keys: "fst ` set (still_pending m) \<subseteq> fst ` set m"
proof (induction m)
  case (Cons p m)
  obtain key d where "p = (key, d)" by (cases p)
  with Cons show ?case by (cases d rule: drive_cases) auto
qed simp

lemma btree_ok_Cons:
  "btree_ok ((k, v) # m) \<longleftrightarrow> (\<forall>k' \<in> fst ` set m. k < k') \<and> btree_ok m"
  by (auto simp: btree_ok_def order.strict_iff_order)

lemma btree_ok_still_pending: "btree_ok m \<Longrightarrow> btree_ok (still_pending m)"
proof (induction m)
  case (Cons p m)
  obtain k d where p: "p = (k, d)" by (cases p)
  with Cons still_pending_keys[of m] show ?case
    by (cases d rule: drive_cases) (fastforce simp: btree_ok_Cons)+
qed simp

lemma still_pending_not_done: "Drv_done \<notin> snd ` set (still_pending m)"
proof (induction m)
  case (Cons p m)
  obtain key d where "p = (key, d)" by (cases p)
  with Cons show ?case by (cases d rule: drive_cases) auto
qed simp

lemma remove_finished_filter:
  "remove_finished polled m = filter (\<lambda>(key, _). (key, Ready ()) \<notin> set polled) m"
proof (induction polled arbitrary: m)
  case Nil
  show ?case by (simp add: remove_finished_def)
next
  case (Cons p polled)
  obtain key a where p: "p = (key, a)" by (cases p)
  have "remove_finished (p # polled) m = remove_finished polled (if a = Ready () then btree_remove key m else m)"
    by (simp add: remove_finished_def p)
  with Cons.IH p show ?case
    by (cases a) (auto simp: btree_remove_def intro!: filter_cong)
qed

lemma poll_futures_Ret_aux:
  "poll_futures m = (Ret polled, m', ms) \<Longrightarrow>
     map fst m' = map fst m \<and> fst ` set polled \<subseteq> fst ` set m \<and> ms = emitted m
     \<and> (\<forall>d \<in> snd ` set m. \<exists>a. fst (drive d) = Ret a)
     \<and> (distinct (map fst m) \<longrightarrow> remove_finished polled m' = still_pending m)"
proof (induction m arbitrary: polled m' ms)
  case Nil
  then show ?case by (simp add: remove_finished_def)
next
  case (Cons p m)
  obtain key d where p: "p = (key, d)" by (cases p)
  from Cons.prems obtain a d' ms1 polled2 m2 ms2 where s: "drive d = (Ret a, d', ms1)"
      "poll_futures m = (Ret polled2, m2, ms2)" "polled = (key, a) # polled2" "m' = (key, d') # m2"
      "ms = ms1 @ ms2"
    by (auto simp: p split: prod.splits outcome.splits)
  note IH = Cons.IH[OF s(2)]
  have "remove_finished polled m' = still_pending (p # m)" if dist: "distinct (map fst (p # m))"
  proof -
    from dist have key: "key \<notin> set (map fst m)" by (simp add: p)
    with IH have "key \<notin> set (map fst m2)" "key \<notin> fst ` set polled2" by auto
    then have absent: "key \<notin> set (map fst m2)" "(key, Ready ()) \<notin> set polled2" by force+
    have "filter (\<lambda>(k, _). (k, Ready ()) \<notin> set ((key, a) # polled2)) m2
        = filter (\<lambda>(k, _). (k, Ready ()) \<notin> set polled2) m2"
      using absent(1) by (intro filter_cong) (auto simp: image_iff)
    with IH dist absent(2) s(1) show ?thesis
      by (cases a) (simp_all add: p s(3,4) remove_finished_filter)
  qed
  with IH s show ?case by (auto simp: p)
qed

lemmas poll_futures_Ret = poll_futures_Ret_aux[THEN conjunct2, THEN conjunct2]

text \<open>When one fails, it is the first one in key order; the later ones are not polled.\<close>

lemma poll_futures_Raise:
  "poll_futures m = (Raise e, m', ms) \<Longrightarrow>
     \<exists>m1 key d m2. m = m1 @ (key, d) # m2 \<and> fst (drive d) = Raise e \<and> ms = emitted m1
       \<and> (\<forall>d \<in> snd ` set m1. \<exists>a. fst (drive d) = Ret a)"
proof (induction m arbitrary: m' ms)
  case (Cons p m)
  obtain key d where p: "p = (key, d)" by (cases p)
  show ?case
  proof (cases "fst (drive d)")
    case (Ret a)
    with Cons.prems obtain m2 ms2 where "poll_futures m = (Raise e, m2, ms2)"
      and ms: "ms = snd (snd (drive d)) @ ms2"
      by (auto simp: p split: prod.splits outcome.splits)
    from Cons.IH[OF this(1)] obtain m1 k c m3 where "m = m1 @ (k, c) # m3" "fst (drive c) = Raise e"
      "ms2 = emitted m1" "\<forall>d \<in> snd ` set m1. \<exists>a. fst (drive d) = Ret a"
      by blast
    with Ret ms show ?thesis
      by (intro exI[of _ "p # m1"] exI[of _ k] exI[of _ c] exI[of _ m3]) (auto simp: p)
  next
    case (Raise e')
    with Cons.prems show ?thesis
      by (intro exI[of _ "[]"] exI[of _ key] exI[of _ d] exI[of _ m])
        (cases d rule: drive_cases; auto simp: p)
  next
    case Panic
    with Cons.prems show ?thesis by (auto simp: p split: prod.splits)
  qed
qed simp

lemma poll_futures_Raise_iff:
  assumes "poll_futures m = (r, m', ms1)"
  shows "r = Raise e \<and> ms = ms1 \<longleftrightarrow>
     (\<exists>m1 key d m2. m = m1 @ (key, d) # m2 \<and> fst (drive d) = Raise e
        \<and> ms = emitted m1 \<and> (\<forall>c \<in> snd ` set m1. \<exists>a. fst (drive c) = Ret a))"
proof
  assume "r = Raise e \<and> ms = ms1"
  with assms poll_futures_Raise[of m e m' ms] show "\<exists>m1 key d m2. m = m1 @ (key, d) # m2
      \<and> fst (drive d) = Raise e \<and> ms = emitted m1 \<and> (\<forall>c \<in> snd ` set m1. \<exists>a. fst (drive c) = Ret a)"
    by blast
next
  assume "\<exists>m1 key d m2. m = m1 @ (key, d) # m2 \<and> fst (drive d) = Raise e
        \<and> ms = emitted m1 \<and> (\<forall>c \<in> snd ` set m1. \<exists>a. fst (drive c) = Ret a)"
  then obtain m1 key d m2 where split: "m = m1 @ (key, d) # m2"
    "fst (drive d) = Raise e" "ms = emitted m1" "\<forall>c \<in> snd ` set m1. \<exists>a. fst (drive c) = Ret a"
    by blast
  from this(2,4) have "\<exists>m. poll_futures (m1 @ (key, d) # m2) = (Raise e, m, emitted m1)"
  proof (induction m1)
    case Nil
    then show ?case by (cases d rule: drive_cases) auto
  next
    case (Cons p m1)
    obtain k c where "p = (k, c)" by (cases p)
    with Cons show ?case by (cases c rule: drive_cases) auto
  qed
  with assms split show "r = Raise e \<and> ms = ms1" by auto
qed

lemma poll_futures_no_panic:
  "Drv_done \<notin> snd ` set m \<Longrightarrow> fst (poll_futures m) \<noteq> Panic"
proof (induction m)
  case (Cons p m)
  obtain key d where p: "p = (key, d)" by (cases p)
  with Cons show ?case
    by (cases d rule: drive_cases) (auto split: prod.splits outcome.splits)
qed simp

section \<open>The server never polls a finished future\<close>

text \<open>The handler channel of a running server: messages stop at some point, and the channel does not
  fail (\<open>futures\<close> documents that a receiver never answers an error).\<close>

definition channel_ok :: "'a receiver option \<Rightarrow> bool" where
  "channel_ok ch \<longleftrightarrow> (case ch of None \<Rightarrow> True | Some c \<Rightarrow> finitely_many c \<and> Inl () \<notin> sset c)"

definition server_ok :: "server \<Rightarrow> bool" where
  "server_ok srv \<longleftrightarrow> channel_ok (handler_chan srv) \<and> btree_ok (pending_futures srv)
     \<and> Drv_done \<notin> snd ` set (pending_futures srv)"

lemma drain_ok:
  assumes "channel_ok (handler_chan srv)"
  shows "\<exists>srv'. drain_handler_chan srv = Some (Ret (), srv') \<and> channel_ok (handler_chan srv') \<and> same_work srv srv'"
proof (cases "handler_chan srv")
  case None
  then show ?thesis by (simp add: drain_handler_chan_def channel_ok_def)
next
  case (Some chan)
  define I where "I = (\<lambda>(c :: handler_msg receiver, s). Inl () \<notin> sset c \<and> finitely_many c \<and> handler_chan s = None \<and> same_work srv s)"
  define Q where "Q = (\<lambda>r (c :: handler_msg receiver, s).
      r = (Ret () :: (unit, core_error) outcome) \<and> channel_ok (handler_chan s) \<and> same_work srv s)"
  let ?start = "(chan, srv\<lparr>handler_chan := None\<rparr>)"
  have start: "I ?start"
    using assms Some by (simp add: I_def channel_ok_def same_work_def)
  have step: "I u \<and> (\<exists>i s'. receiver_poll (fst t) = (Inr (Ready (Some i)), s') \<and> fst u = s')"
    if "I t" "drain_turn t = (Continue, u)" for t u
  proof -
    obtain c s c' s' where tu: "t = (c, s)" "u = (c', s')" by fastforce
    from that(2) obtain msg where m: "shd c = Inr (Ready (Some msg))" "c' = stl c" "s' = handle_msg msg s"
      unfolding tu by (rule drain_turn_cases) simp_all
    from that(1) have "Inl () \<notin> sset c'" "finitely_many c'"
      unfolding I_def tu m(2) by (auto simp: finitely_many_stl dest: sset_stl_subset)
    with that(1) m show ?thesis by (simp add: I_def tu receiver_poll_def same_work_def)
  qed
  have leave: "Q q u" if "I t" "drain_turn t = (Return q, u)" for t u q
  proof -
    obtain c s c' s' where tu: "t = (c, s)" "u = (c', s')" by fastforce
    from that(1) have c: "Inl () \<notin> sset c" "finitely_many c" and s: "handler_chan s = None" "same_work srv s"
      by (simp_all add: I_def tu)
    from c have stl: "Inl () \<notin> sset (stl c)" "finitely_many (stl c)"
      by (auto simp: finitely_many_stl dest: sset_stl_subset)
    from c(1) have "shd c \<noteq> Inl ()" by (metis shd_sset)
    from that(2) this s stl show ?thesis
      unfolding tu
      by (elim drain_turn_cases) (simp_all add: Q_def channel_ok_def same_work_def)
  qed
  from start have "finitely_many (fst ?start)" by (simp add: I_def)
  with start step obtain res where res: "rust_loop drain_turn ?start = Some res"
    using channel.drain_returns[where I = I and src = fst and body = drain_turn and c = ?start]
    by blast
  then obtain r c s where rcs: "res = (r, c, s)" by (cases res)
  have "Q r (c, s)"
    by (rule rust_loop_invariant[where I = I, OF res[unfolded rcs] start]) (use step leave in blast)+
  with Some res rcs show ?thesis by (simp add: drain_handler_chan_def Q_def)
qed

lemma process_request_cases:
  assumes "process_request req sink srv = (r, srv')"
  obtains (pushed) d where "r = Ret ()" "d \<noteq> Drv_done" "srv' = push_future d srv"
  | (answered) ms where "r = Ret ()" "srv' = srv\<lparr>responses := responses srv @ ms\<rparr>"
      "drive (driveable_future (handler_map srv) req sink) = (Ret (Ready ()), Drv_done, ms)"
proof -
  have nd: "driveable_future (handler_map srv) req sink \<noteq> Drv_done"
    by (simp add: driveable_future_def split: request.split)
  show ?thesis
    using assms nd
    by (cases "driveable_future (handler_map srv) req sink" rule: drive_cases)
      (auto simp: process_request_def intro: pushed answered)
qed

lemma snd_btree_insert: "snd ` set (btree_insert k v m) \<subseteq> insert v (snd ` set m)"
  by (induction k v m rule: btree_insert.induct) auto

lemma push_future_ok:
  assumes "server_ok srv" "d \<noteq> Drv_done"
  shows "server_ok (push_future d srv)"
proof -
  have "Drv_done \<notin> snd ` set (btree_insert (next_id (future_ids srv)) d (pending_futures srv))"
    using assms snd_btree_insert[of "next_id (future_ids srv)" d "pending_futures srv"]
    unfolding server_ok_def by blast
  with assms(1) show ?thesis by (simp add: server_ok_def push_future_def id_next_int_def)
qed

text \<open>One poll, with the outcome of draining the handler channel filled in.\<close>

lemma server_poll_unfold:
  assumes "server_ok srv"
  shows "\<exists>s1. same_work srv s1 \<and> channel_ok (handler_chan s1) \<and> server_poll srv =
     (case poll_futures (pending_futures srv) of
        (Ret _, _, _) \<Rightarrow> Some (Ret NotReady, s1\<lparr>pending_futures := still_pending (pending_futures srv),
           responses := responses srv @ emitted (pending_futures srv)\<rparr>)
      | (Raise e, m, ms) \<Rightarrow> Some (Raise e, s1\<lparr>pending_futures := m, responses := responses srv @ ms\<rparr>)
      | (Panic, m, ms) \<Rightarrow> Some (Panic, s1\<lparr>pending_futures := m, responses := responses srv @ ms\<rparr>))"
proof -
  from assms drain_ok[of srv] obtain s1 where s1: "drain_handler_chan srv = Some (Ret (), s1)"
    "channel_ok (handler_chan s1)" "same_work srv s1"
    by (auto simp: server_ok_def)
  obtain o1 m ms where pf: "poll_futures (pending_futures srv) = (o1, m, ms)"
    by (cases "poll_futures (pending_futures srv)")
  from s1 pf show ?thesis
    using poll_futures_Ret_aux[of "pending_futures srv" _ m ms] assms
    by (cases o1) (fastforce simp: server_poll_def same_work_def server_ok_def btree_ok_def)+
qed

lemma server_poll_total:
  assumes "server_ok srv"
  shows "\<exists>r srv'. server_poll srv = Some (r, srv') \<and> (r = Ret NotReady \<and> server_ok srv' \<or> (\<exists>e. r = Raise e))"
proof -
  obtain o1 m ms where pf: "poll_futures (pending_futures srv) = (o1, m, ms)"
    by (cases "poll_futures (pending_futures srv)")
  with poll_futures_no_panic[of "pending_futures srv"] assms have "o1 \<noteq> Panic"
    by (auto simp: server_ok_def)
  with pf server_poll_unfold[OF assms] assms show ?thesis
    by (cases o1) (auto simp: server_ok_def btree_ok_still_pending still_pending_not_done)
qed

lemma poll_futures_all_drive:
  "\<forall>d \<in> snd ` set m. \<exists>a. fst (drive d) = Ret a \<Longrightarrow> \<exists>polled m' ms. poll_futures m = (Ret polled, m', ms)"
proof (induction m)
  case (Cons p m)
  obtain key d where "p = (key, d)" by (cases p)
  with Cons show ?case by (cases d rule: drive_cases) auto
qed simp

lemma server_poll_ok:
  assumes "server_ok srv" and "\<forall>d \<in> snd ` set (pending_futures srv). \<exists>a. fst (drive d) = Ret a"
  shows "\<exists>srv'. server_poll srv = Some (Ret NotReady, srv') \<and> server_ok srv'
    \<and> pending_futures srv' = still_pending (pending_futures srv)
    \<and> responses srv' = responses srv @ emitted (pending_futures srv)"
  using server_poll_unfold[OF assms(1)] poll_futures_all_drive[OF assms(2)] assms(1)
  by (auto simp: server_ok_def btree_ok_still_pending still_pending_not_done)

lemma process_request_ok:
  assumes "server_ok srv"
  shows "\<exists>srv'. process_request req sink srv = (Ret (), srv') \<and> server_ok srv'"
proof (cases "process_request req sink srv")
  case (Pair r srv')
  then have "r = Ret () \<and> server_ok srv'"
  proof (cases rule: process_request_cases)
    case pushed
    with assms show ?thesis by (simp add: push_future_ok)
  next
    case answered
    with assms show ?thesis by (simp add: server_ok_def)
  qed
  with Pair show ?thesis by blast
qed

text \<open>C30: Polling a future again after it has finished would panic. The server never does that:
  as long as its handler channel is sound, a request is always accepted, a poll always returns, never
  panics, and what it keeps are unfinished futures only (after an error the client does not poll the
  server again).\<close>

theorem server_never_panics:
  assumes "server_ok srv"
  shows "\<exists>r srv' srv''. server_poll srv = Some (r, srv')
     \<and> (r = Ret NotReady \<and> server_ok srv' \<or> (\<exists>e. r = Raise e))
     \<and> process_request req sink srv = (Ret (), srv'') \<and> server_ok srv''"
  using server_poll_total[OF assms] process_request_ok[OF assms] by blast

definition idle_server :: server where
  "idle_server = server_new (sconst (Inr NotReady))"

lemma idle_server_ok [simp]: "server_ok idle_server"
  by (simp add: idle_server_def server_new_def server_ok_def channel_ok_def is_item_def)

theorem server_never_panics_witness:
  "\<exists>r srv' srv''. server_poll idle_server = Some (r, srv')
     \<and> (r = Ret NotReady \<and> server_ok srv' \<or> (\<exists>e. r = Raise e))
     \<and> process_request (Request_Batch []) (\<lambda>_. never) idle_server = (Ret (), srv'') \<and> server_ok srv''"
  using server_never_panics[OF idle_server_ok] .

definition ping_handler :: handler where
  "ping_handler = Handler_Notification (\<lambda>_. Resolved (Inr ()))"

definition two_adds :: "handler_msg receiver" where
  "two_adds = Inr (Ready (Some (AddHandler ''ping'' ping_handler 1)))
     ## Inr (Ready (Some (AddHandler ''ping'' ping_handler 2))) ## sconst (Inr NotReady)"

theorem drain_refines_registry_witness:
  "\<exists>srv' n. drain_handler_chan (server_new two_adds) = Some (Ret (), srv')
     \<and> registry srv' = fold registry_step (items_of (stake n two_adds)) (registry (server_new two_adds))
     \<and> snth two_adds n \<in> {Inr NotReady, Inr (Ready None)}"
proof -
  have chan: "handler_chan (server_new two_adds) = Some two_adds"
    by (simp add: server_new_def)
  have "channel_ok (handler_chan (server_new two_adds))"
    by (simp add: server_new_def channel_ok_def two_adds_def is_item_def)
  then obtain srv' where d: "drain_handler_chan (server_new two_adds) = Some (Ret (), srv')"
    using drain_ok by blast
  from drain_refines_registry[OF chan d] d show ?thesis by blast
qed

section \<open>What a poll does\<close>

text \<open>A poll of the server that does not fail drives every pending future exactly one step, in
  the order in which the requests were accepted: a future that finished is dropped and what it sent
  is appended to the responses, in key order; one that is not ready stays under its key; nothing else
  is sent, and the server itself is never finished.\<close>

lemma server_poll_drives:
  assumes "server_ok srv" and "server_poll srv = Some (Ret a, srv')"
  shows "a = NotReady \<and> pending_futures srv' = still_pending (pending_futures srv)
     \<and> responses srv' = responses srv @ emitted (pending_futures srv)"
proof -
  obtain o1 m ms where pf: "poll_futures (pending_futures srv) = (o1, m, ms)"
    by (cases "poll_futures (pending_futures srv)")
  moreover have "o1 \<noteq> Panic"
    using pf poll_futures_no_panic[of "pending_futures srv"] assms(1) by (simp add: server_ok_def)
  ultimately show ?thesis
    using assms(2) server_poll_unfold[OF assms(1)] by (cases o1) auto
qed

text \<open>A poll of the server fails exactly when some pending future fails, and then with the error
  of the first such future in key order: the earlier ones have been driven, their messages are
  sent; the later ones have not been polled.\<close>

lemma server_poll_fails:
  assumes "server_ok srv"
  shows "(\<exists>srv'. server_poll srv = Some (Raise e, srv') \<and> responses srv' = responses srv @ ms) \<longleftrightarrow>
     (\<exists>m1 key d m2. pending_futures srv = m1 @ (key, d) # m2 \<and> fst (drive d) = Raise e
        \<and> ms = emitted m1 \<and> (\<forall>c \<in> snd ` set m1. \<exists>a. fst (drive c) = Ret a))"
proof -
  obtain o1 m ms1 where pf: "poll_futures (pending_futures srv) = (o1, m, ms1)"
    by (cases "poll_futures (pending_futures srv)")
  have "(\<exists>srv'. server_poll srv = Some (Raise e, srv') \<and> responses srv' = responses srv @ ms) \<longleftrightarrow>
     o1 = Raise e \<and> ms = ms1"
    using pf poll_futures_no_panic[of "pending_futures srv"] assms server_poll_unfold[OF assms]
    by (cases o1) (auto simp: server_ok_def)
  with pf show ?thesis by (simp add: poll_futures_Raise_iff)
qed

definition failing_server :: server where
  "failing_server = idle_server\<lparr>pending_futures := [(1, Drv_sending (Msg_Response (Response_Batch [])) (Resolved (Inr ()))),
     (2, Drv_err InvalidVersion)]\<rparr>"

definition waiting_server :: server where
  "waiting_server = idle_server\<lparr>pending_futures := [(1, Drv_sending (Msg_Response (Response_Batch [])) (Resolved (Inr ()))),
     (2, Drv_sending (Msg_Response (Response_Batch [])) (Pending (Resolved (Inr ()))))]\<rparr>"

lemma example_servers_ok [simp]: "server_ok failing_server" "server_ok waiting_server"
  using idle_server_ok
  by (simp_all add: failing_server_def waiting_server_def server_ok_def btree_ok_def)

lemma server_poll_fails_example:
  "\<exists>srv'. server_poll failing_server = Some (Raise InvalidVersion, srv')
     \<and> responses srv' = responses failing_server @ [Msg_Response (Response_Batch [])]"
proof -
  let ?d = "Drv_sending (Msg_Response (Response_Batch [])) (Resolved (Inr ()))"
  have "pending_futures failing_server = [(1, ?d)] @ (2, Drv_err InvalidVersion) # []"
    "fst (drive (Drv_err InvalidVersion)) = Raise InvalidVersion"
    "[Msg_Response (Response_Batch [])] = emitted [(1, ?d)]"
    "\<forall>c \<in> snd ` set [(1 :: u64, ?d)]. \<exists>a. fst (drive c) = Ret a"
    by (simp_all add: failing_server_def drive_send_def)
  with server_poll_fails[OF example_servers_ok(1), of InvalidVersion "[Msg_Response (Response_Batch [])]"]
  show ?thesis by blast
qed

lemma server_poll_drives_example:
  "\<exists>srv'. server_poll waiting_server = Some (Ret NotReady, srv')
     \<and> pending_futures srv' = still_pending (pending_futures waiting_server)
     \<and> responses srv' = responses waiting_server @ [Msg_Response (Response_Batch [])]"
proof -
  have "\<forall>d \<in> snd ` set (pending_futures waiting_server). \<exists>a. fst (drive d) = Ret a"
    by (simp add: waiting_server_def drive_send_def)
  then obtain srv' where p: "server_poll waiting_server = Some (Ret NotReady, srv')"
    using server_poll_ok[OF example_servers_ok(2)] by blast
  with server_poll_drives[OF example_servers_ok(2) p] show ?thesis
    by (simp add: waiting_server_def drive_send_def)
qed

section \<open>Every request is answered\<close>

text \<open>\<open>settles n d ms\<close>: polled at most \<open>n\<close> times, the future finishes, having sent \<open>ms\<close>.\<close>

fun settles :: "nat \<Rightarrow> drivable \<Rightarrow> outgoing_message list \<Rightarrow> bool" where
  "settles 0 d ms = False"
| "settles (Suc n) d ms =
     (case drive d of
        (Ret (Ready _), _, ms') \<Rightarrow> ms = ms'
      | (Ret NotReady, d', _) \<Rightarrow> settles n d' ms
      | _ \<Rightarrow> False)"

text \<open>\<open>n\<close> polls of the server, none of which fails.\<close>

fun server_polls :: "nat \<Rightarrow> server \<Rightarrow> server option" where
  "server_polls 0 srv = Some srv"
| "server_polls (Suc n) srv =
     (case server_poll srv of
        Some (Ret _, srv') \<Rightarrow> server_polls n srv'
      | _ \<Rightarrow> None)"

lemma settles_mono: "settles n d ms \<Longrightarrow> n \<le> n' \<Longrightarrow> settles n' d ms"
proof (induction n arbitrary: d n')
  case (Suc n)
  then obtain n'' where "n' = Suc n''" "n \<le> n''" by (cases n') auto
  with Suc show ?case by (cases d rule: drive_cases) auto
qed simp

lemma settles_send:
  "resolves_within k f (Inr ()) \<Longrightarrow> settles (Suc k) (Drv_sending m f) [m]"
proof (induction k arbitrary: f)
  case 0
  then show ?case by (cases f) (auto simp: drive_send_def)
next
  case (Suc k)
  then show ?case by (cases f) (auto simp: drive_send_def)
qed

lemma settles_drive_send:
  assumes "drive d = drive_send m f" "resolves_within k f (Inr ())"
  shows "settles (Suc k) d [m]"
  using settles_send[OF assms(2), of m] assms(1)
  by (cases rule: drive_send_cases[of m f]) auto

text \<open>A single call: the answer of the handler is sent once, and a call without answer sends nothing.\<close>

lemma settles_single:
  assumes "resolves_within n f (Inr (Some out))"
    and "resolves_within k (sink (Msg_Response (Response_Single out))) (Inr ())"
  shows "settles (Suc (n + k)) (Drv_single f sink) [Msg_Response (Response_Single out)]"
  using assms(1)
proof (induction n arbitrary: f)
  case 0
  then show ?case
    using settles_drive_send[OF _ assms(2), of "Drv_single f sink"] by (cases f) auto
next
  case (Suc n)
  show ?case
  proof (cases f)
    case (Pending g)
    with Suc show ?thesis by auto
  next
    case (Resolved r)
    with Suc.prems have "settles (Suc k) (Drv_single f sink) [Msg_Response (Response_Single out)]"
      by (intro settles_drive_send[OF _ assms(2)]) simp
    then show ?thesis by (rule settles_mono) simp
  qed
qed

lemma settles_single_silent:
  "resolves_within n f (Inr None) \<Longrightarrow> settles (Suc n) (Drv_single f sink) []"
proof (induction n arbitrary: f)
  case 0
  then show ?case by (cases f) auto
next
  case (Suc n)
  then show ?case by (cases f) auto
qed

text \<open>The answers of a batch: the outputs of its calls, in some order, those of notifications left out.\<close>

definition answers :: "rpc_output option list \<Rightarrow> rpc_output list" where
  "answers os = map the (filter (\<lambda>out. out \<noteq> None) os)"

lemma answers_simps [simp]:
  "answers [] = []" "answers (None # os) = answers os" "answers (Some out # os) = out # answers os"
  by (simp_all add: answers_def)

lemma poll_calls_step:
  assumes "list_all2 (\<lambda>f out. resolves_within n f (Inr out)) fs os"
  shows "\<exists>fs' outs os'. poll_calls fs = Inr (fs', outs)
     \<and> (n = 0 \<longrightarrow> fs' = [])
     \<and> list_all2 (\<lambda>f out. resolves_within (n - 1) f (Inr out)) fs' os'
     \<and> mset (answers os) = mset outs + mset (answers os')"
  using assms
proof (induction fs os rule: list_all2_induct)
  case Nil
  show ?case by (rule exI[of _ "[]"])+ auto
next
  case (Cons f fs out os)
  then obtain fs' outs os' where IH: "poll_calls fs = Inr (fs', outs)" "n = 0 \<longrightarrow> fs' = []"
    "list_all2 (\<lambda>f out. resolves_within (n - 1) f (Inr out)) fs' os'"
    "mset (answers os) = mset outs + mset (answers os')"
    by blast
  show ?case
  proof (cases f)
    case (Pending g)
    with Cons.hyps(1) obtain m where "n = Suc m" "resolves_within m g (Inr out)" by auto
    with Pending IH show ?thesis
      by (intro exI[of _ "g # fs'"] exI[of _ outs] exI[of _ "out # os'"]) (cases out; auto)
  next
    case (Resolved r)
    with Cons.hyps(1) have "r = Inr out" by simp
    with Resolved IH show ?thesis
      by (intro exI[of _ fs'] exI[of _ "(case out of None \<Rightarrow> outs | Some x \<Rightarrow> x # outs)"] exI[of _ os'])
        (cases out; auto)
  qed
qed

lemma settles_batch:
  assumes "list_all2 (\<lambda>f out. resolves_within n f (Inr out)) fs os"
    and "\<And>outs. resolves_within k (sink (Msg_Response (Response_Batch outs))) (Inr ())"
  shows "\<exists>outs'. mset outs' = mset outs + mset (answers os)
     \<and> settles (Suc (n + k)) (Drv_batch fs outs sink)
          (if outs' = [] then [] else [Msg_Response (Response_Batch outs')])"
  using assms(1)
proof (induction n arbitrary: fs os outs)
  case (0 fs os outs)
  from poll_calls_step[OF 0] obtain outs1 where p: "poll_calls fs = Inr ([], outs1)"
    "mset (answers os) = mset outs1"
    by auto
  have "settles (Suc k) (Drv_batch fs outs sink)
      (if outs @ outs1 = [] then [] else [Msg_Response (Response_Batch (outs @ outs1))])"
  proof (cases "outs @ outs1 = []")
    case True
    with p show ?thesis by simp
  next
    case False
    with p have "settles (Suc k) (Drv_batch fs outs sink) [Msg_Response (Response_Batch (outs @ outs1))]"
      by (intro settles_drive_send[OF _ assms(2)]) simp
    then show ?thesis by (simp only: False if_False)
  qed
  with p(2) show ?case by (intro exI[of _ "outs @ outs1"]) simp
next
  case (Suc n fs os outs)
  from poll_calls_step[OF Suc.prems] obtain fs' outs1 os' where p: "poll_calls fs = Inr (fs', outs1)"
    "list_all2 (\<lambda>f out. resolves_within n f (Inr out)) fs' os'"
    "mset (answers os) = mset outs1 + mset (answers os')"
    by auto
  show ?case
  proof (cases "fs' = []")
    case True
    with p(2,3) have ms: "mset (answers os) = mset outs1" by simp
    have "settles (Suc (Suc n + k)) (Drv_batch fs outs sink)
      (if outs @ outs1 = [] then [] else [Msg_Response (Response_Batch (outs @ outs1))])"
    proof (cases "outs @ outs1 = []")
      case True
      with p \<open>fs' = []\<close> show ?thesis by simp
    next
      case False
      with p \<open>fs' = []\<close>
      have "settles (Suc k) (Drv_batch fs outs sink) [Msg_Response (Response_Batch (outs @ outs1))]"
        by (intro settles_drive_send[OF _ assms(2)]) simp
      then have "settles (Suc (Suc n + k)) (Drv_batch fs outs sink)
          [Msg_Response (Response_Batch (outs @ outs1))]"
        by (rule settles_mono) simp
      then show ?thesis by (simp only: False if_False)
    qed
    with ms show ?thesis by (intro exI[of _ "outs @ outs1"]) simp
  next
    case False
    from Suc.IH[OF p(2), of "outs @ outs1"] obtain outs' where
      "mset outs' = mset (outs @ outs1) + mset (answers os')"
      "settles (Suc (n + k)) (Drv_batch fs' (outs @ outs1) sink)
         (if outs' = [] then [] else [Msg_Response (Response_Batch outs')])"
      by blast
    with False p show ?thesis by (intro exI[of _ outs']) auto
  qed
qed

text \<open>Polling the server often enough settles everything it is waiting for.\<close>

definition settle_all :: "nat \<Rightarrow> (u64, drivable) btree_map \<Rightarrow> outgoing_message list list \<Rightarrow> bool" where
  "settle_all n m mss \<longleftrightarrow> list_all2 (\<lambda>(_, d) ms. settles n d ms) m mss"

lemma settle_all_poll:
  assumes "settle_all (Suc n) m mss"
  shows "(\<forall>d \<in> snd ` set m. \<exists>a. fst (drive d) = Ret a)
    \<and> (\<exists>mss'. settle_all n (still_pending m) mss'
        \<and> mset (concat mss) = mset (emitted m) + mset (concat mss'))"
  using assms unfolding settle_all_def
proof (induction m mss rule: list_all2_induct)
  case Nil
  show ?case by simp
next
  case (Cons p m ms mss)
  obtain key d where p: "p = (key, d)" by (cases p)
  from Cons.IH obtain mss' where mss': "list_all2 (\<lambda>(_, d) ms. settles n d ms) (still_pending m) mss'"
    "mset (concat mss) = mset (emitted m) + mset (concat mss')"
    by blast
  from Cons p show ?case
    by (cases d rule: drive_cases)
      (use mss' in \<open>auto intro: exI[of _ "ms # mss'"] exI[of _ mss']\<close>)
qed

text \<open>Every request is answered: when each future the server is waiting for finishes within
  \<open>n\<close> polls, then after \<open>n\<close> polls of the server nothing is pending any more, no poll has failed,
  and the responses sent meanwhile are exactly those of these futures, each one once.\<close>

lemma server_polls_settle:
  assumes "server_ok srv" and "settle_all n (pending_futures srv) mss"
  shows "\<exists>srv' new. server_polls n srv = Some srv' \<and> pending_futures srv' = []
     \<and> responses srv' = responses srv @ new \<and> mset new = mset (concat mss) \<and> server_ok srv'"
  using assms
proof (induction n arbitrary: srv mss)
  case 0
  then show ?case by (cases "pending_futures srv"; cases mss) (auto simp: settle_all_def)
next
  case (Suc n)
  from settle_all_poll[OF Suc.prems(2)] obtain mss' where
    drives: "\<forall>d \<in> snd ` set (pending_futures srv). \<exists>a. fst (drive d) = Ret a" and
    mss': "settle_all n (still_pending (pending_futures srv)) mss'"
      "mset (concat mss) = mset (emitted (pending_futures srv)) + mset (concat mss')"
    by blast
  from server_poll_ok[OF Suc.prems(1) drives] obtain srv1 where
    s1: "server_poll srv = Some (Ret NotReady, srv1)" "server_ok srv1"
      "pending_futures srv1 = still_pending (pending_futures srv)"
      "responses srv1 = responses srv @ emitted (pending_futures srv)"
    by blast
  from Suc.IH[OF s1(2), of mss'] s1(3) mss'(1) obtain srv' new where
    "server_polls n srv1 = Some srv'" "pending_futures srv' = []"
    "responses srv' = responses srv1 @ new" "mset new = mset (concat mss')" "server_ok srv'"
    by auto
  with s1 mss'(2) show ?case by auto
qed

lemma server_polls_settle_example:
  "\<exists>srv' new. server_polls 2 waiting_server = Some srv' \<and> pending_futures srv' = []
     \<and> responses srv' = responses waiting_server @ new
     \<and> mset new = mset (concat [[Msg_Response (Response_Batch [])], [Msg_Response (Response_Batch [])]])
     \<and> server_ok srv'"
  by (rule server_polls_settle[OF example_servers_ok(2)])
    (simp add: settle_all_def waiting_server_def drive_send_def numeral_2_eq_2)

section \<open>From a request to its response\<close>

text \<open>The keys in use were handed out by the server's generator, so the next one is free.\<close>

definition keys_ok :: "server \<Rightarrow> bool" where
  "keys_ok srv \<longleftrightarrow> fst ` set (pending_futures srv) \<subseteq> ids_issued (future_ids srv)"

lemma settle_all_insert:
  assumes "settle_all n m mss" "settles n d ms" "key \<notin> fst ` set m"
  shows "\<exists>mss'. settle_all n (btree_insert key d m) mss' \<and> mset (concat mss') = mset ms + mset (concat mss)"
  using assms(1,3) unfolding settle_all_def
proof (induction m mss rule: list_all2_induct)
  case Nil
  then show ?case using assms(2) by (intro exI[of _ "[ms]"]) simp
next
  case (Cons p m ms1 mss)
  obtain k c where p: "p = (k, c)" by (cases p)
  with Cons obtain mss' where IH: "list_all2 (\<lambda>(_, d) ms. settles n d ms) (btree_insert key d m) mss'"
    "mset (concat mss') = mset ms + mset (concat mss)"
    by auto
  show ?case
  proof (cases "key < k")
    case True
    with Cons p assms(2) show ?thesis by (intro exI[of _ "ms # ms1 # mss"]) simp
  next
    case False
    with Cons p IH show ?thesis by (intro exI[of _ "ms1 # mss'"]) auto
  qed
qed

lemma push_future_settles:
  assumes "server_ok srv" "keys_ok srv" "settle_all n (pending_futures srv) mss"
    "settles n d ms" "d \<noteq> Drv_done"
  shows "\<exists>mss'. settle_all n (pending_futures (push_future d srv)) mss'
    \<and> mset (concat mss') = mset ms + mset (concat mss)"
proof -
  have "next_id (future_ids srv) \<notin> fst ` set (pending_futures srv)"
    using assms(2) next_id_not_issued unfolding keys_ok_def by blast
  from settle_all_insert[OF assms(3,4) this] show ?thesis
    by (simp add: push_future_def id_next_int_def)
qed

lemma push_future_keys:
  assumes "keys_ok srv" "0 < ids_remaining (future_ids srv)"
  shows "keys_ok (push_future d srv)"
  using assms future_ids.draw_issued[OF assms(2)]
  by (auto simp: keys_ok_def push_future_def id_next_int_def)

text \<open>
  The outputs a request is going to have, as the futures of its calls resolve within \<open>n\<close> polls:
  \<open>None\<close> for a call that is not answered.
\<close>

definition calls_resolve :: "nat \<Rightarrow> handlers \<Rightarrow> call list \<Rightarrow> rpc_output option list \<Rightarrow> bool" where
  "calls_resolve n hs calls os \<longleftrightarrow>
     list_all2 (\<lambda>c out. resolves_within n (handle_single_call hs c) (Inr out)) calls os"

definition sink_delivers :: "nat \<Rightarrow> response_sender \<Rightarrow> bool" where
  "sink_delivers k sink \<longleftrightarrow> (\<forall>m. resolves_within k (sink m) (Inr ()))"

text \<open>What JSON-RPC 2.0 asks to be sent back for a request with these outputs.\<close>

definition response_for :: "request \<Rightarrow> rpc_output option list \<Rightarrow> outgoing_message list \<Rightarrow> bool" where
  "response_for req os ms \<longleftrightarrow>
     (case req of
        Request_Single _ \<Rightarrow> ms = map (\<lambda>out. Msg_Response (Response_Single out)) (answers os)
      | Request_Batch _ \<Rightarrow>
          if answers os = [] then ms = []
          else \<exists>outs. ms = [Msg_Response (Response_Batch outs)] \<and> mset outs = mset (answers os))"

definition request_calls :: "request \<Rightarrow> call list" where
  "request_calls req = (case req of Request_Single c \<Rightarrow> [c] | Request_Batch calls \<Rightarrow> calls)"

lemma driveable_future_settles:
  assumes "calls_resolve n hs (request_calls req) os" "sink_delivers k sink"
  shows "\<exists>ms. settles (Suc (n + k)) (driveable_future hs req sink) ms \<and> response_for req os ms"
proof (cases req)
  case (Request_Single c)
  with assms(1) obtain out where os: "os = [out]" "resolves_within n (handle_single_call hs c) (Inr out)"
    by (auto simp: calls_resolve_def request_calls_def list_all2_Cons1)
  show ?thesis
  proof (cases out)
    case None
    with os settles_single_silent[of n "handle_single_call hs c" sink] Request_Single show ?thesis
      by (intro exI[of _ "[]"])
        (auto simp: driveable_future_def response_for_def simp del: settles.simps elim!: settles_mono)
  next
    case (Some x)
    with os assms(2) Request_Single show ?thesis
      by (intro exI[of _ "[Msg_Response (Response_Single x)]"])
        (auto simp: driveable_future_def response_for_def sink_delivers_def simp del: settles.simps
          intro!: settles_single)
  qed
next
  case (Request_Batch calls)
  with assms have "list_all2 (\<lambda>f out. resolves_within n f (Inr out)) (map (handle_single_call hs) calls) os"
    by (simp add: calls_resolve_def request_calls_def list_all2_map1)
  from settles_batch[OF this, of k sink "[]"] assms(2) obtain outs where
    outs: "mset outs = mset (answers os)"
    "settles (Suc (n + k)) (Drv_batch (map (handle_single_call hs) calls) [] sink)
       (if outs = [] then [] else [Msg_Response (Response_Batch outs)])"
    by (auto simp: sink_delivers_def)
  from outs(1) have "outs = [] \<longleftrightarrow> answers os = []" by (metis mset_zero_iff)
  with outs Request_Batch show ?thesis
    by (intro exI[of _ "if outs = [] then [] else [Msg_Response (Response_Batch outs)]"])
      (auto simp: driveable_future_def response_for_def simp del: settles.simps)
qed

text \<open>The whole way of a request through the server: when the handlers of its calls finish
  within \<open>n\<close> polls with the outputs \<open>os\<close> and the channel to the client takes a message within \<open>k\<close>
  polls, then \<open>process_request\<close> accepts it and \<open>n + k\<close> polls later its response has been sent,
  exactly once, beside those of the requests that were already being handled. A single call is
  answered by its output; a batch by one message with the outputs of its calls, in some order; and
  where no call has an output (notifications only) nothing is sent at all.\<close>

lemma request_is_answered:
  assumes "server_ok srv" and "keys_ok srv" and "settle_all (n + k) (pending_futures srv) mss"
    and "calls_resolve n (handler_map srv) (request_calls req) os" and "sink_delivers k sink"
  shows "\<exists>srv1 srv2 ms new. process_request req sink srv = (Ret (), srv1)
     \<and> server_polls (n + k) srv1 = Some srv2 \<and> pending_futures srv2 = []
     \<and> response_for req os ms
     \<and> responses srv2 = responses srv @ new \<and> mset new = mset ms + mset (concat mss)"
proof -
  let ?d = "driveable_future (handler_map srv) req sink"
  from driveable_future_settles[OF assms(4,5)] obtain ms where
    ms: "settles (Suc (n + k)) ?d ms" "response_for req os ms" by blast
  show ?thesis
  proof (cases ?d rule: drive_cases)
    case (pending d')
    then have pr: "process_request req sink srv = (Ret (), push_future d' srv)"
      by (simp add: process_request_def)
    from ms(1) pending have "settles (n + k) d' ms" by simp
    from push_future_settles[OF assms(1-3) this pending(2)] obtain mss' where
      mss': "settle_all (n + k) (pending_futures (push_future d' srv)) mss'"
      "mset (concat mss') = mset ms + mset (concat mss)"
      by blast
    from server_polls_settle[OF push_future_ok[OF assms(1) pending(2)] mss'(1)] pr mss'(2) ms(2)
    show ?thesis by (force simp: push_future_def split: prod.splits)
  next
    case (ready ms')
    with ms(1) have [simp]: "ms' = ms" by simp
    let ?srv1 = "srv\<lparr>responses := responses srv @ ms\<rparr>"
    from ready have pr: "process_request req sink srv = (Ret (), ?srv1)"
      by (simp add: process_request_def)
    from assms(1) have "server_ok ?srv1" by (simp add: server_ok_def)
    from server_polls_settle[OF this, of "n + k" mss] assms(3) obtain srv2 new where
      "server_polls (n + k) ?srv1 = Some srv2" "pending_futures srv2 = []"
      "responses srv2 = responses srv @ ms @ new" "mset new = mset (concat mss)"
      by auto
    with pr ms(2) show ?thesis
      by (intro exI[of _ ?srv1] exI[of _ srv2] exI[of _ ms] exI[of _ "ms @ new"]) simp
  qed (use ms(1) in auto)
qed

text \<open>An example: the handler of \<open>echo\<close> takes one poll, the channel to the client takes another.\<close>

definition echo_handler :: handler where
  "echo_handler = Handler_Method (\<lambda>mc. Pending (Resolved (Inr (Output_Success (Some V2) JNull (mc_id mc)))))"

definition echo_call :: call where
  "echo_call = Call_MethodCall \<lparr>mc_jsonrpc = Some V2, mc_method = ''echo'', mc_params = None, mc_id = Id_Num 7\<rparr>"

definition echo_server :: server where
  "echo_server = idle_server\<lparr>handler_map := [''echo'' \<mapsto> echo_handler]\<rparr>"

definition slow_sink :: response_sender where
  "slow_sink = (\<lambda>_. Pending (Resolved (Inr ())))"

lemma echo_example [simp]:
  "server_ok echo_server" "keys_ok echo_server" "settle_all n (pending_futures echo_server) []"
  "sink_delivers 1 slow_sink"
  "calls_resolve 1 (handler_map echo_server) [echo_call, Call_Notification \<lparr>n_jsonrpc = None, n_method = ''x'', n_params = None\<rparr>]
     [Some (Output_Success (Some V2) JNull (Id_Num 7)), None]"
  using idle_server_ok
  by (simp_all add: echo_server_def server_ok_def keys_ok_def settle_all_def idle_server_def server_new_def
      sink_delivers_def slow_sink_def calls_resolve_def echo_call_def handle_single_call_def
      handle_method_call_def handle_notification_call_def echo_handler_def)

lemma request_is_answered_example:
  "\<exists>srv1 srv2 ms new.
     process_request (Request_Batch [echo_call, Call_Notification \<lparr>n_jsonrpc = None, n_method = ''x'', n_params = None\<rparr>])
       slow_sink echo_server = (Ret (), srv1)
     \<and> server_polls (1 + 1) srv1 = Some srv2 \<and> pending_futures srv2 = []
     \<and> ms = [Msg_Response (Response_Batch [Output_Success (Some V2) JNull (Id_Num 7)])]
     \<and> responses srv2 = responses echo_server @ new \<and> mset new = mset ms + mset (concat [])"
proof -
  let ?req = "Request_Batch [echo_call, Call_Notification \<lparr>n_jsonrpc = None, n_method = ''x'', n_params = None\<rparr>]"
  have "calls_resolve 1 (handler_map echo_server) (request_calls ?req)
     [Some (Output_Success (Some V2) JNull (Id_Num 7)), None]"
    unfolding request_calls_def request.case by (rule echo_example(5))
  from request_is_answered[OF echo_example(1,2) echo_example(3) this echo_example(4)]
  obtain srv1 srv2 ms new where r: "process_request ?req slow_sink echo_server = (Ret (), srv1)"
    "server_polls (1 + 1) srv1 = Some srv2" "pending_futures srv2 = []"
    "response_for ?req [Some (Output_Success (Some V2) JNull (Id_Num 7)), None] ms"
    "responses srv2 = responses echo_server @ new" "mset new = mset ms + mset (concat [])"
    by blast
  from r(4) have "ms = [Msg_Response (Response_Batch [Output_Success (Some V2) JNull (Id_Num 7)])]"
    by (auto simp: response_for_def)
  with r show ?thesis by blast
qed

section \<open>Calls that nobody handles\<close>

text \<open>C34: A request that no handler is registered for is answered on the spot and leaves nothing
  behind: over an open channel, a method call without a method handler (no handler at all, or one
  for notifications) is refused with \<open>method not found\<close> under the id of the call, an invalid call
  with \<open>invalid request\<close> under its id, and a notification without a notification handler is
  ignored.\<close>

theorem unhandled_calls:
  assumes "sink_delivers 0 sink"
    and "\<And>h. hs (mc_method mc) \<noteq> Some (Handler_Method h)"
    and "\<And>h. hs (n_method n) \<noteq> Some (Handler_Notification h)"
    and "handler_map srv = hs"
  shows "process_request (Request_Single (Call_MethodCall mc)) sink srv =
           (Ret (), srv\<lparr>responses := responses srv @
              [Msg_Response (Response_Single (Output_Failure (Some V2) Method_Not_Found (mc_id mc)))]\<rparr>)
       \<and> process_request (Request_Single (Call_Invalid i)) sink srv =
           (Ret (), srv\<lparr>responses := responses srv @
              [Msg_Response (Response_Single (Output_Failure (Some V2) Invalid_Request i))]\<rparr>)
       \<and> process_request (Request_Single (Call_Notification n)) sink srv = (Ret (), srv)"
proof -
  have open': "drive_send m (sink m) = (Ret (Ready ()), Drv_done, [m])" for m
  proof -
    from assms(1) have "resolves_within 0 (sink m) (Inr ())" by (simp add: sink_delivers_def)
    then show ?thesis by (cases "sink m") (auto simp: drive_send_def)
  qed
  have mc: "handle_method_call hs mc = Resolved (Inr (Some (failure (mc_id mc) Method_Not_Found)))"
    using assms(2) by (auto simp: handle_method_call_def split: option.splits handler.splits)
  have n: "handle_notification_call hs n = Resolved (Inr None)"
    using assms(3) by (auto simp: handle_notification_call_def split: option.splits handler.splits)
  show ?thesis
    by (simp add: process_request_def driveable_future_def handle_single_call_def assms(4) mc n open' failure_def)
qed

theorem unhandled_calls_witness:
  "process_request (Request_Single (Call_Invalid Id_Null)) (\<lambda>_. Resolved (Inr ())) echo_server =
     (Ret (), echo_server\<lparr>responses := [Msg_Response (Response_Single (Output_Failure (Some V2) Invalid_Request Id_Null))]\<rparr>)
   \<and> process_request (Request_Single (Call_Notification
        \<lparr>n_jsonrpc = None, n_method = ''echo'', n_params = None\<rparr>)) (\<lambda>_. Resolved (Inr ())) echo_server = (Ret (), echo_server)"
proof -
  have a: "sink_delivers 0 (\<lambda>_. Resolved (Inr ()))" by (simp add: sink_delivers_def)
  have b: "\<And>h. [''echo'' \<mapsto> echo_handler]
      (mc_method \<lparr>mc_jsonrpc = None, mc_method = ''other'', mc_params = None, mc_id = Id_Null\<rparr>) \<noteq> Some (Handler_Method h)"
    by simp
  have c: "\<And>h. [''echo'' \<mapsto> echo_handler]
      (n_method \<lparr>n_jsonrpc = None, n_method = ''echo'', n_params = None\<rparr>) \<noteq> Some (Handler_Notification h)"
    by (simp add: echo_handler_def)
  have d: "handler_map echo_server = [''echo'' \<mapsto> echo_handler]" by (simp add: echo_server_def)
  have e: "responses echo_server = []" by (simp add: echo_server_def idle_server_def server_new_def)
  from unhandled_calls[OF a b c d, of Id_Null] show ?thesis by (simp add: e)
qed

section \<open>Keys\<close>

text \<open>Accepting a request never displaces one that is still being handled: while the key counter
  has not wrapped around (fewer than \<open>2 ^ 64 - 2\<close> keys drawn), every pending future keeps its key and
  its state, and the invariant that gives this is kept.\<close>

lemma accepting_keeps_pending:
  assumes "keys_ok srv" and "0 < ids_remaining (future_ids srv)"
    and "process_request req sink srv = (r, srv')"
    and "map_of (pending_futures srv) key = Some d"
  shows "map_of (pending_futures srv') key = Some d \<and> keys_ok srv'"
  using assms(3)
proof (cases rule: process_request_cases)
  case (pushed d')
  from assms(4) have "key \<in> fst ` set (pending_futures srv)"
    by (metis domI dom_map_of_conv_image_fst)
  with assms(1) have "key \<noteq> next_id (future_ids srv)"
    using next_id_not_issued unfolding keys_ok_def by blast
  with pushed assms(4) push_future_keys[OF assms(1,2)] show ?thesis
    by (simp add: push_future_def id_next_int_def)
next
  case (answered ms)
  with assms(1,4) show ?thesis by (simp add: keys_ok_def)
qed

definition busy_server :: server where
  "busy_server = echo_server\<lparr>pending_futures := [(1, Drv_err Shutdown)], future_ids := \<lparr>next_id = 2\<rparr>\<rparr>"

lemma accepting_keeps_pending_example:
  "\<exists>r srv'. process_request (Request_Single echo_call) slow_sink busy_server = (r, srv')
     \<and> map_of (pending_futures srv') 1 = Some (Drv_err Shutdown) \<and> keys_ok srv'"
proof -
  obtain r srv' where p: "process_request (Request_Single echo_call) slow_sink busy_server = (r, srv')"
    by fastforce
  have "keys_ok busy_server" "0 < ids_remaining (future_ids busy_server)"
    "map_of (pending_futures busy_server) 1 = Some (Drv_err Shutdown)"
    by (simp_all add: busy_server_def keys_ok_def ids_issued_def ids_remaining_def)
  from accepting_keeps_pending[OF this(1,2) p this(3)] p show ?thesis by blast
qed

section \<open>No response without a request\<close>

text \<open>The futures that can still send a response; each of them sends at most one.\<close>

definition unfinished :: "(u64, drivable) btree_map \<Rightarrow> nat" where
  "unfinished m = length (filter (\<lambda>(_, d). d \<noteq> Drv_done) m)"

definition owed :: "server \<Rightarrow> nat" where
  "owed srv = unfinished (pending_futures srv)"

lemma unfinished_simps [simp]:
  "unfinished [] = 0" "unfinished ((key, d) # m) = (if d = Drv_done then 0 else 1) + unfinished m"
  by (simp_all add: unfinished_def)

lemma drive_send_emits: "length (snd (snd (drive_send m f))) \<le> 1"
  by (cases rule: drive_send_cases[of m f]) simp_all

lemma drive_emits: "length (snd (snd (drive d))) \<le> 1"
  using drive_send_emits
  by (cases d rule: drive.cases) (auto split: sum.splits prod.splits async.splits option.splits)

lemma poll_futures_owed:
  "poll_futures m = (r, m', ms) \<Longrightarrow> length ms + unfinished m' \<le> unfinished m"
proof (induction m arbitrary: r m' ms)
  case (Cons p m)
  obtain key d where p: "p = (key, d)" by (cases p)
  obtain r1 m1 ms1 where rest: "poll_futures m = (r1, m1, ms1)" by (metis prod_cases3)
  from Cons.IH[OF rest] Cons.prems p rest drive_emits[of d] show ?case
    by (cases d rule: drive_cases) (auto split: outcome.splits)
qed simp

lemma unfinished_insert: "unfinished (btree_insert key d m) \<le> Suc (unfinished m)"
  by (induction key d m rule: btree_insert.induct) auto

lemma unfinished_filter: "unfinished (filter P m) \<le> unfinished m"
  unfolding unfinished_def by (induction m) auto

lemma push_future_owed:
  "owed (push_future d srv) \<le> Suc (owed srv)" "responses (push_future d srv) = responses srv"
  using unfinished_insert by (simp_all add: owed_def push_future_def id_next_int_def)

lemma process_request_owed:
  assumes "process_request req sink srv = (r, srv')"
  shows "length (responses srv') + owed srv' \<le> Suc (length (responses srv) + owed srv)"
  using assms
proof (cases rule: process_request_cases)
  case (pushed d)
  with push_future_owed[of d srv] show ?thesis by simp
next
  case (answered ms)
  with drive_emits[of "driveable_future (handler_map srv) req sink"] show ?thesis by (simp add: owed_def)
qed

lemma drain_handler_chan_work:
  assumes "drain_handler_chan srv = Some (r, srv')"
  shows "same_work srv srv'"
proof (cases "handler_chan srv")
  case (Some chan)
  with assms obtain c where "rust_loop drain_turn (chan, srv\<lparr>handler_chan := None\<rparr>) = Some (r, c, srv')"
    by (auto simp: drain_handler_chan_def)
  then have "same_work srv (snd (c, srv'))"
  proof (rule rust_loop_invariant[where I = "\<lambda>t. same_work srv (snd t)"])
    fix t u assume "same_work srv (snd t)" "drain_turn t = (Continue, u)"
    then show "same_work srv (snd u)"
      by (cases t; cases u) (auto simp: same_work_def elim!: drain_turn_cases)
  next
    fix t u q assume "same_work srv (snd t)" "drain_turn t = (Return q, u)"
    then show "same_work srv (snd u)"
      by (cases t; cases u) (auto simp: same_work_def elim!: drain_turn_cases)
  qed (simp add: same_work_def)
  then show ?thesis by simp
qed (use assms in \<open>simp add: drain_handler_chan_def\<close>)

lemma server_poll_owed:
  assumes "server_poll srv = Some (r, srv')"
  shows "length (responses srv') + owed srv' \<le> length (responses srv) + owed srv"
proof -
  from assms obtain q srv1 where d: "drain_handler_chan srv = Some (q, srv1)"
    by (auto simp: server_poll_def try_then_def split: option.splits)
  note work = drain_handler_chan_work[OF d]
  obtain a m ms where p: "poll_futures (pending_futures srv1) = (a, m, ms)" by (metis prod_cases3)
  have "length ms + unfinished (filter P m) \<le> unfinished (pending_futures srv1)" for P
    using poll_futures_owed[OF p] unfinished_filter[of P m] by simp
  with assms d p work poll_futures_owed[OF p] show ?thesis
    by (cases q; cases a)
      (auto simp: server_poll_def owed_def same_work_def remove_finished_filter)
qed

end
