(* ===== verification/Client.thy ===== *)
theory Client
  imports Select_Weak Server
begin

text \<open>
  \<open>core/src/lib.rs\<close>: the client, a future that moves messages between the client handles, the
  transport and the server half. One poll (\<open>client_poll\<close>) first offers a payload the transport had
  refused (\<open>pending_payload\<close>), then drives the server half, drains the transport, takes messages from
  the handles as long as the transport accepts their payloads, and flushes; any failure turns it to
  \<open>handle_shutdown\<close>.

  The Rust type is generic in the transport and in the server half. The model is generic in the
  same way: \<open>transport_ops\<close> and \<open>server_ops\<close> are the operations of the traits \<open>Transport\<close> (its sink and
  its stream) and \<open>ServerHandler\<close>, and a transport or server is a state of any type. The channel
  of the client handles and the one of the server's responses are merged by \<open>SelectWithWeak\<close>.

  Two ghost fields record what happened: \<open>completions\<close> lists the values sent on the one-shot
  channels of calls and notifications, \<open>history\<close> the messages taken from the handles and the
  responses received, in the order in which the client saw them.
\<close>

section \<open>The traits\<close>

text \<open>
  \<open>start_send\<close>, \<open>poll_complete\<close> and \<open>close\<close> of the sink, \<open>poll\<close> of the stream; the transport's own
  errors are strings, since the client only wraps them into \<open>TransportError\<close>.
\<close>

record 't transport_ops =
  tx_start_send :: "string \<Rightarrow> 't \<Rightarrow> (string + string async_sink) \<times> 't"
  tx_poll_complete :: "'t \<Rightarrow> (unit, string) poll \<times> 't"
  tx_close :: "'t \<Rightarrow> (unit, string) poll \<times> 't"
  rx_poll :: "'t \<Rightarrow> (string option, string) poll \<times> 't"

record 's server_ops =
  sh_process_request :: "request \<Rightarrow> response_sender \<Rightarrow> 's \<Rightarrow> (unit, core_error) outcome \<times> 's"
  sh_poll :: "'s \<Rightarrow> ((unit async, core_error) outcome \<times> 's) option"

section \<open>The state\<close>

datatype completion_value = Call_result "core_error + json" | Notification_result "core_error + unit"

datatype session_event = Sent outgoing_message | Got rpc_output

record ('t, 's) client =
  outgoing_payload_rx :: "(outgoing_message receiver, outgoing_message receiver) select_with_weak"
  id_generator :: id_generator
  shutting_down :: bool
  pending_client_requests :: "rpc_id \<rightharpoonup> completion"
  pending_payload :: "string option"
  fatal_error :: "core_error option"
  server_handler :: 's
  server_response_tx :: "response_sender stream"
  transport :: 't
  completions :: "(completion \<times> completion_value) list"
  history :: "session_event list"

type_synonym ('a, 't, 's) client_result = "('a, core_error) outcome \<times> ('t, 's) client"

text \<open>
  \<open>Client::new_with_server\<close>. The channels are given as their receiving halves, \<open>response_tx\<close> as what
  its clones are going to do, one after the other.
\<close>

definition new_with_server ::
  "outgoing_message receiver \<Rightarrow> outgoing_message receiver \<Rightarrow> response_sender stream \<Rightarrow> 't \<Rightarrow> 's
     \<Rightarrow> ('t, 's) client" where
  "new_with_server client_handle_rx server_response_rx response_tx t s =
     \<lparr>outgoing_payload_rx = select_with_weak client_handle_rx server_response_rx,
      id_generator = id_generator_new, shutting_down = False, pending_client_requests = Map.empty,
      pending_payload = None, fatal_error = None, server_handler = s,
      server_response_tx = response_tx, transport = t, completions = [], history = []\<rparr>"

definition should_shut_down :: "('t, 's) client \<Rightarrow> bool" where
  "should_shut_down c \<longleftrightarrow> fatal_error c \<noteq> None \<or> shutting_down c"

definition complete :: "completion \<Rightarrow> completion_value \<Rightarrow> ('t, 's) client \<Rightarrow> ('t, 's) client" where
  "complete tx v c = c\<lparr>completions := completions c @ [(tx, v)]\<rparr>"

definition record_event :: "session_event \<Rightarrow> ('t, 's) client \<Rightarrow> ('t, 's) client" where
  "record_event ev c = c\<lparr>history := history c @ [ev]\<rparr>"

section \<open>Sending\<close>

definition send_payload ::
  "'t transport_ops \<Rightarrow> string \<Rightarrow> ('t, 's) client \<Rightarrow> (unit, 't, 's) client_result" where
  "send_payload T json_string c =
     (if fatal_error c \<noteq> None then (Raise TransportError, c)
      else
        (case tx_start_send T json_string (transport c) of
           (Inr Sink_Ready, t) \<Rightarrow> (Ret (), c\<lparr>transport := t\<rparr>)
         | (Inr (Sink_NotReady payload), t) \<Rightarrow>
             (Ret (), c\<lparr>transport := t, pending_payload := Some payload\<rparr>)
         | (Inl _, t) \<Rightarrow> (Raise TransportError, c\<lparr>transport := t\<rparr>)))"

definition add_new_call :: "rpc_id \<Rightarrow> completion \<Rightarrow> ('t, 's) client \<Rightarrow> ('t, 's) client" where
  "add_new_call i tx c = c\<lparr>pending_client_requests := (pending_client_requests c)(i \<mapsto> tx)\<rparr>"

fun handle_client_payload ::
  "serde \<Rightarrow> 't transport_ops \<Rightarrow> outgoing_message \<Rightarrow> ('t, 's) client \<Rightarrow> (unit, 't, 's) client_result" where
  "handle_client_payload sd T (Msg_RpcCall mname ps tx) c =
     (let (new_id, g) = id_next (id_generator c);
          c = (record_event (Sent (Msg_RpcCall mname ps tx)) c)\<lparr>id_generator := g\<rparr>
      in case serialize_method_request sd new_id mname ps of
           Inr payload \<Rightarrow> send_payload T payload (add_new_call new_id tx c)
         | Inl e \<Rightarrow> (Ret (), complete tx (Call_result (Inl e)) c))"
| "handle_client_payload sd T (Msg_Notification mname ps tx) c =
     (let c = record_event (Sent (Msg_Notification mname ps tx)) c
      in case serialize_notification_request sd mname ps of
           Inr payload \<Rightarrow> send_payload T payload (complete tx (Notification_result (Inr ())) c)
         | Inl e \<Rightarrow> (Ret (), complete tx (Notification_result (Inl e)) c))"
| "handle_client_payload sd T (Msg_Response response) c =
     (let c = record_event (Sent (Msg_Response response)) c
      in case to_string_response sd response of
           Some payload \<Rightarrow> send_payload T payload c
         | None \<Rightarrow> (Raise SerializeError, c))"

text \<open>One turn of the loop \<open>while self.pending_payload.is_none()\<close>.\<close>

definition outgoing_turn ::
  "serde \<Rightarrow> 't transport_ops \<Rightarrow> ('t, 's) client \<Rightarrow> (unit, core_error) outcome flow \<times> ('t, 's) client" where
  "outgoing_turn sd T c =
     (if pending_payload c \<noteq> None then (Return (Ret ()), c)
      else
        (case select_poll receiver_poll receiver_poll (outgoing_payload_rx c) of
           (Inr NotReady, q) \<Rightarrow> (Return (Ret ()), c\<lparr>outgoing_payload_rx := q\<rparr>)
         | (Inr (Ready (Some call)), q) \<Rightarrow>
             (case handle_client_payload sd T call (c\<lparr>outgoing_payload_rx := q\<rparr>) of
                (Ret _, c') \<Rightarrow> (Continue, c')
              | (Raise e, c') \<Rightarrow> (Return (Raise e), c')
              | (Panic, c') \<Rightarrow> (Return Panic, c'))
         | (Inr (Ready None), q) \<Rightarrow> (Return (Raise Shutdown), c\<lparr>outgoing_payload_rx := q\<rparr>)
         | (Inl _, q) \<Rightarrow> (Return Panic, c\<lparr>outgoing_payload_rx := q\<rparr>)))"

definition poll_outgoing_messages ::
  "serde \<Rightarrow> 't transport_ops \<Rightarrow> ('t, 's) client \<Rightarrow> (unit, 't, 's) client_result option" where
  "poll_outgoing_messages sd T c = rust_loop (outgoing_turn sd T) c"

section \<open>Receiving\<close>

fun output_result :: "rpc_output \<Rightarrow> core_error + json" where
  "output_result (Output_Success _ r _) = Inr r"
| "output_result (Output_Failure _ e _) = Inl (JsonRpcError e)"

definition handle_response :: "rpc_output \<Rightarrow> ('t, 's) client \<Rightarrow> (unit, 't, 's) client_result" where
  "handle_response out c =
     (let c = record_event (Got out) c in
      if jsonrpc out \<noteq> Some V2 then (Raise InvalidVersion, c)
      else
        (case pending_client_requests c (output_id out) of
           Some tx \<Rightarrow>
             (Ret (), complete tx (Call_result (output_result out))
                (c\<lparr>pending_client_requests := (pending_client_requests c)(output_id out := None)\<rparr>))
         | None \<Rightarrow> (Ret (), c)))"

definition handle_transport_rx_payload ::
  "serde \<Rightarrow> 's server_ops \<Rightarrow> string \<Rightarrow> ('t, 's) client \<Rightarrow> (unit, 't, 's) client_result" where
  "handle_transport_rx_payload sd S payload c =
     (case parse_incoming sd payload of
        None \<Rightarrow> (Raise DeserializeError, c)
      | Some (Incoming_Request req) \<Rightarrow>
          (case sh_process_request S req (shd (server_response_tx c)) (server_handler c) of
             (r, s) \<Rightarrow> (r, c\<lparr>server_handler := s, server_response_tx := stl (server_response_tx c)\<rparr>))
      | Some (Incoming_Response out) \<Rightarrow> handle_response out c)"

text \<open>One turn of the loop of \<open>poll_transport_rx\<close>.\<close>

definition transport_rx_turn ::
  "serde \<Rightarrow> 't transport_ops \<Rightarrow> 's server_ops \<Rightarrow> ('t, 's) client
     \<Rightarrow> (unit, core_error) outcome flow \<times> ('t, 's) client" where
  "transport_rx_turn sd T S c =
     (case rx_poll T (transport c) of
        (Inr (Ready (Some new_payload)), t) \<Rightarrow>
          (case handle_transport_rx_payload sd S new_payload (c\<lparr>transport := t\<rparr>) of
             (Ret _, c') \<Rightarrow> (Continue, c')
           | (Raise e, c') \<Rightarrow> (Return (Raise e), c')
           | (Panic, c') \<Rightarrow> (Return Panic, c'))
      | (Inr (Ready None), t) \<Rightarrow> (Return (Raise Shutdown), c\<lparr>transport := t\<rparr>)
      | (Inr NotReady, t) \<Rightarrow> (Return (Ret ()), c\<lparr>transport := t\<rparr>)
      | (Inl _, t) \<Rightarrow> (Return (Raise TransportError), c\<lparr>transport := t\<rparr>))"

definition poll_transport_rx ::
  "serde \<Rightarrow> 't transport_ops \<Rightarrow> 's server_ops \<Rightarrow> ('t, 's) client \<Rightarrow> (unit, 't, 's) client_result option" where
  "poll_transport_rx sd T S c = rust_loop (transport_rx_turn sd T S) c"

section \<open>Polling the client\<close>

definition resend_pending :: "'t transport_ops \<Rightarrow> ('t, 's) client \<Rightarrow> (unit, 't, 's) client_result" where
  "resend_pending T c =
     (case pending_payload c of
        Some payload \<Rightarrow> send_payload T payload (c\<lparr>pending_payload := None\<rparr>)
      | None \<Rightarrow> (Ret (), c))"

definition poll_server :: "'s server_ops \<Rightarrow> ('t, 's) client \<Rightarrow> (unit, 't, 's) client_result option" where
  "poll_server S c =
     (if shutting_down c then Some (Ret (), c)
      else
        (case sh_poll S (server_handler c) of
           None \<Rightarrow> None
         | Some (Ret NotReady, s) \<Rightarrow> Some (Ret (), c\<lparr>server_handler := s, shutting_down := False\<rparr>)
         | Some (Ret (Ready _), s) \<Rightarrow> Some (Ret (), c\<lparr>server_handler := s, shutting_down := True\<rparr>)
         | Some (Raise e, s) \<Rightarrow> Some (Raise e, c\<lparr>server_handler := s\<rparr>)
         | Some (Panic, s) \<Rightarrow> Some (Panic, c\<lparr>server_handler := s\<rparr>)))"

definition poll_transport_tx :: "'t transport_ops \<Rightarrow> ('t, 's) client \<Rightarrow> (unit, 't, 's) client_result" where
  "poll_transport_tx T c =
     (if fatal_error c = None then
        (case tx_poll_complete T (transport c) of
           (Inr _, t) \<Rightarrow> (Ret (), c\<lparr>transport := t\<rparr>)
         | (Inl _, t) \<Rightarrow> (Raise TransportError, c\<lparr>transport := t\<rparr>))
      else (Ret (), c))"

definition handle_messages ::
  "serde \<Rightarrow> 't transport_ops \<Rightarrow> 's server_ops \<Rightarrow> ('t, 's) client \<Rightarrow> (unit, 't, 's) client_result option" where
  "handle_messages sd T S c =
     try_then (Some (resend_pending T c)) (\<lambda>_ c.
     try_then (poll_server S c) (\<lambda>_ c.
     try_then (poll_transport_rx sd T S c) (\<lambda>_ c.
     try_then (poll_outgoing_messages sd T c) (\<lambda>_ c.
     Some (poll_transport_tx T c)))))"

definition handle_shutdown ::
  "serde \<Rightarrow> 't transport_ops \<Rightarrow> 's server_ops \<Rightarrow> ('t, 's) client
     \<Rightarrow> (unit async, 't, 's) client_result option" where
  "handle_shutdown sd T S c =
     (case poll_transport_rx sd T S c of
        None \<Rightarrow> None
      | Some (Panic, c) \<Rightarrow> Some (Panic, c)
      | Some (_, c) \<Rightarrow>
          (case tx_close T (transport c) of
             (Inr NotReady, t) \<Rightarrow> Some (Ret NotReady, c\<lparr>transport := t\<rparr>)
           | (_, t) \<Rightarrow>
               (case fatal_error c of
                  Some e \<Rightarrow> Some (Raise e, c\<lparr>transport := t, fatal_error := None\<rparr>)
                | None \<Rightarrow> Some (Ret (Ready ()), c\<lparr>transport := t\<rparr>))))"

definition client_poll ::
  "serde \<Rightarrow> 't transport_ops \<Rightarrow> 's server_ops \<Rightarrow> ('t, 's) client
     \<Rightarrow> (unit async, 't, 's) client_result option" where
  "client_poll sd T S c =
     (if \<not> should_shut_down c then
        (case handle_messages sd T S c of
           None \<Rightarrow> None
         | Some (Ret _, c) \<Rightarrow> Some (Ret NotReady, c)
         | Some (Raise Shutdown, c) \<Rightarrow> handle_shutdown sd T S (c\<lparr>shutting_down := True\<rparr>)
         | Some (Raise e, c) \<Rightarrow> handle_shutdown sd T S (c\<lparr>fatal_error := Some e\<rparr>)
         | Some (Panic, c) \<Rightarrow> Some (Panic, c))
      else handle_shutdown sd T S c)"

text \<open>
  A run of the client: it is polled again as long as it answers \<open>NotReady\<close>, which is how an executor
  drives a future. The outcome is the answer of the last poll.
\<close>

inductive client_run ::
  "serde \<Rightarrow> 't transport_ops \<Rightarrow> 's server_ops \<Rightarrow> ('t, 's) client
     \<Rightarrow> (unit async, core_error) outcome \<Rightarrow> ('t, 's) client \<Rightarrow> bool"
  for sd T S c0 where
  run_start: "client_run sd T S c0 (Ret NotReady) c0"
| run_poll: "client_run sd T S c0 (Ret NotReady) c \<Longrightarrow> client_poll sd T S c = Some (r, c')
     \<Longrightarrow> client_run sd T S c0 r c'"

inductive_cases client_runE: "client_run sd T S c0 r c"

section \<open>Frames\<close>

text \<open>What receiving does not touch.\<close>

lemma handle_response_frame:
  "handle_response out c = (r, c') \<Longrightarrow> fatal_error c' = fatal_error c
     \<and> shutting_down c' = shutting_down c \<and> pending_payload c' = pending_payload c
     \<and> outgoing_payload_rx c' = outgoing_payload_rx c \<and> server_handler c' = server_handler c
     \<and> transport c' = transport c"
  by (auto simp: handle_response_def Let_def record_event_def complete_def split: if_splits option.splits)

lemma handle_transport_rx_payload_frame:
  "handle_transport_rx_payload sd S p c = (r, c') \<Longrightarrow> fatal_error c' = fatal_error c
     \<and> shutting_down c' = shutting_down c \<and> pending_payload c' = pending_payload c
     \<and> outgoing_payload_rx c' = outgoing_payload_rx c \<and> transport c' = transport c"
  by (auto simp: handle_transport_rx_payload_def dest: handle_response_frame
      split: option.splits incoming_message.splits prod.splits)

text \<open>The two ways in which a turn of the receiving loop goes: a payload arrives, or none.\<close>

lemma transport_rx_turnE:
  assumes "transport_rx_turn sd T S c = (f, c')"
  obtains (payload) p t r where "rx_poll T (transport c) = (Inr (Ready (Some p)), t)"
      "handle_transport_rx_payload sd S p (c\<lparr>transport := t\<rparr>) = (r, c')"
  | (quiet) a t where "rx_poll T (transport c) = (a, t)" "\<And>p. a \<noteq> Inr (Ready (Some p))" "c' = c\<lparr>transport := t\<rparr>"
proof -
  obtain a t where a: "rx_poll T (transport c) = (a, t)" by fastforce
  show ?thesis
  proof (cases a rule: poll_cases)
    case (item p)
    obtain r c1 where h: "handle_transport_rx_payload sd S p (c\<lparr>transport := t\<rparr>) = (r, c1)" by fastforce
    with assms a item have "c' = c1" by (cases r) (auto simp: transport_rx_turn_def)
    with a item h show ?thesis using payload by blast
  qed (use assms a quiet in \<open>auto simp: transport_rx_turn_def\<close>)
qed

lemma transport_rx_turn_frame:
  assumes "transport_rx_turn sd T S c = (f, c')"
  shows "fatal_error c' = fatal_error c \<and> shutting_down c' = shutting_down c
     \<and> pending_payload c' = pending_payload c \<and> outgoing_payload_rx c' = outgoing_payload_rx c
     \<and> transport c' = snd (rx_poll T (transport c))"
  using assms by (rule transport_rx_turnE) (auto dest: handle_transport_rx_payload_frame)

lemma poll_transport_rx_frame:
  assumes "poll_transport_rx sd T S c = Some (r, c')"
  shows "fatal_error c' = fatal_error c \<and> shutting_down c' = shutting_down c
     \<and> pending_payload c' = pending_payload c \<and> outgoing_payload_rx c' = outgoing_payload_rx c"
  by (rule rust_loop_invariant[OF assms[unfolded poll_transport_rx_def],
        where I = "\<lambda>d. fatal_error d = fatal_error c \<and> shutting_down d = shutting_down c
          \<and> pending_payload d = pending_payload c \<and> outgoing_payload_rx d = outgoing_payload_rx c"])
    (auto dest: transport_rx_turn_frame)

lemmas poll_transport_rx_fatal = poll_transport_rx_frame[THEN conjunct1]

text \<open>What the other operations do not touch.\<close>

lemma send_payload_frame:
  "send_payload T p c = (r, c') \<Longrightarrow> history c' = history c \<and> outgoing_payload_rx c' = outgoing_payload_rx c
     \<and> fatal_error c' = fatal_error c \<and> shutting_down c' = shutting_down c
     \<and> server_handler c' = server_handler c \<and> pending_client_requests c' = pending_client_requests c
     \<and> completions c' = completions c"
  by (auto simp: send_payload_def split: if_splits prod.splits sum.splits async_sink.splits)

lemma handle_client_payload_frame:
  "handle_client_payload sd T m c = (r, c') \<Longrightarrow> history c' = history c @ [Sent m]
     \<and> outgoing_payload_rx c' = outgoing_payload_rx c \<and> fatal_error c' = fatal_error c
     \<and> shutting_down c' = shutting_down c \<and> server_handler c' = server_handler c"
  by (cases m)
    (auto simp: Let_def record_event_def complete_def add_new_call_def id_next_def
      dest!: send_payload_frame split: sum.splits option.splits)

text \<open>A turn of the sending loop finds a payload that waits, no message, or a message.\<close>

lemma outgoing_turnE:
  assumes "outgoing_turn sd T c = (f, c')"
  obtains (full) "pending_payload c \<noteq> None" "c' = c"
  | (quiet) a q where "pending_payload c = None" "select_poll receiver_poll receiver_poll (outgoing_payload_rx c) = (a, q)"
      "\<And>m. a \<noteq> Inr (Ready (Some m))" "c' = c\<lparr>outgoing_payload_rx := q\<rparr>"
  | (sent) m q r where "pending_payload c = None"
      "select_poll receiver_poll receiver_poll (outgoing_payload_rx c) = (Inr (Ready (Some m)), q)"
      "handle_client_payload sd T m (c\<lparr>outgoing_payload_rx := q\<rparr>) = (r, c')"
proof (cases "pending_payload c = None")
  case False
  with assms have "c' = c" by (simp add: outgoing_turn_def)
  with False show ?thesis by (rule full)
next
  case True
  obtain a q where a: "select_poll receiver_poll receiver_poll (outgoing_payload_rx c) = (a, q)" by fastforce
  show ?thesis
  proof (cases a rule: poll_cases)
    case (item m)
    obtain r c1 where h: "handle_client_payload sd T m (c\<lparr>outgoing_payload_rx := q\<rparr>) = (r, c1)" by fastforce
    with assms True a item have "c' = c1" by (cases r) (auto simp: outgoing_turn_def)
    with True a item h show ?thesis using sent by blast
  qed (use assms True a quiet in \<open>auto simp: outgoing_turn_def\<close>)
qed

lemma poll_server_frame:
  "poll_server S c = Some (r, c') \<Longrightarrow> history c' = history c \<and> outgoing_payload_rx c' = outgoing_payload_rx c
     \<and> fatal_error c' = fatal_error c \<and> pending_payload c' = pending_payload c \<and> transport c' = transport c
     \<and> completions c' = completions c \<and> pending_client_requests c' = pending_client_requests c"
  by (auto simp: poll_server_def split: if_splits option.splits prod.splits outcome.splits async.splits)

lemma poll_transport_tx_frame:
  "poll_transport_tx T c = (r, c') \<Longrightarrow> history c' = history c \<and> outgoing_payload_rx c' = outgoing_payload_rx c
     \<and> fatal_error c' = fatal_error c \<and> pending_payload c' = pending_payload c \<and> shutting_down c' = shutting_down c"
  by (auto simp: poll_transport_tx_def split: if_splits prod.splits sum.splits)

text \<open>The shutdown is over only when no error is left to report.\<close>

lemma handle_shutdown_Ready:
  "handle_shutdown sd T S c = Some (Ret (Ready ()), c') \<Longrightarrow> fatal_error c = None"
  by (auto simp: handle_shutdown_def dest: poll_transport_rx_fatal
      split: option.splits prod.splits outcome.splits sum.splits async.splits)

lemma handle_shutdown_flag:
  "handle_shutdown sd T S c = Some (r, c') \<Longrightarrow> shutting_down c' = shutting_down c"
  by (auto simp: handle_shutdown_def dest!: poll_transport_rx_frame
      split: option.splits prod.splits outcome.splits sum.splits async.splits)

section \<open>The specification: a JSON-RPC session\<close>

text \<open>
  What the client is for, without polling, back pressure or shutdown: a session that consumes the
  messages of the handles and the responses of the remote end one by one. It numbers the calls,
  remembers which call waits for which id, and completes a call when its response arrives.
\<close>

record session =
  ses_ids :: id_generator
  ses_awaiting :: "rpc_id \<rightharpoonup> completion"
  ses_wire :: "string list"
  ses_done :: "(completion \<times> completion_value) list"

definition session_new :: session where
  "session_new = \<lparr>ses_ids = id_generator_new, ses_awaiting = Map.empty, ses_wire = [], ses_done = []\<rparr>"

definition ses_complete :: "completion \<Rightarrow> completion_value \<Rightarrow> session \<Rightarrow> session" where
  "ses_complete tx v s = s\<lparr>ses_done := ses_done s @ [(tx, v)]\<rparr>"

definition ses_send :: "string \<Rightarrow> session \<Rightarrow> session" where
  "ses_send p s = s\<lparr>ses_wire := ses_wire s @ [p]\<rparr>"

fun session_step :: "serde \<Rightarrow> session_event \<Rightarrow> session \<Rightarrow> session" where
  "session_step sd (Sent (Msg_RpcCall mname ps tx)) s =
     (let i = Id_Num (next_id (ses_ids s)); s = s\<lparr>ses_ids := snd (id_next (ses_ids s))\<rparr>
      in case serialize_method_request sd i mname ps of
           Inr p \<Rightarrow> ses_send p (s\<lparr>ses_awaiting := (ses_awaiting s)(i \<mapsto> tx)\<rparr>)
         | Inl e \<Rightarrow> ses_complete tx (Call_result (Inl e)) s)"
| "session_step sd (Sent (Msg_Notification mname ps tx)) s =
     (case serialize_notification_request sd mname ps of
        Inr p \<Rightarrow> ses_send p (ses_complete tx (Notification_result (Inr ())) s)
      | Inl e \<Rightarrow> ses_complete tx (Notification_result (Inl e)) s)"
| "session_step sd (Sent (Msg_Response r)) s =
     (case to_string_response sd r of Some p \<Rightarrow> ses_send p s | None \<Rightarrow> s)"
| "session_step sd (Got out) s =
     (case (if jsonrpc out = Some V2 then ses_awaiting s (output_id out) else None) of
        Some tx \<Rightarrow> ses_complete tx (Call_result (output_result out))
                    (s\<lparr>ses_awaiting := (ses_awaiting s)(output_id out := None)\<rparr>)
      | None \<Rightarrow> s)"

definition session_of :: "serde \<Rightarrow> session_event list \<Rightarrow> session" where
  "session_of sd evs = fold (session_step sd) evs session_new"

lemma session_of_snoc [simp]: "session_of sd (evs @ [ev]) = session_step sd ev (session_of sd evs)"
  by (simp add: session_of_def)

text \<open>
  How a client state implements a session: the session's wire is what the transport has accepted,
  then the payload it has refused for the moment, then what has been lost with a broken transport.
\<close>

definition implements ::
  "serde \<Rightarrow> ('t \<Rightarrow> string list) \<Rightarrow> string list \<Rightarrow> ('t, 's) client \<Rightarrow> bool" where
  "implements sd accepted lost c \<longleftrightarrow>
     (let s = session_of sd (history c) in
      ses_ids s = id_generator c
      \<and> ses_awaiting s = pending_client_requests c
      \<and> ses_done s = completions c
      \<and> ses_wire s = accepted (transport c) @ (case pending_payload c of None \<Rightarrow> [] | Some p \<Rightarrow> [p]) @ lost)"

lemma implements_frame [simp]:
  "implements sd accepted lost (c\<lparr>fatal_error := f\<rparr>) = implements sd accepted lost c"
  "implements sd accepted lost (c\<lparr>shutting_down := b\<rparr>) = implements sd accepted lost c"
  "implements sd accepted lost (c\<lparr>server_handler := srv\<rparr>) = implements sd accepted lost c"
  "implements sd accepted lost (c\<lparr>outgoing_payload_rx := q\<rparr>) = implements sd accepted lost c"
  by (simp_all add: implements_def)

lemma implements_new:
  "accepted t = [] \<Longrightarrow> implements sd accepted [] (new_with_server rx1 rx2 rtx t s)"
  by (simp add: implements_def new_with_server_def session_of_def session_new_def)

section \<open>The contract of a transport's sink\<close>

text \<open>
  What \<open>Sink::start_send\<close> promises: it takes the payload, or gives it back, or fails. \<open>accepted\<close>
  lists the payloads taken so far.
\<close>

locale transport_contract =
  fixes T :: "'t transport_ops" and accepted :: "'t \<Rightarrow> string list"
  assumes send_ready: "tx_start_send T p t = (Inr Sink_Ready, t') \<Longrightarrow> accepted t' = accepted t @ [p]"
    and send_not_ready:
      "tx_start_send T p t = (Inr (Sink_NotReady p'), t') \<Longrightarrow> p' = p \<and> accepted t' = accepted t"
    and send_failed: "tx_start_send T p t = (Inl e, t') \<Longrightarrow> accepted t' = accepted t"
    and poll_complete_keeps [simp]: "accepted (snd (tx_poll_complete T t)) = accepted t"
    and close_keeps [simp]: "accepted (snd (tx_close T t)) = accepted t"
    and rx_keeps [simp]: "accepted (snd (rx_poll T t)) = accepted t"
begin

text \<open>After a call: everything is accounted for, or it failed and the payload in hand is lost.\<close>

definition accounted ::
  "serde \<Rightarrow> ('a, core_error) outcome \<Rightarrow> ('t, 's) client \<Rightarrow> bool" where
  "accounted sd r c \<longleftrightarrow>
     (case r of
        Ret _ \<Rightarrow> implements sd accepted [] c
      | Raise e \<Rightarrow> implements sd accepted [] c
           \<or> e = TransportError \<and> (\<exists>p. implements sd accepted [p] c \<and> pending_payload c = None)
      | Panic \<Rightarrow> True)"

lemma accounted_simps [simp]:
  "accounted sd (Ret a) c \<longleftrightarrow> implements sd accepted [] c"
  "implements sd accepted [] c \<Longrightarrow> accounted sd r c"
  "accounted sd Panic c"
  by (simp_all add: accounted_def split: outcome.split)

lemma implements_transport:
  "accepted t = accepted (transport c) \<Longrightarrow>
     implements sd accepted lost (c\<lparr>transport := t\<rparr>) = implements sd accepted lost c"
  by (simp add: implements_def)

lemma send_payload_accounted:
  assumes "implements sd accepted [p] c" "pending_payload c = None"
    and "send_payload T p c = (r, c')"
  shows "accounted sd r c'"
proof (cases "fatal_error c = None")
  case False
  with assms show ?thesis by (auto simp: send_payload_def accounted_def)
next
  case True
  obtain a t where a: "tx_start_send T p (transport c) = (a, t)" by fastforce
  show ?thesis
  proof (cases a)
    case (Inl e)
    with a assms True send_failed[of p "transport c" e t] show ?thesis
      by (auto simp: send_payload_def accounted_def implements_transport)
  next
    case (Inr k)
    show ?thesis
    proof (cases k)
      case Sink_Ready
      with a Inr assms True send_ready[of p "transport c" t] show ?thesis
        by (auto simp: send_payload_def implements_def Let_def)
    next
      case (Sink_NotReady p')
      with a Inr assms True send_not_ready[of p "transport c" p' t] show ?thesis
        by (auto simp: send_payload_def implements_def Let_def)
    qed
  qed
qed

lemma handle_client_payload_accounted:
  assumes "implements sd accepted [] c" "pending_payload c = None"
    and "handle_client_payload sd T m c = (r, c')"
  shows "accounted sd r c'"
proof (cases m)
  case (Msg_RpcCall mname ps tx)
  let ?i = "Id_Num (next_id (id_generator c))"
  let ?c = "(record_event (Sent m) c)\<lparr>id_generator := snd (id_next (id_generator c))\<rparr>"
  show ?thesis
  proof (cases "serialize_method_request sd ?i mname ps")
    case (Inl e)
    with assms Msg_RpcCall show ?thesis
      by (auto simp: id_next_def Let_def record_event_def complete_def implements_def ses_complete_def)
  next
    case (Inr p)
    have "implements sd accepted [p] (add_new_call ?i tx ?c)" "pending_payload (add_new_call ?i tx ?c) = None"
      using assms(1,2) Msg_RpcCall Inr
      by (simp_all add: implements_def Let_def add_new_call_def record_event_def id_next_def ses_send_def)
    moreover have "send_payload T p (add_new_call ?i tx ?c) = (r, c')"
      using assms(3) Msg_RpcCall Inr by (simp add: id_next_def Let_def)
    ultimately show ?thesis by (rule send_payload_accounted)
  qed
next
  case (Msg_Notification mname ps tx)
  show ?thesis
  proof (cases "serialize_notification_request sd mname ps")
    case (Inl e)
    with assms Msg_Notification show ?thesis
      by (auto simp: Let_def record_event_def complete_def implements_def ses_complete_def)
  next
    case (Inr p)
    let ?c = "complete tx (Notification_result (Inr ())) (record_event (Sent m) c)"
    have "implements sd accepted [p] ?c" "pending_payload ?c = None"
      using assms(1,2) Msg_Notification Inr
      by (simp_all add: implements_def Let_def record_event_def complete_def ses_send_def ses_complete_def)
    moreover have "send_payload T p ?c = (r, c')"
      using assms(3) Msg_Notification Inr by (simp add: Let_def)
    ultimately show ?thesis by (rule send_payload_accounted)
  qed
next
  case (Msg_Response response)
  show ?thesis
  proof (cases "to_string_response sd response")
    case None
    with assms Msg_Response show ?thesis
      by (auto simp: Let_def record_event_def implements_def)
  next
    case (Some p)
    let ?c = "record_event (Sent m) c"
    have "implements sd accepted [p] ?c" "pending_payload ?c = None"
      using assms(1,2) Msg_Response Some
      by (simp_all add: implements_def Let_def record_event_def ses_send_def)
    moreover have "send_payload T p ?c = (r, c')"
      using assms(3) Msg_Response Some by (simp add: Let_def)
    ultimately show ?thesis by (rule send_payload_accounted)
  qed
qed

lemma handle_response_implements:
  assumes "implements sd accepted lost c" "handle_response out c = (r, c')"
  shows "implements sd accepted lost c'"
  using assms
  by (auto simp: handle_response_def Let_def implements_def record_event_def complete_def ses_complete_def
      split: if_splits option.splits)

lemma handle_transport_rx_payload_implements:
  assumes "implements sd accepted lost c" "handle_transport_rx_payload sd S p c = (r, c')"
  shows "implements sd accepted lost c'"
proof (cases "\<exists>out. parse_incoming sd p = Some (Incoming_Response out)")
  case True
  with assms handle_response_implements show ?thesis by (auto simp: handle_transport_rx_payload_def)
next
  case False
  with assms show ?thesis
    by (auto simp: handle_transport_rx_payload_def implements_def
        split: option.splits incoming_message.splits prod.splits)
qed

lemma transport_rx_turn_implements:
  assumes "implements sd accepted lost c" "transport_rx_turn sd T S c = (f, c')"
  shows "implements sd accepted lost c'"
proof -
  obtain a t where a: "rx_poll T (transport c) = (a, t)" by fastforce
  with rx_keeps[of "transport c"] have t: "accepted t = accepted (transport c)" by simp
  have "implements sd accepted lost (c\<lparr>transport := t\<rparr>)"
    using assms(1) t by (simp add: implements_transport)
  with assms(2) a handle_transport_rx_payload_implements[OF this]
  show ?thesis
    by (cases a rule: poll_cases) (auto simp: transport_rx_turn_def split: prod.splits outcome.splits)
qed

lemma poll_transport_rx_implements:
  "implements sd accepted lost c \<Longrightarrow>
     yields (poll_transport_rx sd T S c) (\<lambda>_. implements sd accepted lost)"
  unfolding poll_transport_rx_def
  by (rule yields_rust_loop[where I = "implements sd accepted lost"])
    (use transport_rx_turn_implements in blast)+

lemma outgoing_turn_accounted:
  assumes "implements sd accepted [] c" "outgoing_turn sd T c = (f, c')"
  shows "(f = Continue \<longrightarrow> implements sd accepted [] c') \<and> (\<forall>r. f = Return r \<longrightarrow> accounted sd r c')"
proof (cases "pending_payload c = None")
  case False
  with assms show ?thesis by (auto simp: outgoing_turn_def)
next
  case True
  obtain a q where a: "select_poll receiver_poll receiver_poll (outgoing_payload_rx c) = (a, q)"
    by fastforce
  let ?c = "c\<lparr>outgoing_payload_rx := q\<rparr>"
  have imp: "implements sd accepted [] ?c" and pend: "pending_payload ?c = None"
    using assms(1) True by (simp_all add: implements_def)
  show ?thesis
  proof (cases a rule: poll_cases)
    case (item m)
    obtain r c1 where h: "handle_client_payload sd T m ?c = (r, c1)" by fastforce
    from handle_client_payload_accounted[OF imp pend h] assms(2) True a item h show ?thesis
      by (cases r) (auto simp: outgoing_turn_def)
  qed (use assms(2) True a imp in \<open>auto simp: outgoing_turn_def\<close>)
qed

lemma poll_outgoing_messages_accounted:
  "implements sd accepted [] c \<Longrightarrow> yields (poll_outgoing_messages sd T c) (accounted sd)"
  unfolding poll_outgoing_messages_def
  by (rule yields_rust_loop[where I = "implements sd accepted []"]) (use outgoing_turn_accounted in blast)+

lemma resend_pending_accounted:
  assumes "implements sd accepted [] c" "resend_pending T c = (r, c')"
  shows "accounted sd r c'"
proof (cases "pending_payload c")
  case None
  with assms show ?thesis by (auto simp: resend_pending_def)
next
  case (Some p)
  let ?c = "c\<lparr>pending_payload := None\<rparr>"
  have "implements sd accepted [p] ?c" "pending_payload ?c = None"
    using assms(1) Some by (simp_all add: implements_def Let_def)
  moreover have "send_payload T p ?c = (r, c')" using assms(2) Some by (simp add: resend_pending_def)
  ultimately show ?thesis by (rule send_payload_accounted)
qed

lemma poll_server_implements:
  "implements sd accepted lost c \<Longrightarrow> yields (poll_server S c) (\<lambda>_. implements sd accepted lost)"
  by (auto simp: poll_server_def implements_def split: option.splits prod.splits outcome.splits async.splits)

lemma poll_transport_tx_implements:
  assumes "implements sd accepted [] c" "poll_transport_tx T c = (r, c')"
  shows "implements sd accepted [] c'"
proof -
  obtain a t where a: "tx_poll_complete T (transport c) = (a, t)" by fastforce
  with poll_complete_keeps[of "transport c"] have "accepted t = accepted (transport c)" by simp
  with assms a show ?thesis
    by (cases a) (auto simp: poll_transport_tx_def implements_transport split: if_splits)
qed

lemma sending_accounted:
  assumes "implements sd accepted [] c"
  shows "yields (try_then (poll_outgoing_messages sd T c) (\<lambda>_ c. Some (poll_transport_tx T c))) (accounted sd)"
proof (rule yields_try_then, rule yields_mono[OF poll_outgoing_messages_accounted[OF assms]])
  fix r c1 assume r: "accounted sd r c1"
  show "case r of Ret a \<Rightarrow> yields (Some (poll_transport_tx T c1)) (accounted sd)
      | Raise e \<Rightarrow> accounted sd (Raise e) c1 | Panic \<Rightarrow> accounted sd Panic c1"
    using r poll_transport_tx_implements[of sd c1]
    by (cases "poll_transport_tx T c1"; cases r) (auto simp: accounted_def split: outcome.split)
qed

lemma after_implements:
  assumes "yields m (\<lambda>_. implements sd accepted [])"
    and "\<And>a c. implements sd accepted [] c \<Longrightarrow> yields (k a c) (accounted sd)"
  shows "yields (try_then m k) (accounted sd)"
  by (rule yields_try_then, rule yields_mono[OF assms(1)]) (auto split: outcome.splits intro: assms(2))

lemma handle_messages_accounted:
  assumes "implements sd accepted [] c"
  shows "yields (handle_messages sd T S c) (accounted sd)"
proof -
  obtain r c1 where r: "resend_pending T c = (r, c1)" by fastforce
  have "yields (try_then (poll_server S c1) (\<lambda>_ c. try_then (poll_transport_rx sd T S c) (\<lambda>_ c.
      try_then (poll_outgoing_messages sd T c) (\<lambda>_ c. Some (poll_transport_tx T c))))) (accounted sd)"
    if "implements sd accepted [] c1"
    by (intro after_implements poll_server_implements poll_transport_rx_implements sending_accounted that)
  with resend_pending_accounted[OF assms r] show ?thesis
    unfolding handle_messages_def r by (cases r) auto
qed

lemma handle_shutdown_implements:
  assumes "implements sd accepted lost c"
  shows "yields (handle_shutdown sd T S c) (\<lambda>r c'. implements sd accepted lost c'
     \<and> (case r of Ret a \<Rightarrow> fatal_error c' = fatal_error c | Raise e \<Rightarrow> fatal_error c = Some e | Panic \<Rightarrow> True))"
proof (cases "poll_transport_rx sd T S c")
  case None
  then show ?thesis by (simp add: handle_shutdown_def)
next
  case (Some rc)
  obtain r c1 where rc: "rc = (r, c1)" by (cases rc)
  from yieldsD[OF poll_transport_rx_implements[OF assms] Some[unfolded rc]]
  have imp: "implements sd accepted lost c1" .
  have fatal: "fatal_error c1 = fatal_error c" by (rule poll_transport_rx_fatal[OF Some[unfolded rc]])
  obtain a t where a: "tx_close T (transport c1) = (a, t)" by fastforce
  with close_keeps[of "transport c1"] have "accepted t = accepted (transport c1)" by simp
  with imp have "implements sd accepted lost (c1\<lparr>transport := t\<rparr>)" by (simp add: implements_transport)
  with Some rc imp a fatal show ?thesis
    by (auto simp: handle_shutdown_def split: outcome.splits sum.splits async.splits option.splits)
qed

text \<open>A client that shuts down hands the transport nothing more.\<close>

lemma poll_transport_rx_accepted:
  "poll_transport_rx sd T S c = Some (r, c') \<Longrightarrow> accepted (transport c') = accepted (transport c)"
  unfolding poll_transport_rx_def
  by (rule rust_loop_invariant[where I = "\<lambda>d. accepted (transport d) = accepted (transport c)"], assumption)
    (auto dest: transport_rx_turn_frame)

lemma handle_shutdown_accepted:
  assumes "handle_shutdown sd T S c = Some (r, c')"
  shows "accepted (transport c') = accepted (transport c)"
proof -
  from assms obtain q c1 where q: "poll_transport_rx sd T S c = Some (q, c1)"
    by (auto simp: handle_shutdown_def split: option.splits)
  obtain a t where a: "tx_close T (transport c1) = (a, t)" by fastforce
  with close_keeps[of "transport c1"] have "accepted t = accepted (transport c1)" by simp
  with assms q a poll_transport_rx_accepted[OF q] show ?thesis
    by (auto simp: handle_shutdown_def split: outcome.splits sum.splits async.splits option.splits)
qed

text \<open>A state in a run: nothing is lost as long as the client has not seen the transport fail.\<close>

definition run_state :: "serde \<Rightarrow> (unit async, core_error) outcome \<Rightarrow> ('t, 's) client \<Rightarrow> bool" where
  "run_state sd r c \<longleftrightarrow> r = Panic \<or> implements sd accepted [] c
     \<or> ((\<exists>p. implements sd accepted [p] c)
         \<and> (r = Raise TransportError \<or> r = Ret NotReady \<and> fatal_error c = Some TransportError))"

lemma client_poll_run_state:
  assumes "run_state sd (Ret NotReady) c" "client_poll sd T S c = Some (r, c')"
  shows "run_state sd r c'"
proof (cases "should_shut_down c")
  case True
  with assms(2) have sh: "handle_shutdown sd T S c = Some (r, c')" by (simp add: client_poll_def)
  from assms(1) consider "implements sd accepted [] c"
    | p where "implements sd accepted [p] c" "fatal_error c = Some TransportError"
    by (auto simp: run_state_def)
  then show ?thesis
  proof cases
    case 1
    from yieldsD[OF handle_shutdown_implements[OF this] sh] show ?thesis by (simp add: run_state_def)
  next
    case 2
    from yieldsD[OF handle_shutdown_implements[OF this(1)] sh] 2(2) show ?thesis
      using handle_shutdown_Ready[of sd T S c c'] sh
      by (cases r rule: answer_cases) (auto simp: run_state_def)
  qed
next
  case False
  with assms(1) have imp: "implements sd accepted [] c"
    by (auto simp: run_state_def should_shut_down_def)
  from False assms(2) obtain r1 c1 where h: "handle_messages sd T S c = Some (r1, c1)"
    by (auto simp: client_poll_def split: option.splits)
  from yieldsD[OF handle_messages_accounted[OF imp] h] have acc: "accounted sd r1 c1" .
  show ?thesis
  proof (cases r1)
    case (Ret a)
    with False h assms(2) acc show ?thesis by (auto simp: client_poll_def run_state_def)
  next
    case (Raise e)
    let ?c = "if e = Shutdown then c1\<lparr>shutting_down := True\<rparr> else c1\<lparr>fatal_error := Some e\<rparr>"
    from Raise False h assms(2) have sh: "handle_shutdown sd T S ?c = Some (r, c')"
      by (cases e) (auto simp: client_poll_def)
    from acc Raise consider "implements sd accepted [] c1" | p where "e = TransportError" "implements sd accepted [p] c1"
      by (auto simp: accounted_def)
    then show ?thesis
    proof cases
      case 1
      then have "implements sd accepted [] ?c" by (simp add: implements_def)
      from yieldsD[OF handle_shutdown_implements[OF this] sh] show ?thesis by (simp add: run_state_def)
    next
      case 2
      then have "implements sd accepted [p] ?c" "fatal_error ?c = Some TransportError"
        by (simp_all add: implements_def)
      from yieldsD[OF handle_shutdown_implements[OF this(1)] sh] this(2) show ?thesis
        using handle_shutdown_Ready[of sd T S ?c c'] sh
        by (cases r rule: answer_cases) (auto simp: run_state_def)
    qed
  next
    case Panic
    with False h assms(2) show ?thesis by (simp add: client_poll_def run_state_def)
  qed
qed

lemma client_run_state:
  "client_run sd T S c0 r c \<Longrightarrow> implements sd accepted [] c0 \<Longrightarrow> run_state sd r c"
proof (induction rule: client_run.induct)
  case run_start
  then show ?case by (simp add: run_state_def)
next
  case (run_poll c r c')
  then show ?case using client_poll_run_state by blast
qed

end

end
