(* ===== verification/Client_Runs.thy ===== *)
theory Client_Runs
  imports Client
begin

text \<open>
  Invariants of the client's runs. What each step of the client keeps, every run keeps
  (\<open>client_invariant\<close>): the polls are composed of a few kinds of steps, and the locale asks for each of them
  once. Its first use is \<open>transport_invariant\<close>: what a transport keeps by itself, it keeps in the hands of
  the client, which is how a transport's own properties carry over to the client that drives it. \<open>transport_source\<close> is the
  contract of a transport's receiving half.
\<close>

section \<open>What every step keeps\<close>

locale client_invariant =
  fixes sd :: serde and T :: "'t transport_ops" and S :: "'s server_ops"
    and I :: "('t, 's) client \<Rightarrow> bool"
  assumes shutting_down_keeps: "I c \<Longrightarrow> I (c\<lparr>shutting_down := b\<rparr>)"
    and fatal_error_keeps: "I c \<Longrightarrow> I (c\<lparr>fatal_error := e\<rparr>)"
    and outgoing_turn_keeps: "I c \<Longrightarrow> outgoing_turn sd T c = (f, c') \<Longrightarrow> I c'"
    and resend_keeps: "I c \<Longrightarrow> resend_pending T c = (r, c') \<Longrightarrow> I c'"
    and rx_turn_keeps: "I c \<Longrightarrow> transport_rx_turn sd T S c = (f, c') \<Longrightarrow> I c'"
    and server_keeps: "I c \<Longrightarrow> poll_server S c = Some (r, c') \<Longrightarrow> I c'"
    and flush_keeps: "I c \<Longrightarrow> poll_transport_tx T c = (r, c') \<Longrightarrow> I c'"
    and close_keeps: "I c \<Longrightarrow> I (c\<lparr>transport := snd (tx_close T (transport c))\<rparr>)"
begin

lemma poll_transport_rx_inv: "I c \<Longrightarrow> yields (poll_transport_rx sd T S c) (\<lambda>_. I)"
  unfolding poll_transport_rx_def
  by (rule yields_rust_loop[where I = I]) (use rx_turn_keeps in blast)+

lemma poll_outgoing_messages_inv: "I c \<Longrightarrow> yields (poll_outgoing_messages sd T c) (\<lambda>_. I)"
  unfolding poll_outgoing_messages_def
  by (rule yields_rust_loop[where I = I]) (use outgoing_turn_keeps in blast)+

lemma resend_pending_inv: "I c \<Longrightarrow> yields (Some (resend_pending T c)) (\<lambda>_. I)"
  by (rule yieldsI) (auto dest: resend_keeps)

lemma poll_server_inv: "I c \<Longrightarrow> yields (poll_server S c) (\<lambda>_. I)"
  by (rule yieldsI) (auto dest: server_keeps)

lemma poll_transport_tx_inv: "I c \<Longrightarrow> yields (Some (poll_transport_tx T c)) (\<lambda>_. I)"
  by (rule yieldsI) (auto dest: flush_keeps)

lemma handle_messages_inv: "I c \<Longrightarrow> yields (handle_messages sd T S c) (\<lambda>_. I)"
  unfolding handle_messages_def
  by (intro yields_try_then_inv resend_pending_inv poll_server_inv poll_transport_rx_inv
      poll_outgoing_messages_inv poll_transport_tx_inv)

lemma handle_shutdown_inv:
  assumes "I c" "handle_shutdown sd T S c = Some (r, c')"
  shows "I c'"
proof -
  from assms(2) obtain q c1 where q: "poll_transport_rx sd T S c = Some (q, c1)"
    by (auto simp: handle_shutdown_def split: option.splits)
  let ?closed = "c1\<lparr>transport := snd (tx_close T (transport c1))\<rparr>"
  from yieldsD[OF poll_transport_rx_inv[OF assms(1)] q] have c1: "I c1" .
  then have "I ?closed" "I (?closed\<lparr>fatal_error := None\<rparr>)" by (simp_all only: close_keeps fatal_error_keeps)
  with c1 assms(2) q show ?thesis
    by (auto simp: handle_shutdown_def split: outcome.splits sum.splits async.splits option.splits prod.splits)
qed

lemma client_poll_inv:
  assumes "I c" "client_poll sd T S c = Some (r, c')"
  shows "I c'"
proof (cases "should_shut_down c")
  case True
  with assms handle_shutdown_inv show ?thesis by (auto simp: client_poll_def)
next
  case False
  with assms(2) obtain q c1 where q: "handle_messages sd T S c = Some (q, c1)"
    by (auto simp: client_poll_def split: option.splits)
  from yieldsD[OF handle_messages_inv[OF assms(1)] q] have c1: "I c1" .
  show ?thesis
  proof (cases q)
    case (Raise e)
    let ?d = "if e = Shutdown then c1\<lparr>shutting_down := True\<rparr> else c1\<lparr>fatal_error := Some e\<rparr>"
    from Raise False q assms(2) have "handle_shutdown sd T S ?d = Some (r, c')"
      by (cases e) (auto simp: client_poll_def)
    moreover have "I ?d" using c1 by (simp add: shutting_down_keeps fatal_error_keeps)
    ultimately show ?thesis using handle_shutdown_inv by blast
  qed (use False q assms(2) c1 in \<open>auto simp: client_poll_def\<close>)
qed

lemma client_run_inv: "client_run sd T S c0 r c \<Longrightarrow> I c0 \<Longrightarrow> I c"
  by (induction rule: client_run.induct) (use client_poll_inv in blast)+

end

section \<open>What a transport keeps by itself\<close>

locale transport_invariant =
  fixes T :: "'t transport_ops" and inv :: "'t \<Rightarrow> bool"
  assumes start_send_inv: "inv t \<Longrightarrow> inv (snd (tx_start_send T p t))"
    and poll_complete_inv: "inv t \<Longrightarrow> inv (snd (tx_poll_complete T t))"
    and close_inv: "inv t \<Longrightarrow> inv (snd (tx_close T t))"
    and rx_inv: "inv t \<Longrightarrow> inv (snd (rx_poll T t))"
begin

lemma send_payload_kept: "inv (transport c) \<Longrightarrow> send_payload T p c = (r, c') \<Longrightarrow> inv (transport c')"
  using start_send_inv[of "transport c" p]
  by (auto simp: send_payload_def split: if_splits prod.splits sum.splits async_sink.splits)

lemma handle_client_payload_kept:
  "inv (transport c) \<Longrightarrow> handle_client_payload sd T m c = (r, c') \<Longrightarrow> inv (transport c')"
  by (cases m)
    (auto simp: Let_def record_event_def complete_def add_new_call_def id_next_def
      split: sum.splits option.splits elim!: send_payload_kept[rotated])

lemma outgoing_turn_kept:
  assumes "inv (transport c)" "outgoing_turn sd T c = (f, c')"
  shows "inv (transport c')"
  using assms(2) by (rule outgoing_turnE) (use assms(1) in \<open>auto dest: handle_client_payload_kept[rotated]\<close>)

lemma resend_pending_kept: "inv (transport c) \<Longrightarrow> resend_pending T c = (r, c') \<Longrightarrow> inv (transport c')"
  by (auto simp: resend_pending_def split: option.splits elim!: send_payload_kept[rotated])

lemma transport_rx_turn_kept:
  "inv (transport c) \<Longrightarrow> transport_rx_turn sd T S c = (f, c') \<Longrightarrow> inv (transport c')"
  using transport_rx_turn_frame[of sd T S c f c'] rx_inv by simp

lemma poll_transport_tx_kept: "inv (transport c) \<Longrightarrow> poll_transport_tx T c = (r, c') \<Longrightarrow> inv (transport c')"
  using poll_complete_inv[of "transport c"]
  by (auto simp: poll_transport_tx_def split: if_splits prod.splits sum.splits)

end

sublocale transport_invariant \<subseteq> run: client_invariant sd T S "\<lambda>c. inv (transport c)" for sd S
  by unfold_locales
    (auto dest: outgoing_turn_kept resend_pending_kept transport_rx_turn_kept poll_server_frame
      poll_transport_tx_kept intro: close_inv)

context transport_invariant
begin

lemma client_run_kept: "client_run sd T S c0 r c \<Longrightarrow> inv (transport c0) \<Longrightarrow> inv (transport c)"
  by (rule run.client_run_inv)

end

section \<open>What a transport has delivered\<close>

text \<open>
  The contract of a transport's stream: \<open>heard t0 t ps\<close> says that between \<open>t0\<close> and \<open>t\<close> it handed out the
  payloads \<open>ps\<close>. Only the stream's own \<open>poll\<close> hands out any.
\<close>

definition arrived :: "(string option, string) poll \<Rightarrow> string list" where
  "arrived a = (case a of Inr (Ready (Some p)) \<Rightarrow> [p] | _ \<Rightarrow> [])"

lemma arrived_simps [simp]:
  "arrived (Inr (Ready (Some p))) = [p]" "arrived (Inr (Ready None)) = []" "arrived (Inr NotReady) = []"
  "arrived (Inl e) = []"
  by (simp_all add: arrived_def)

lemma arrived_none: "(\<And>p. a \<noteq> Inr (Ready (Some p))) \<Longrightarrow> arrived a = []"
  by (cases a rule: poll_cases) auto

locale transport_source =
  fixes T :: "'t transport_ops" and heard :: "'t \<Rightarrow> 't \<Rightarrow> string list \<Rightarrow> bool"
  assumes heard_refl [simp]: "heard t t []"
    and start_send_heard: "heard t0 t ps \<Longrightarrow> heard t0 (snd (tx_start_send T p t)) ps"
    and poll_complete_heard: "heard t0 t ps \<Longrightarrow> heard t0 (snd (tx_poll_complete T t)) ps"
    and close_heard: "heard t0 t ps \<Longrightarrow> heard t0 (snd (tx_close T t)) ps"
    and rx_heard: "heard t0 t ps \<Longrightarrow> rx_poll T t = (a, t') \<Longrightarrow> heard t0 t' (ps @ arrived a)"

end
