(* ===== verification/Client_Session.thy ===== *)
theory Client_Session
  imports Client_Runs
begin

text \<open>
  What a run of the client amounts to. The session of \<open>Client\<close> is the specification: this theory shows
  what a session guarantees (every call is completed once and by the response that carries its id,
  \<open>session_conserves\<close>), that the client's event history is an interleaving of what its two channels
  delivered (\<open>advances\<close>), and puts both together for the polls of the client.
\<close>

section \<open>What the channels delivered\<close>

fun sent_msgs :: "session_event list \<Rightarrow> outgoing_message list" where
  "sent_msgs [] = []"
| "sent_msgs (Sent m # evs) = m # sent_msgs evs"
| "sent_msgs (Got out # evs) = sent_msgs evs"

lemma sent_msgs_append [simp]: "sent_msgs (xs @ ys) = sent_msgs xs @ sent_msgs ys"
  by (induction xs rule: sent_msgs.induct) auto

definition advances :: "('t, 's) client \<Rightarrow> ('t, 's) client \<Rightarrow> bool" where
  "advances c c' \<longleftrightarrow>
     (\<exists>evs. history c' = history c @ evs
        \<and> hands_out (outgoing_payload_rx c) (sent_msgs evs) (outgoing_payload_rx c'))"

lemma advancesI:
  assumes "history c' = history c @ evs" "sent_msgs evs = []"
    and "outgoing_payload_rx c' = outgoing_payload_rx c"
  shows "advances c c'"
  unfolding advances_def by (rule exI[of _ evs]) (simp add: assms)

lemma advances_refl [simp]: "advances c c"
  by (rule advancesI[where evs = "[]"]) simp_all

lemma advances_frame:
  "history c' = history c \<Longrightarrow> outgoing_payload_rx c' = outgoing_payload_rx c \<Longrightarrow> advances c c'"
  by (rule advancesI[where evs = "[]"]) simp_all

lemma advances_trans: "advances a b \<Longrightarrow> advances b c \<Longrightarrow> advances a c"
  unfolding advances_def using hands_out_trans by (fastforce simp flip: sent_msgs_append)

section \<open>Every operation advances\<close>

lemma handle_response_history:
  "handle_response out c = (r, c') \<Longrightarrow> history c' = history c @ [Got out]"
  by (auto simp: handle_response_def Let_def record_event_def complete_def split: if_splits option.splits)

lemma handle_transport_rx_payload_advances:
  assumes "handle_transport_rx_payload sd S p c = (r, c')"
  shows "advances c c'"
proof (cases "\<exists>out. parse_incoming sd p = Some (Incoming_Response out)")
  case True
  then obtain out where "handle_response out c = (r, c')"
    using assms by (auto simp: handle_transport_rx_payload_def)
  then show ?thesis
    using handle_response_frame handle_response_history
    by (intro advancesI[where evs = "[Got out]"]) (simp_all, blast+)
next
  case False
  with assms show ?thesis
    by (intro advances_frame) (auto simp: handle_transport_rx_payload_def
      split: option.splits incoming_message.splits prod.splits)
qed

lemma transport_rx_turn_advances:
  assumes "transport_rx_turn sd T S c = (f, c')"
  shows "advances c c'"
  using assms
proof (rule transport_rx_turnE)
  fix p t r assume "handle_transport_rx_payload sd S p (c\<lparr>transport := t\<rparr>) = (r, c')"
  from handle_transport_rx_payload_advances[OF this] show ?thesis by (simp add: advances_def)
qed (simp add: advances_frame)

lemma outgoing_turn_advances:
  assumes "outgoing_turn sd T c = (f, c')"
  shows "advances c c'"
  using assms
proof (rule outgoing_turnE)
  fix a q assume "select_poll receiver_poll receiver_poll (outgoing_payload_rx c) = (a, q)"
    "\<And>m. a \<noteq> Inr (Ready (Some m))" "c' = c\<lparr>outgoing_payload_rx := q\<rparr>"
  with select_hands_out[of "outgoing_payload_rx c" a q] show ?thesis
    by (cases a rule: poll_cases) (auto simp: advances_def)
next
  fix m q r assume "select_poll receiver_poll receiver_poll (outgoing_payload_rx c) = (Inr (Ready (Some m)), q)"
    "handle_client_payload sd T m (c\<lparr>outgoing_payload_rx := q\<rparr>) = (r, c')"
  with select_hands_out[of "outgoing_payload_rx c"] handle_client_payload_frame show ?thesis
    unfolding advances_def by (intro exI[of _ "[Sent m]"]) fastforce
qed simp

lemma resend_pending_advances:
  "resend_pending T c = (r, c') \<Longrightarrow> advances c c'"
  by (rule advances_frame) (auto simp: resend_pending_def dest!: send_payload_frame split: option.splits)

lemma poll_server_advances: "poll_server S c = Some (r, c') \<Longrightarrow> advances c c'"
  by (rule advances_frame) (auto dest: poll_server_frame)

lemma poll_transport_tx_advances: "poll_transport_tx T c = (r, c') \<Longrightarrow> advances c c'"
  by (rule advances_frame) (auto dest: poll_transport_tx_frame)

interpretation advancing: client_invariant sd T S "advances c0" for sd T S c0
proof unfold_locales
  show "advances c0 (c\<lparr>shutting_down := b\<rparr>)" if "advances c0 c" for c :: "('a, 'b) client" and b
    by (rule advances_trans[OF that]) (simp add: advances_frame)
  show "advances c0 (c\<lparr>fatal_error := e\<rparr>)" if "advances c0 c" for c :: "('a, 'b) client" and e
    by (rule advances_trans[OF that]) (simp add: advances_frame)
  show "advances c0 (c\<lparr>transport := snd (tx_close T (transport c))\<rparr>)" if "advances c0 c" for c :: "('a, 'b) client"
    by (rule advances_trans[OF that]) (simp add: advances_frame)
qed (blast intro: advances_trans outgoing_turn_advances resend_pending_advances transport_rx_turn_advances
    poll_server_advances poll_transport_tx_advances)+

lemma handle_shutdown_frame:
  assumes "handle_shutdown sd T S c = Some (r, c')"
  shows "advances c c' \<and> outgoing_payload_rx c' = outgoing_payload_rx c \<and> pending_payload c' = pending_payload c
     \<and> shutting_down c' = shutting_down c"
proof -
  from assms obtain q c1 where q: "poll_transport_rx sd T S c = Some (q, c1)"
    by (auto simp: handle_shutdown_def split: option.splits)
  obtain a t where a: "tx_close T (transport c1) = (a, t)" by fastforce
  from assms q a have "outgoing_payload_rx c' = outgoing_payload_rx c1
      \<and> pending_payload c' = pending_payload c1 \<and> shutting_down c' = shutting_down c1"
    by (auto simp: handle_shutdown_def split: outcome.splits sum.splits async.splits option.splits)
  with poll_transport_rx_frame[OF q] advancing.handle_shutdown_inv[OF advances_refl assms] show ?thesis by simp
qed

lemma client_run_advances: "client_run sd T S c0 r c \<Longrightarrow> advances c0 c"
  by (rule advancing.client_run_inv[OF _ advances_refl])

section \<open>What a session guarantees\<close>

text \<open>
  The completion channel of a message, the calls among the messages, and the channels of the calls that
  wait for a response.
\<close>

fun msg_token :: "outgoing_message \<Rightarrow> completion option" where
  "msg_token (Msg_RpcCall _ _ tx) = Some tx"
| "msg_token (Msg_Notification _ _ tx) = Some tx"
| "msg_token (Msg_Response _) = None"

definition tokens :: "session_event list \<Rightarrow> completion list" where
  "tokens evs = List.map_filter msg_token (sent_msgs evs)"

fun is_call :: "outgoing_message \<Rightarrow> bool" where
  "is_call (Msg_RpcCall _ _ _) = True"
| "is_call _ = False"

definition calls_made :: "session_event list \<Rightarrow> nat" where
  "calls_made evs = length (filter is_call (sent_msgs evs))"

definition waiting :: "(rpc_id \<rightharpoonup> completion) \<Rightarrow> completion multiset" where
  "waiting m = image_mset (\<lambda>i. the (m i)) (mset_set (dom m))"

lemma tokens_snoc [simp]:
  "tokens (evs @ [Sent m]) = tokens evs @ (case msg_token m of None \<Rightarrow> [] | Some tx \<Rightarrow> [tx])"
  "tokens (evs @ [Got out]) = tokens evs"
  "tokens [] = []"
  by (simp_all add: tokens_def List.map_filter_def split: option.split)

lemma calls_made_simps [simp]:
  "calls_made [] = 0"
  "calls_made (Sent m # evs) = (if is_call m then Suc (calls_made evs) else calls_made evs)"
  "calls_made (Got out # evs) = calls_made evs"
  "calls_made (xs @ ys) = calls_made xs + calls_made ys"
  by (simp_all add: calls_made_def)

lemma waiting_empty [simp]: "waiting Map.empty = {#}"
  by (simp add: waiting_def)

lemma waiting_insert:
  assumes "finite (dom m)" "i \<notin> dom m"
  shows "waiting (m(i \<mapsto> tx)) = add_mset tx (waiting m)"
proof -
  have "image_mset (\<lambda>j. the ((m(i \<mapsto> tx)) j)) (mset_set (dom m)) = image_mset (\<lambda>j. the (m j)) (mset_set (dom m))"
    using assms by (intro image_mset_cong) (auto split: if_splits)
  with assms show ?thesis by (simp add: waiting_def)
qed

lemma waiting_remove:
  assumes "finite (dom m)" "m i = Some tx"
  shows "waiting m = add_mset tx (waiting (m(i := None)))"
  using waiting_insert[of "m(i := None)" i tx] assms by (simp add: fun_upd_idem)

lemma unat_call_number: "n < 2 ^ 64 \<Longrightarrow> unat (of_nat n :: u64) = n"
  by (simp add: unat_of_nat take_bit_nat_eq_self)

text \<open>The ids of a session: the \<open>n\<close>th call gets the number \<open>n\<close>.\<close>

lemma session_next_id: "next_id (ses_ids (session_of sd evs)) = of_nat (Suc (calls_made evs))"
proof (induction evs rule: rev_induct)
  case Nil
  show ?case by (simp add: session_of_def session_new_def id_generator_new_def)
next
  case (snoc ev evs)
  show ?case
  proof (cases ev)
    case (Sent m)
    with snoc show ?thesis
      by (cases m) (auto simp: Let_def id_next_def ses_send_def ses_complete_def add.commute
        split: sum.split option.split)
  qed (use snoc in \<open>auto simp: ses_complete_def split: option.split\<close>)
qed

lemma session_ids_left:
  assumes "calls_made evs \<le> 2 ^ 64 - 2"
  shows "ids_remaining (ses_ids (session_of sd evs)) = 2 ^ 64 - 2 - calls_made evs"
proof -
  have n: "unat (of_nat (Suc (calls_made evs)) :: u64) = Suc (calls_made evs)"
    by (rule unat_call_number) (use assms in simp)
  then have "(of_nat (Suc (calls_made evs)) :: u64) \<noteq> 0" by (metis nat.distinct(1) unat_0)
  with n show ?thesis by (simp add: ids_remaining_def session_next_id)
qed

definition session_ok :: "session \<Rightarrow> bool" where
  "session_ok s \<longleftrightarrow> finite (dom (ses_awaiting s)) \<and> dom (ses_awaiting s) \<subseteq> Id_Num ` ids_issued (ses_ids s)"

text \<open>One event: the channels used and the channels waiting change by the channel that came in.\<close>

definition event_tokens :: "session_event \<Rightarrow> completion multiset" where
  "event_tokens ev =
     (case ev of
        Sent m \<Rightarrow> (case msg_token m of None \<Rightarrow> {#} | Some tx \<Rightarrow> {#tx#})
      | Got _ \<Rightarrow> {#})"

definition accounts :: "session \<Rightarrow> completion multiset" where
  "accounts s = mset (map fst (ses_done s)) + waiting (ses_awaiting s)"

lemma session_call_accounts:
  assumes ok: "session_ok s" and room: "0 < ids_remaining (ses_ids s)"
  shows "session_ok (session_step sd (Sent (Msg_RpcCall mname ps tx)) s)
    \<and> accounts (session_step sd (Sent (Msg_RpcCall mname ps tx)) s) = accounts s + {#tx#}"
proof -
  let ?i = "Id_Num (next_id (ses_ids s))"
  have issued: "Id_Num ` ids_issued (snd (id_next (ses_ids s))) = insert ?i (Id_Num ` ids_issued (ses_ids s))"
    using call_ids.draw_issued[OF room] by (simp add: id_next_def)
  have fresh: "?i \<notin> dom (ses_awaiting s)"
    using call_ids.draw_fresh[OF room] ok by (auto simp: session_ok_def id_next_def)
  show ?thesis
  proof (cases "serialize_method_request sd ?i mname ps")
    case (Inl e)
    with ok issued show ?thesis
      by (auto simp: Let_def session_ok_def accounts_def ses_complete_def)
  next
    case (Inr p)
    with ok issued waiting_insert[OF _ fresh, of tx] show ?thesis
      by (auto simp: Let_def session_ok_def accounts_def ses_send_def)
  qed
qed

lemma session_step_accounts:
  assumes ok: "session_ok s"
    and room: "\<forall>m. ev = Sent m \<and> is_call m \<longrightarrow> 0 < ids_remaining (ses_ids s)"
  shows "session_ok (session_step sd ev s) \<and> accounts (session_step sd ev s) = accounts s + event_tokens ev"
proof (cases ev)
  case (Sent m)
  show ?thesis
  proof (cases m)
    case (Msg_RpcCall mname ps tx)
    with Sent room session_call_accounts[OF ok] show ?thesis by (simp add: event_tokens_def)
  qed (use ok Sent in \<open>auto simp: session_ok_def accounts_def event_tokens_def ses_send_def ses_complete_def
      split: sum.split option.split\<close>)
next
  case (Got out)
  with ok waiting_remove[of "ses_awaiting s" "output_id out"] show ?thesis
    by (auto simp: session_ok_def accounts_def event_tokens_def ses_complete_def split: option.split)
qed

lemma session_accounts:
  assumes "calls_made evs \<le> 2 ^ 64 - 2"
  shows "session_ok (session_of sd evs) \<and> accounts (session_of sd evs) = mset (tokens evs)"
  using assms
proof (induction evs rule: rev_induct)
  case Nil
  show ?case by (simp add: session_of_def session_new_def session_ok_def accounts_def)
next
  case (snoc ev evs)
  then have IH: "session_ok (session_of sd evs)" "accounts (session_of sd evs) = mset (tokens evs)" by simp_all
  have "0 < ids_remaining (ses_ids (session_of sd evs))" if "ev = Sent m" "is_call m" for m
    using snoc.prems that session_ids_left[of evs sd] by simp
  then have "\<forall>m. ev = Sent m \<and> is_call m \<longrightarrow> 0 < ids_remaining (ses_ids (session_of sd evs))" by blast
  from session_step_accounts[OF IH(1) this, of sd] IH(2) show ?case
    by (cases ev) (auto simp: event_tokens_def split: option.split)
qed

text \<open>A call waits under its own id until the response with that id arrives.\<close>

definition answers_to :: "rpc_id \<Rightarrow> session_event \<Rightarrow> bool" where
  "answers_to i ev = (case ev of Got out \<Rightarrow> jsonrpc out = Some V2 \<and> output_id out = i | Sent _ \<Rightarrow> False)"

definition call_id :: "session_event list \<Rightarrow> rpc_id" where
  "call_id evs = Id_Num (of_nat (Suc (calls_made evs)))"

lemma session_awaits:
  assumes ser: "serialize_method_request sd (call_id evs) mname ps = Inr p"
    and "calls_made (evs @ Sent (Msg_RpcCall mname ps tx) # evs') \<le> 2 ^ 64 - 2"
    and "\<not> list_ex (answers_to (call_id evs)) evs'"
  shows "ses_awaiting (session_of sd (evs @ Sent (Msg_RpcCall mname ps tx) # evs')) (call_id evs) = Some tx"
  using assms(2,3)
proof (induction evs' rule: rev_induct)
  case Nil
  with ser show ?case by (simp add: Let_def session_next_id ses_send_def call_id_def)
next
  case (snoc ev evs')
  let ?evs = "evs @ Sent (Msg_RpcCall mname ps tx) # evs'"
  from snoc have IH: "ses_awaiting (session_of sd ?evs) (call_id evs) = Some tx" by simp
  have new: "Id_Num (next_id (ses_ids (session_of sd ?evs))) \<noteq> call_id evs" if "ev = Sent m" "is_call m" for m
  proof -
    have "Suc (calls_made ?evs) < 2 ^ 64" "Suc (calls_made evs) < 2 ^ 64" "calls_made evs < calls_made ?evs"
      using snoc.prems(1) that by simp_all
    then have "(of_nat (Suc (calls_made ?evs)) :: u64) \<noteq> of_nat (Suc (calls_made evs))"
      by (metis unat_call_number nat_less_le nat.inject)
    then show ?thesis by (simp only: session_next_id call_id_def rpc_id.inject not_False_eq_True)
  qed
  have "session_of sd (?evs @ [ev]) = session_step sd ev (session_of sd ?evs)" by (rule session_of_snoc)
  moreover have "ses_awaiting (session_step sd ev (session_of sd ?evs)) (call_id evs) = Some tx"
  proof (cases ev)
    case (Sent m)
    show ?thesis
    proof (cases m)
      case (Msg_RpcCall mname' ps' tx')
      with new Sent IH show ?thesis
        by (simp add: Let_def ses_send_def ses_complete_def split: sum.split)
    qed (use IH Sent in \<open>auto simp: ses_send_def ses_complete_def split: sum.split option.split\<close>)
  next
    case (Got out)
    with IH snoc.prems(2) show ?thesis
      by (auto simp: answers_to_def ses_complete_def split: option.split)
  qed
  ultimately show ?case by simp
qed

lemma session_awaits_only:
  "ses_awaiting (session_of sd evs) i = Some tx \<Longrightarrow>
     \<exists>evs1 mname ps evs2. evs = evs1 @ Sent (Msg_RpcCall mname ps tx) # evs2
       \<and> i = call_id evs1 \<and> \<not> list_ex (answers_to i) evs2"
proof (induction evs rule: rev_induct)
  case Nil
  then show ?case by (simp add: session_of_def session_new_def)
next
  case (snoc ev evs)
  have later: ?case if "ses_awaiting (session_of sd evs) i = Some tx" "\<not> answers_to i ev"
  proof -
    from snoc.IH[OF that(1)] obtain evs1 mname ps evs2 where
      "evs = evs1 @ Sent (Msg_RpcCall mname ps tx) # evs2" "i = call_id evs1"
      "\<not> list_ex (answers_to i) evs2" by blast
    with that(2) show ?thesis
      by (intro exI[of _ evs1] exI[of _ mname] exI[of _ ps] exI[of _ "evs2 @ [ev]"]) simp
  qed
  show ?case
  proof (cases ev)
    case (Got out)
    with snoc.prems have "ses_awaiting (session_of sd evs) i = Some tx" "\<not> answers_to i ev"
      by (auto simp: answers_to_def ses_complete_def split: if_splits option.splits)
    then show ?thesis by (rule later)
  next
    case (Sent m)
    show ?thesis
    proof (cases "ses_awaiting (session_of sd evs) i = Some tx")
      case True
      then show ?thesis by (rule later) (simp add: answers_to_def Sent)
    next
      case False
      with snoc.prems Sent obtain mname ps where "m = Msg_RpcCall mname ps tx" "i = call_id evs"
        by (cases m) (auto simp: Let_def ses_send_def ses_complete_def session_next_id call_id_def
          split: sum.splits option.splits if_splits)
      with Sent show ?thesis by (intro exI[of _ evs] exI[of _ mname] exI[of _ ps] exI[of _ "[]"]) simp
    qed
  qed
qed

end
