(* ===== verification/Ipc_Transport.thy ===== *)
theory Ipc_Transport
  imports Client_Runs
begin

text \<open>
  \<open>ipc/src/lib.rs\<close>: a transport over a local socket. The crate's own code connects the socket and
  frames it with a codec; the connection and the framing are third-party code. What the client sees
  of them is a sink and a stream, given here by the answers they are going to give (\<open>framed\<close>), as for
  the channels. A sink that refuses a payload hands the same payload back, which is what \<open>Sink\<close>
  documents; \<open>sunk\<close> records the payloads it has taken.

  This is the provider of the client's transport contracts: \<open>transport_contract\<close> (its sink takes a payload
  or gives it back), \<open>dry_stream\<close> (its stream runs dry when finitely much arrives) and \<open>transport_source\<close> (its
  stream hands out what arrives on the socket).
\<close>

section \<open>Connecting\<close>

datatype separator = Separator_Empty | Separator_Byte "8 word"

text \<open>\<open>StreamCodec::new(incoming, outgoing)\<close>\<close>

record stream_codec =
  incoming_separator :: separator
  outgoing_separator :: separator

record 'conn ipc_transport =
  connection :: 'conn

definition ipc_transport_new ::
  "('path \<Rightarrow> 'handle \<Rightarrow> string + 'conn) \<Rightarrow> 'path \<Rightarrow> 'handle \<Rightarrow> string + 'conn ipc_transport" where
  "ipc_transport_new connect path handle =
     (case connect path handle of Inl e \<Rightarrow> Inl e | Inr conn \<Rightarrow> Inr \<lparr>connection = conn\<rparr>)"

text \<open>
  \<open>io_pair\<close>: \<open>framed\<close> is the third-party framing followed by \<open>split\<close>, \<open>default_separator\<close> the codec's
  default. Incoming JSON values need no separator, outgoing ones get the default one.
\<close>

definition ipc_io_pair ::
  "separator \<Rightarrow> ('conn \<Rightarrow> stream_codec \<Rightarrow> 'sink \<times> 'stream) \<Rightarrow> 'conn ipc_transport \<Rightarrow> 'sink \<times> 'stream" where
  "ipc_io_pair default_separator framed t =
     (let codec = \<lparr>incoming_separator = Separator_Empty, outgoing_separator = default_separator\<rparr>
      in framed (connection t) codec)"

section \<open>The connected transport\<close>

text \<open>
  What the framed socket is going to answer: to \<open>start_send\<close> an error or whether it takes the
  payload, to \<open>poll_complete\<close> and \<open>close\<close> whether it is done, and to \<open>poll\<close> the payloads that arrive.
\<close>

record framed =
  sink_answers :: "(string + bool) stream"
  flush_answers :: "(unit, string) poll stream"
  close_answers :: "(unit, string) poll stream"
  incoming :: "(string option, string) poll stream"
  sunk :: "string list"

definition framed_start_send :: "string \<Rightarrow> framed \<Rightarrow> (string + string async_sink) \<times> framed" where
  "framed_start_send p t =
     (let t' = t\<lparr>sink_answers := stl (sink_answers t)\<rparr> in
      case shd (sink_answers t) of
        Inl e \<Rightarrow> (Inl e, t')
      | Inr True \<Rightarrow> (Inr Sink_Ready, t'\<lparr>sunk := sunk t @ [p]\<rparr>)
      | Inr False \<Rightarrow> (Inr (Sink_NotReady p), t'))"

definition framed_ops :: "framed transport_ops" where
  "framed_ops =
     \<lparr>tx_start_send = framed_start_send,
      tx_poll_complete = (\<lambda>t. (shd (flush_answers t), t\<lparr>flush_answers := stl (flush_answers t)\<rparr>)),
      tx_close = (\<lambda>t. (shd (close_answers t), t\<lparr>close_answers := stl (close_answers t)\<rparr>)),
      rx_poll = (\<lambda>t. (shd (incoming t), t\<lparr>incoming := stl (incoming t)\<rparr>))\<rparr>"

lemma framed_ops_simps [simp]:
  "tx_start_send framed_ops = framed_start_send"
  "tx_poll_complete framed_ops t = (shd (flush_answers t), t\<lparr>flush_answers := stl (flush_answers t)\<rparr>)"
  "tx_close framed_ops t = (shd (close_answers t), t\<lparr>close_answers := stl (close_answers t)\<rparr>)"
  "rx_poll framed_ops t = (shd (incoming t), t\<lparr>incoming := stl (incoming t)\<rparr>)"
  by (simp_all add: framed_ops_def)

lemma framed_start_send_incoming [simp]: "incoming (snd (framed_start_send p t)) = incoming t"
  by (simp add: framed_start_send_def Let_def split: sum.split bool.split)

text \<open>A connection that takes everything, and to which \<open>rx\<close> arrives.\<close>

definition open_framed :: "(string option, string) poll stream \<Rightarrow> framed" where
  "open_framed rx =
     \<lparr>sink_answers = sconst (Inr True), flush_answers = sconst (Inr (Ready ())),
      close_answers = sconst (Inr (Ready ())), incoming = rx, sunk = []\<rparr>"

interpretation ipc: transport_contract framed_ops sunk
  by unfold_locales
    (auto simp: framed_start_send_def Let_def split: sum.splits bool.splits if_splits)

interpretation ipc_rx: dry_stream "rx_poll framed_ops" "\<lambda>t. finitely_many (incoming t)"
  "\<lambda>t. pending_items (incoming t)"
proof unfold_locales
  fix t t' :: framed and r
  assume "finitely_many (incoming t)" "rx_poll framed_ops t = (r, t')"
  then show "finitely_many (incoming t') \<and> pending_items (incoming t') \<le> pending_items (incoming t)"
    using pending_items_stl[of "incoming t"] by (auto simp: finitely_many_stl)
next
  fix t t' :: framed and i
  assume "finitely_many (incoming t)" "rx_poll framed_ops t = (Inr (Ready (Some i)), t')"
  then show "pending_items (incoming t') < pending_items (incoming t)"
    using pending_items_stl[of "incoming t"] pending_items_pos[of "incoming t"]
    by (auto simp: is_item_def)
qed

definition framed_heard :: "framed \<Rightarrow> framed \<Rightarrow> string list \<Rightarrow> bool" where
  "framed_heard t0 t ps \<longleftrightarrow>
     (\<exists>k. incoming t = sdrop k (incoming t0) \<and> ps = items_of (stake k (incoming t0)))"

lemma arrived_items: "arrived a = items_of [a]"
  by (cases a rule: poll_cases) simp_all

interpretation ipc_source: transport_source framed_ops framed_heard
proof unfold_locales
  fix t0 t t' :: framed and ps a
  assume "framed_heard t0 t ps" and a: "rx_poll framed_ops t = (a, t')"
  then obtain k where "incoming t = sdrop k (incoming t0)" "ps = items_of (stake k (incoming t0))"
    by (auto simp: framed_heard_def)
  with a have "a = snth (incoming t0) k" "incoming t' = sdrop (Suc k) (incoming t0)" by (auto simp: sdrop_simps)
  then have "incoming t' = sdrop (Suc k) (incoming t0)" "ps @ arrived a = items_of (stake (Suc k) (incoming t0))"
    unfolding \<open>ps = _\<close> items_of_stake_Suc arrived_items by simp_all
  then show "framed_heard t0 t' (ps @ arrived a)" unfolding framed_heard_def by blast
qed (auto simp: framed_heard_def intro: exI[of _ 0])

end
