(* ===== verification/Client_Progress.thy ===== *)
theory Client_Progress
  imports Client Ipc_Transport
begin

text \<open>
  A poll of the client returns and does not panic. The loops of the poll end because the transport's
  stream and the two channels run dry (\<open>dry_stream\<close>); the server half must keep the promise of
  \<open>server_contract\<close>, which \<open>Server\<close> does. \<open>succeeds\<close> is the total counterpart of \<open>yields\<close>.
\<close>

definition succeeds ::
  "(('a, 'e) outcome \<times> 's) option \<Rightarrow> (('a, 'e) outcome \<Rightarrow> 's \<Rightarrow> bool) \<Rightarrow> bool" where
  "succeeds m Q \<longleftrightarrow> (\<exists>r s. m = Some (r, s) \<and> r \<noteq> Panic \<and> Q r s)"

lemma succeeds_Some [simp]: "succeeds (Some (r, s)) Q \<longleftrightarrow> r \<noteq> Panic \<and> Q r s"
  by (simp add: succeeds_def)

lemma succeedsE: "succeeds m Q \<Longrightarrow> (\<And>r s. m = Some (r, s) \<Longrightarrow> r \<noteq> Panic \<Longrightarrow> Q r s \<Longrightarrow> thesis) \<Longrightarrow> thesis"
  by (auto simp: succeeds_def)

lemma succeeds_try_then:
  assumes "succeeds m P" "\<And>a s. P (Ret a) s \<Longrightarrow> succeeds (k a s) Q"
    and "\<And>e s. P (Raise e) s \<Longrightarrow> Q (Raise e) s"
  shows "succeeds (try_then m k) Q"
proof -
  from assms(1) obtain r s where "m = Some (r, s)" "r \<noteq> Panic" "P r s" by (rule succeedsE)
  with assms(2,3) show ?thesis by (cases r) simp_all
qed

lemma succeeds_loop:
  assumes "rust_loop body s = Some res" "I s"
    and "\<And>t u. I t \<Longrightarrow> body t = (Continue, u) \<Longrightarrow> I u"
    and "\<And>t u q. I t \<Longrightarrow> body t = (Return q, u) \<Longrightarrow> q \<noteq> Panic \<and> Q q u"
  shows "succeeds (rust_loop body s) Q"
proof -
  obtain r u where res: "res = (r, u)" by (cases res)
  have "r \<noteq> Panic \<and> Q r u"
    by (rule rust_loop_invariant[OF assms(1)[unfolded res], where I = I, OF assms(2)]) (use assms in blast)+
  with assms(1) res show ?thesis by simp
qed

section \<open>The contract of a server half\<close>

locale server_contract =
  fixes S :: "'s server_ops" and server_inv :: "'s \<Rightarrow> bool"
  assumes process_returns: "fst (sh_process_request S req tx s) \<noteq> Panic"
    and process_keeps: "server_inv s \<Longrightarrow> server_inv (snd (sh_process_request S req tx s))"
    and poll_returns: "server_inv s \<Longrightarrow>
      \<exists>r s'. sh_poll S s = Some (r, s') \<and> r \<noteq> Panic \<and> ((\<exists>a. r = Ret a) \<longrightarrow> server_inv s')"

text \<open>\<open>impl ServerHandler for Server\<close>\<close>

definition server_handler_ops :: "server server_ops" where
  "server_handler_ops = \<lparr>sh_process_request = process_request, sh_poll = server_poll\<rparr>"

interpretation server_half: server_contract server_handler_ops server_ok
proof unfold_locales
  fix req tx and s :: server
  obtain r s' where "process_request req tx s = (r, s')" by fastforce
  moreover from this have "r = Ret ()" by (cases rule: process_request_cases)
  ultimately show "fst (sh_process_request server_handler_ops req tx s) \<noteq> Panic"
    by (simp add: server_handler_ops_def)
  assume "server_ok s"
  with process_request_ok[OF this, of req tx] show "server_ok (snd (sh_process_request server_handler_ops req tx s))"
    by (auto simp: server_handler_ops_def)
next
  fix s :: server
  assume "server_ok s"
  with server_poll_total[OF this]
  show "\<exists>r s'. sh_poll server_handler_ops s = Some (r, s') \<and> r \<noteq> Panic \<and> ((\<exists>a. r = Ret a) \<longrightarrow> server_ok s')"
    by (auto simp: server_handler_ops_def)
qed

section \<open>The poll returns\<close>

locale live_client =
  server_contract S server_inv + rx: dry_stream "rx_poll T" live backlog
  for S :: "'s server_ops" and server_inv :: "'s \<Rightarrow> bool"
    and T :: "'t transport_ops" and live :: "'t \<Rightarrow> bool" and backlog :: "'t \<Rightarrow> nat" +
  assumes start_send_live: "live t \<Longrightarrow> live (snd (tx_start_send T p t))"
    and poll_complete_live: "live t \<Longrightarrow> live (snd (tx_poll_complete T t))"
    and close_live: "live t \<Longrightarrow> live (snd (tx_close T t))"
begin

definition alive :: "('t, 's) client \<Rightarrow> bool" where
  "alive c \<longleftrightarrow> live (transport c) \<and> queue_ok (outgoing_payload_rx c)
     \<and> (should_shut_down c \<or> server_inv (server_handler c))"

definition running :: "('t, 's) client \<Rightarrow> bool" where
  "running c \<longleftrightarrow> live (transport c) \<and> queue_ok (outgoing_payload_rx c) \<and> server_inv (server_handler c)"

text \<open>What is left after a failure: the server half may be broken.\<close>

definition stopping :: "('t, 's) client \<Rightarrow> bool" where
  "stopping c \<longleftrightarrow> live (transport c) \<and> queue_ok (outgoing_payload_rx c)"

definition ok_after :: "('a, core_error) outcome \<Rightarrow> ('t, 's) client \<Rightarrow> bool" where
  "ok_after r c \<longleftrightarrow> (case r of Ret _ \<Rightarrow> running c | Raise e \<Rightarrow> stopping c | Panic \<Rightarrow> False)"

lemma ok_after_simps [simp]:
  "ok_after (Ret a) c = running c" "ok_after (Raise e) c = stopping c"
  by (simp_all add: ok_after_def)

lemma running_stopping: "running c \<Longrightarrow> stopping c"
  by (simp add: running_def stopping_def)

lemma send_payload_returns:
  assumes "running c"
  shows "succeeds (Some (send_payload T p c)) ok_after"
proof -
  obtain a t where a: "tx_start_send T p (transport c) = (a, t)" by fastforce
  with assms start_send_live[of "transport c" p] have "live t" by (simp add: running_def)
  with a assms show ?thesis
    by (auto simp: send_payload_def running_def stopping_def split: sum.split async_sink.split)
qed

lemma handle_client_payload_returns:
  assumes "running c"
  shows "succeeds (Some (handle_client_payload sd T m c)) ok_after"
proof (cases m)
  case (Msg_RpcCall mname ps tx)
  with assms show ?thesis
    by (auto simp: Let_def id_next_def record_event_def complete_def add_new_call_def running_def
        split: sum.split intro!: send_payload_returns)
next
  case (Msg_Notification mname ps tx)
  with assms show ?thesis
    by (auto simp: Let_def record_event_def complete_def running_def
        split: sum.split intro!: send_payload_returns)
next
  case (Msg_Response response)
  with assms show ?thesis
    by (auto simp: Let_def record_event_def running_def stopping_def
        split: option.split intro!: send_payload_returns)
qed

lemma outgoing_turn_returns:
  assumes "running c" "outgoing_turn sd T c = (f, c')"
  shows "(f = Continue \<longrightarrow> running c'
            \<and> (\<exists>m. select_poll receiver_poll receiver_poll (outgoing_payload_rx c)
                 = (Inr (Ready (Some m)), outgoing_payload_rx c')))
       \<and> (\<forall>r. f = Return r \<longrightarrow> r \<noteq> Panic \<and> ok_after r c')"
proof (cases "pending_payload c = None")
  case False
  with assms show ?thesis by (auto simp: outgoing_turn_def)
next
  case True
  obtain a q where a: "select_poll receiver_poll receiver_poll (outgoing_payload_rx c) = (a, q)"
    by fastforce
  let ?c = "c\<lparr>outgoing_payload_rx := q\<rparr>"
  from queue_ok_poll[OF _ a] assms(1) have run: "running ?c" and "a \<noteq> Inl ()"
    by (simp_all add: running_def)
  show ?thesis
  proof (cases a rule: poll_cases)
    case (item m)
    obtain r c1 where h: "handle_client_payload sd T m ?c = (r, c1)" by fastforce
    from handle_client_payload_returns[OF run, of sd m] h have "r \<noteq> Panic" "ok_after r c1" by simp_all
    moreover have "outgoing_payload_rx c1 = q" using handle_client_payload_frame[OF h] by simp
    ultimately show ?thesis
      using assms(2) True a item h by (cases r) (auto simp: outgoing_turn_def)
  qed (use assms(2) True a run \<open>a \<noteq> Inl ()\<close> in
      \<open>auto simp: outgoing_turn_def intro: running_stopping\<close>)
qed

lemma poll_outgoing_messages_returns:
  assumes "running c"
  shows "succeeds (poll_outgoing_messages sd T c) ok_after"
proof -
  let ?dry = "\<lambda>d. finitely_many (strong (outgoing_payload_rx d)) \<and> finitely_many (weak (outgoing_payload_rx d))"
  have "\<exists>res. rust_loop (outgoing_turn sd T) c = Some res"
  proof (rule two_channels.merged.drain_returns[where I = running and src = outgoing_payload_rx])
    show "running c" by (rule assms)
    show "?dry c" using assms by (simp add: running_def queue_ok_def)
    fix d d' assume "running d" "outgoing_turn sd T d = (Continue, d')"
    from outgoing_turn_returns[OF this]
    show "running d' \<and> (\<exists>i s'. select_poll receiver_poll receiver_poll (outgoing_payload_rx d)
        = (Inr (Ready (Some i)), s') \<and> outgoing_payload_rx d' = s')" by blast
  qed
  then obtain res where "rust_loop (outgoing_turn sd T) c = Some res" ..
  then show ?thesis
    unfolding poll_outgoing_messages_def
    by (rule succeeds_loop[where I = running]) (use assms outgoing_turn_returns in blast)+
qed

lemma handle_response_returns: "fst (handle_response out c) \<noteq> Panic"
  by (auto simp: handle_response_def Let_def split: option.split)

lemma handle_transport_rx_payload_returns:
  assumes "handle_transport_rx_payload sd S p c = (r, c')"
  shows "r \<noteq> Panic" "server_inv (server_handler c) \<Longrightarrow> server_inv (server_handler c')"
proof -
  have "r \<noteq> Panic \<and> (server_inv (server_handler c) \<longrightarrow> server_inv (server_handler c'))"
  proof (cases "parse_incoming sd p")
    case None
    with assms show ?thesis by (auto simp: handle_transport_rx_payload_def)
  next
    case (Some m)
    show ?thesis
    proof (cases m)
      case (Incoming_Response out)
      with Some assms have "handle_response out c = (r, c')" by (simp add: handle_transport_rx_payload_def)
      with handle_response_returns[of out c] handle_response_frame[OF this] show ?thesis by auto
    next
      case (Incoming_Request req)
      obtain q s where q: "sh_process_request S req (shd (server_response_tx c)) (server_handler c) = (q, s)"
        by fastforce
      with process_returns[of req "shd (server_response_tx c)" "server_handler c"]
        process_keeps[of "server_handler c" req "shd (server_response_tx c)"] Some Incoming_Request assms
      show ?thesis by (auto simp: handle_transport_rx_payload_def)
    qed
  qed
  then show "r \<noteq> Panic" "server_inv (server_handler c) \<Longrightarrow> server_inv (server_handler c')" by blast+
qed

lemma transport_rx_turn_returns:
  assumes "live (transport c)" "transport_rx_turn sd T S c = (f, c')"
  shows "live (transport c') \<and> (server_inv (server_handler c) \<longrightarrow> server_inv (server_handler c'))
    \<and> (f = Continue \<longrightarrow> (\<exists>p. rx_poll T (transport c) = (Inr (Ready (Some p)), transport c')))
    \<and> f \<noteq> Return Panic"
proof -
  obtain a t where a: "rx_poll T (transport c) = (a, t)" by fastforce
  with rx.poll_keeps[OF assms(1) a] have live: "live t" by simp
  show ?thesis
  proof (cases a rule: poll_cases)
    case (item p)
    obtain r c1 where h: "handle_transport_rx_payload sd S p (c\<lparr>transport := t\<rparr>) = (r, c1)" by fastforce
    from handle_transport_rx_payload_frame[OF h] handle_transport_rx_payload_returns[OF h] live assms a item h
    show ?thesis by (cases r) (auto simp: transport_rx_turn_def)
  qed (use assms a live in \<open>auto simp: transport_rx_turn_def\<close>)
qed

lemma poll_transport_rx_returns:
  assumes "live (transport c)"
  shows "succeeds (poll_transport_rx sd T S c)
    (\<lambda>_ c'. live (transport c') \<and> (server_inv (server_handler c) \<longrightarrow> server_inv (server_handler c'))
       \<and> outgoing_payload_rx c' = outgoing_payload_rx c)"
proof -
  let ?I = "\<lambda>d. live (transport d) \<and> (server_inv (server_handler c) \<longrightarrow> server_inv (server_handler d))
     \<and> outgoing_payload_rx d = outgoing_payload_rx c"
  have "\<exists>res. rust_loop (transport_rx_turn sd T S) c = Some res"
    by (rule rx.drain_returns[where I = "\<lambda>_. True" and src = transport])
      (use assms transport_rx_turn_returns in \<open>simp, simp, blast\<close>)
  then obtain res where "rust_loop (transport_rx_turn sd T S) c = Some res" ..
  then show ?thesis
    unfolding poll_transport_rx_def
    by (rule succeeds_loop[where I = ?I])
      (use assms transport_rx_turn_returns transport_rx_turn_frame in \<open>simp, (metis flow.inject)+\<close>)
qed

lemma resend_pending_returns:
  assumes "running c"
  shows "succeeds (Some (resend_pending T c)) ok_after"
proof (cases "pending_payload c")
  case (Some p)
  have "running (c\<lparr>pending_payload := None\<rparr>)" using assms by (simp add: running_def)
  from send_payload_returns[OF this, of p] Some show ?thesis by (simp add: resend_pending_def)
qed (use assms in \<open>simp add: resend_pending_def\<close>)

lemma poll_server_returns:
  assumes "running c"
  shows "succeeds (poll_server S c) ok_after"
proof (cases "shutting_down c")
  case False
  from assms poll_returns[of "server_handler c"] obtain r s' where
    "sh_poll S (server_handler c) = Some (r, s')" "r \<noteq> Panic" "(\<exists>a. r = Ret a) \<longrightarrow> server_inv s'"
    by (auto simp: running_def)
  with False assms show ?thesis
    by (cases r rule: answer_cases) (auto simp: poll_server_def running_def stopping_def)
qed (use assms in \<open>simp add: poll_server_def\<close>)

lemma poll_transport_tx_returns:
  assumes "running c"
  shows "succeeds (Some (poll_transport_tx T c)) ok_after"
proof -
  obtain a t where a: "tx_poll_complete T (transport c) = (a, t)" by fastforce
  with assms poll_complete_live[of "transport c"] have "live t" by (simp add: running_def)
  with a assms show ?thesis
    by (auto simp: poll_transport_tx_def running_def stopping_def split: sum.split)
qed

lemma then_returns:
  assumes "succeeds m ok_after" "\<And>a c. running c \<Longrightarrow> succeeds (k a c) ok_after"
  shows "succeeds (try_then m k) ok_after"
  by (rule succeeds_try_then[OF assms(1)]) (use assms(2) in simp_all)

lemma poll_transport_rx_ok_after:
  assumes "running c"
  shows "succeeds (poll_transport_rx sd T S c) ok_after"
proof -
  from assms have "live (transport c)" by (simp add: running_def)
  from poll_transport_rx_returns[OF this] show ?thesis
  proof (rule succeedsE)
    fix r c'
    assume "poll_transport_rx sd T S c = Some (r, c')" "r \<noteq> Panic"
      "live (transport c') \<and> (server_inv (server_handler c) \<longrightarrow> server_inv (server_handler c'))
       \<and> outgoing_payload_rx c' = outgoing_payload_rx c"
    with assms show ?thesis by (cases r) (auto simp: running_def stopping_def)
  qed
qed

lemma handle_messages_returns:
  assumes "running c"
  shows "succeeds (handle_messages sd T S c) ok_after"
  unfolding handle_messages_def
  by (intro then_returns resend_pending_returns poll_server_returns poll_transport_rx_ok_after
      poll_outgoing_messages_returns poll_transport_tx_returns assms)

lemma handle_shutdown_returns:
  assumes "stopping c"
  shows "succeeds (handle_shutdown sd T S c) (\<lambda>r c'. stopping c' \<and> (r = Ret NotReady \<longrightarrow> fatal_error c' = fatal_error c))"
proof -
  from assms have "live (transport c)" by (simp add: stopping_def)
  from poll_transport_rx_returns[OF this] obtain r c1 where
    r: "poll_transport_rx sd T S c = Some (r, c1)" "r \<noteq> Panic" "live (transport c1)"
    "outgoing_payload_rx c1 = outgoing_payload_rx c"
    by (rule succeedsE) blast
  obtain a t where a: "tx_close T (transport c1) = (a, t)" by fastforce
  with close_live[OF r(3)] have "live t" by simp
  with a r assms poll_transport_rx_fatal[OF r(1)] show ?thesis
    by (auto simp: handle_shutdown_def stopping_def split: outcome.split sum.split async.split option.split)
qed

lemma client_poll_returns:
  assumes "alive c"
  shows "\<exists>r c'. client_poll sd T S c = Some (r, c') \<and> r \<noteq> Panic \<and> (r = Ret NotReady \<longrightarrow> alive c')"
proof -
  have stop: "\<exists>r c'. handle_shutdown sd T S d = Some (r, c') \<and> r \<noteq> Panic \<and> (r = Ret NotReady \<longrightarrow> alive c')"
    if d: "stopping d" "should_shut_down d" for d
  proof -
    from handle_shutdown_returns[OF d(1)] obtain r c' where h: "handle_shutdown sd T S d = Some (r, c')"
      "r \<noteq> Panic" "stopping c'" "r = Ret NotReady \<longrightarrow> fatal_error c' = fatal_error d"
      by (rule succeedsE) blast
    with handle_shutdown_flag[OF h(1)] d(2) show ?thesis
      by (auto simp: alive_def stopping_def should_shut_down_def)
  qed
  show ?thesis
  proof (cases "should_shut_down c")
    case True
    with assms stop[of c] show ?thesis by (simp add: client_poll_def alive_def stopping_def)
  next
    case False
    with assms have "running c" by (simp add: alive_def running_def)
    from handle_messages_returns[OF this] obtain r c1 where h: "handle_messages sd T S c = Some (r, c1)"
      "r \<noteq> Panic" "ok_after r c1" by (rule succeedsE) blast
    show ?thesis
    proof (cases r)
      case (Ret a)
      with h False show ?thesis by (auto simp: client_poll_def alive_def running_def)
    next
      case (Raise e)
      let ?d = "if e = Shutdown then c1\<lparr>shutting_down := True\<rparr> else c1\<lparr>fatal_error := Some e\<rparr>"
      have "stopping ?d" "should_shut_down ?d"
        using h(3) Raise by (simp_all add: stopping_def should_shut_down_def)
      from stop[OF this] h False Raise show ?thesis by (cases e) (auto simp: client_poll_def)
    qed (use h in simp)
  qed
qed

end

interpretation ipc_client: live_client server_handler_ops server_ok framed_ops
  "\<lambda>t. finitely_many (incoming t)" "\<lambda>t. pending_items (incoming t)"
  by unfold_locales simp_all

end
