(* ===== verification/Client_Properties.thy ===== *)
theory Client_Properties
  imports Client_Session Client_Progress
begin

text \<open>
  The properties of the client as a whole, over its polls: what it puts on the wire and what it answers
  to its handles is what the session specification says (\<open>client_refines_session\<close>), every completion
  channel is accounted for, responses reach their calls in any order, back pressure and shutdown, and
  that a poll returns. They are stated for any transport and any server half that keep their
  contracts; the witnesses run the client on the transport of \<open>Ipc_Transport\<close> and the server half
  of \<open>Server\<close>.
\<close>

section \<open>An example run\<close>

text \<open>
  One call, \<open>add\<close> with completion channel 7; the response to it arrives at the second poll.
\<close>

definition demo_serde :: serde where
  "demo_serde =
     \<lparr>to_value_params = params_value, to_string_call = (\<lambda>mc. Some (mc_method mc)),
      to_string_notification = (\<lambda>n. Some (n_method n)), to_string_response = (\<lambda>_. Some ''response''),
      from_str_output = (\<lambda>s. if s = ''true'' then Some (Output_Success (Some V2) (JBool True) (Id_Num 1)) else None),
      from_str_request = (\<lambda>_. None)\<rparr>"

definition demo_call :: outgoing_message where
  "demo_call = Msg_RpcCall ''add'' None 7"

definition demo_calls :: "outgoing_message receiver" where
  "demo_calls = Inr (Ready (Some demo_call)) ## sconst (Inr NotReady)"

definition demo_client :: "(framed, server) client" where
  "demo_client = new_with_server demo_calls (sconst (Inr NotReady)) (sconst (\<lambda>_. never))
     (open_framed (Inr NotReady ## Inr (Ready (Some ''true'')) ## sconst (Inr NotReady))) idle_server"

definition demo_client1 :: "(framed, server) client" where
  "demo_client1 = demo_client
     \<lparr>outgoing_payload_rx := \<lparr>strong = sconst (Inr NotReady), weak = sconst (Inr NotReady),
        use_strong = False, weak_done = False\<rparr>,
      id_generator := \<lparr>next_id = 2\<rparr>, pending_client_requests := [Id_Num 1 \<mapsto> 7],
      transport := (open_framed (Inr (Ready (Some ''true'')) ## sconst (Inr NotReady)))\<lparr>sunk := [''add'']\<rparr>,
      history := [Sent demo_call]\<rparr>"

definition demo_client2 :: "(framed, server) client" where
  "demo_client2 = demo_client1
     \<lparr>outgoing_payload_rx := \<lparr>strong = sconst (Inr NotReady), weak = sconst (Inr NotReady),
        use_strong = True, weak_done = False\<rparr>,
      pending_client_requests := Map.empty,
      transport := (open_framed (sconst (Inr NotReady)))\<lparr>sunk := [''add'']\<rparr>,
      completions := [(7, Call_result (Inr (JBool True)))],
      history := [Sent demo_call, Got (Output_Success (Some V2) (JBool True) (Id_Num 1))]\<rparr>"

lemmas poll_defs = client_poll_def handle_messages_def resend_pending_def poll_server_def
  poll_transport_rx_def poll_outgoing_messages_def poll_transport_tx_def handle_shutdown_def
  transport_rx_turn_def outgoing_turn_def should_shut_down_def send_payload_def framed_start_send_def
  handle_transport_rx_payload_def handle_response_def parse_incoming_def complete_def record_event_def
  add_new_call_def Let_def id_next_def serialize_method_request_def serialize_parameters_def
  select_poll_eq receiver_poll_def server_handler_ops_def

lemmas demo_defs = demo_client_def demo_client1_def demo_client2_def demo_serde_def demo_call_def
  demo_calls_def new_with_server_def open_framed_def id_generator_new_def select_with_weak_def

lemma idle_server_poll [simp]: "server_poll idle_server = Some (Ret NotReady, idle_server)"
  by (simp add: server_poll_def drain_handler_chan_def idle_server_def server_new_def
      rust_loop.simps[of drain_turn] drain_turn_def receiver_poll_def remove_finished_def)

lemma demo_poll1: "client_poll demo_serde framed_ops server_handler_ops demo_client = Some (Ret NotReady, demo_client1)"
  by (simp add: demo_defs poll_defs, (subst rust_loop.simps, simp add: demo_defs poll_defs)+)

lemma demo_poll2: "client_poll demo_serde framed_ops server_handler_ops demo_client1 = Some (Ret NotReady, demo_client2)"
  by (simp add: demo_defs poll_defs, (subst rust_loop.simps, simp add: demo_defs poll_defs)+)

lemma demo_run:
  "client_run demo_serde framed_ops server_handler_ops demo_client (Ret NotReady) demo_client1"
  "client_run demo_serde framed_ops server_handler_ops demo_client (Ret NotReady) demo_client2"
  using client_run.run_poll demo_poll1 demo_poll2 client_run.run_start by metis+

lemma demo_new: "demo_client = new_with_server demo_calls (sconst (Inr NotReady)) (sconst (\<lambda>_. never))
     (open_framed (Inr NotReady ## Inr (Ready (Some ''true'')) ## sconst (Inr NotReady))) idle_server"
  by (simp add: demo_client_def)

lemma demo_fields [simp]:
  "fatal_error demo_client2 = None" "sent_msgs (history demo_client2) = [demo_call]"
  "sunk (open_framed rx) = []"
  by (simp_all add: demo_defs)

section \<open>The client implements the session\<close>

lemma run_of_new:
  assumes "transport_contract T accepted" "accepted t = []"
    and "client_run sd T S (new_with_server rx1 rx2 rtx t s) r c"
  shows "transport_contract.run_state accepted sd r c"
  by (rule transport_contract.client_run_state[OF assms(1,3)], rule implements_new, rule assms(2))

lemma run_of_new_implements:
  assumes "transport_contract T accepted" "accepted t = []"
    and "client_run sd T S (new_with_server rx1 rx2 rtx t s) r c" "r \<noteq> Panic"
  obtains lost where "implements sd accepted lost c"
  using run_of_new[OF assms(1-3)] assms(4)
  unfolding transport_contract.run_state_def[OF assms(1)] by blast



text \<open>C7: No call is forgotten and none is answered twice: as long as fewer than \<open>2 ^ 64 - 1\<close> calls
  were made (after that the ids wrap around), the completion channels of all messages taken from the
  handles are, counted with their multiplicity, the channels that have been completed and the
  channels that are still waiting under their call's id.\<close>

theorem completions_conserved:
  assumes "transport_contract T accepted" and "accepted t = []"
    and "client_run sd T S (new_with_server rx1 rx2 rtx t s) r c" and "r \<noteq> Panic"
    and "calls_made (history c) \<le> 2 ^ 64 - 2"
  shows "mset (tokens (history c)) = mset (map fst (completions c)) + waiting (pending_client_requests c)"
proof -
  obtain lost where "implements sd accepted lost c" by (rule run_of_new_implements[OF assms(1-4)])
  with session_accounts[OF assms(5), of sd] show ?thesis
    by (simp add: implements_def accounts_def Let_def)
qed

theorem completions_conserved_witness:
  "mset (tokens (history demo_client1)) = mset (map fst (completions demo_client1))
     + waiting (pending_client_requests demo_client1)"
  using completions_conserved[OF ipc.transport_contract_axioms _ demo_run(1)[unfolded demo_new]]
  by (auto simp: demo_defs)

text \<open>Responses may come in any order and still reach their calls: the response whose id is the one
  that the \<open>n\<close>th call was sent with (ids count the calls from 1) completes the channel of that call, with
  the result or the error it carries, and the call stops waiting; other responses received in the
  meantime do not matter.\<close>

lemma response_completes_its_call:
  assumes "transport_contract T accepted" and "accepted t = []"
    and "client_run sd T S (new_with_server rx1 rx2 rtx t s) r c" and "r \<noteq> Panic"
    and "history c = evs @ Sent (Msg_RpcCall mname ps tx) # evs'"
    and "calls_made (history c) \<le> 2 ^ 64 - 2"
    and "serialize_method_request sd (call_id evs) mname ps = Inr p"
    and "\<not> list_ex (answers_to (call_id evs)) evs'"
    and "jsonrpc out = Some V2" and "output_id out = call_id evs"
  shows "\<exists>c'. handle_response out c = (Ret (), c')
    \<and> completions c' = completions c @ [(tx, Call_result (output_result out))]
    \<and> pending_client_requests c' = (pending_client_requests c)(call_id evs := None)"
proof -
  obtain lost where "implements sd accepted lost c" by (rule run_of_new_implements[OF assms(1-4)])
  then have "pending_client_requests c = ses_awaiting (session_of sd (history c))"
    by (simp add: implements_def Let_def)
  with session_awaits[OF assms(7,6)[unfolded assms(5)] assms(8)]
  have "pending_client_requests c (call_id evs) = Some tx" by (simp only: assms(5))
  with assms(9,10) show ?thesis
    by (simp add: handle_response_def Let_def record_event_def complete_def)
qed

lemma response_completes_its_call_example:
  "\<exists>c'. handle_response (Output_Success (Some V2) (JBool True) (Id_Num 1)) demo_client1 = (Ret (), c')
    \<and> completions c' = [(7, Call_result (Inr (JBool True)))]"
proof -
  have h: "history demo_client1 = [] @ Sent (Msg_RpcCall ''add'' None 7) # []"
    and c: "calls_made (history demo_client1) \<le> 2 ^ 64 - 2"
    and s: "serialize_method_request demo_serde (call_id []) ''add'' None = Inr ''add''"
    by (simp_all add: demo_defs call_id_def serialize_method_request_def serialize_parameters_def)
  have a: "sunk (open_framed (Inr NotReady ## Inr (Ready (Some ''true'')) ## sconst (Inr NotReady))) = []"
    by (simp add: open_framed_def)
  from response_completes_its_call[OF ipc.transport_contract_axioms a demo_run(1)[unfolded demo_new] _ h c s,
      of "Output_Success (Some V2) (JBool True) (Id_Num 1)"]
  show ?thesis by (simp add: call_id_def demo_defs) blast
qed

text \<open>C27: Stray responses. A response with version 2.0 that is not the first one to a call the client
  has made (its id was never used, or the call has been answered already) is dropped without any effect:
  it completes nothing and no call stops waiting. A response without version 2.0 is an error,
  \<open>InvalidVersion\<close>, which also leaves the calls alone.\<close>

theorem stray_responses:
  assumes "transport_contract T accepted" and "accepted t = []"
    and "client_run sd T S (new_with_server rx1 rx2 rtx t s) r c" and "r \<noteq> Panic"
    and "jsonrpc out \<noteq> Some V2
      \<or> (\<forall>evs mname ps tx evs'. history c = evs @ Sent (Msg_RpcCall mname ps tx) # evs'
            \<and> output_id out = call_id evs \<longrightarrow> list_ex (answers_to (output_id out)) evs')"
  shows "handle_response out c =
    (if jsonrpc out = Some V2 then Ret () else Raise InvalidVersion, record_event (Got out) c)"
proof (cases "jsonrpc out = Some V2")
  case True
  obtain lost where "implements sd accepted lost c" by (rule run_of_new_implements[OF assms(1-4)])
  then have "pending_client_requests c = ses_awaiting (session_of sd (history c))"
    by (simp add: implements_def Let_def)
  with session_awaits_only[of sd "history c" "output_id out"] assms(5) True
  have "pending_client_requests c (output_id out) = None"
    by (cases "pending_client_requests c (output_id out)") (simp, metis)
  with True show ?thesis by (simp add: handle_response_def Let_def record_event_def)
qed (simp add: handle_response_def Let_def)

lemma demo_history2: "history demo_client2 = [Sent demo_call, Got (Output_Success (Some V2) (JBool True) (Id_Num 1))]"
  by (simp add: demo_defs)

theorem stray_responses_witness:
  "handle_response (Output_Success (Some V2) JNull (Id_Num 1)) demo_client2
     = (Ret (), record_event (Got (Output_Success (Some V2) JNull (Id_Num 1))) demo_client2)"
proof -
  let ?out = "Output_Success (Some V2) JNull (Id_Num 1)"
  have answered: "list_ex (answers_to (Id_Num 1)) evs'"
    if "history demo_client2 = evs @ Sent (Msg_RpcCall mname ps tx) # evs'" for evs mname ps tx evs'
  proof -
    from that have "evs = [] \<and> evs' = [Got (Output_Success (Some V2) (JBool True) (Id_Num 1))]"
      unfolding demo_history2 by (cases evs; cases "tl evs") auto
    then show ?thesis by (simp add: answers_to_def)
  qed
  have "jsonrpc ?out \<noteq> Some V2 \<or> (\<forall>evs mname ps tx evs'. history demo_client2
      = evs @ Sent (Msg_RpcCall mname ps tx) # evs' \<and> output_id ?out = call_id evs
      \<longrightarrow> list_ex (answers_to (output_id ?out)) evs')"
    using answered unfolding rpc_output.sel by blast
  from stray_responses[OF ipc.transport_contract_axioms _ demo_run(2)[unfolded demo_new] _ this]
  show ?thesis by simp
qed

section \<open>Back pressure, shutdown, errors\<close>

lemma transport_rx_turn_sent:
  assumes "transport_rx_turn sd T S c = (f, c')"
  shows "sent_msgs (history c') = sent_msgs (history c)"
proof -
  obtain a t where a: "rx_poll T (transport c) = (a, t)" by fastforce
  show ?thesis
  proof (cases a rule: poll_cases)
    case (item p)
    obtain r c1 where h: "handle_transport_rx_payload sd S p (c\<lparr>transport := t\<rparr>) = (r, c1)" by fastforce
    have "sent_msgs (history c1) = sent_msgs (history c)"
    proof (cases "\<exists>out. parse_incoming sd p = Some (Incoming_Response out)")
      case True
      with h obtain out where "handle_response out (c\<lparr>transport := t\<rparr>) = (r, c1)"
        by (auto simp: handle_transport_rx_payload_def)
      from handle_response_history[OF this] show ?thesis by simp
    next
      case False
      with h show ?thesis
        by (auto simp: handle_transport_rx_payload_def
            split: option.splits incoming_message.splits prod.splits)
    qed
    with assms a item h show ?thesis by (cases r) (auto simp: transport_rx_turn_def)
  qed (use assms a in \<open>auto simp: transport_rx_turn_def\<close>)
qed

lemma poll_transport_rx_sent:
  "poll_transport_rx sd T S c = Some (r, c') \<Longrightarrow> sent_msgs (history c') = sent_msgs (history c)"
  unfolding poll_transport_rx_def
  by (rule rust_loop_invariant[where I = "\<lambda>d. sent_msgs (history d) = sent_msgs (history c)"], assumption)
    (use transport_rx_turn_sent in \<open>simp, metis+\<close>)

text \<open>What no poll takes from the handles and leaves to be sent later.\<close>

definition same_intake :: "('t, 's) client \<Rightarrow> ('t, 's) client \<Rightarrow> bool" where
  "same_intake c c' \<longleftrightarrow> outgoing_payload_rx c' = outgoing_payload_rx c
     \<and> pending_payload c' = pending_payload c \<and> sent_msgs (history c') = sent_msgs (history c)"

lemma same_intake_refl [simp]: "same_intake c c"
  by (simp add: same_intake_def)

lemma same_intake_trans: "same_intake a b \<Longrightarrow> same_intake b c \<Longrightarrow> same_intake a c"
  by (simp add: same_intake_def)

lemma poll_transport_rx_intake: "poll_transport_rx sd T S c = Some (r, c') \<Longrightarrow> same_intake c c'"
  using poll_transport_rx_frame[of sd T S c r c'] poll_transport_rx_sent[of sd T S c r c']
  by (simp add: same_intake_def)

lemma handle_shutdown_intake:
  assumes "handle_shutdown sd T S c = Some (r, c')"
  shows "same_intake c c' \<and> shutting_down c' = shutting_down c
     \<and> (r = Ret NotReady \<longrightarrow> fatal_error c' = fatal_error c)
     \<and> (r = Ret (Ready ()) \<longrightarrow> fatal_error c = None) \<and> (\<forall>e. r = Raise e \<longrightarrow> fatal_error c = Some e)"
proof -
  from assms obtain q c1 where q: "poll_transport_rx sd T S c = Some (q, c1)"
    by (auto simp: handle_shutdown_def split: option.splits)
  obtain a t where a: "tx_close T (transport c1) = (a, t)" by fastforce
  from assms q a poll_transport_rx_intake[OF q] poll_transport_rx_frame[OF q] show ?thesis
    by (auto simp: handle_shutdown_def same_intake_def
        split: outcome.splits sum.splits async.splits option.splits)
qed

lemma poll_outgoing_full:
  "pending_payload c \<noteq> None \<Longrightarrow> poll_outgoing_messages sd T c = Some (Ret (), c)"
  unfolding poll_outgoing_messages_def by (rule rust_loop_Return) (simp add: outgoing_turn_def)

lemma same_intake_frames:
  "poll_server S c = Some (r, c') \<Longrightarrow> same_intake c c'"
  "poll_transport_tx T c = (r, c') \<Longrightarrow> same_intake c c'"
  using poll_server_frame[of S c r c'] poll_transport_tx_frame[of T c r c'] by (simp_all add: same_intake_def)

lemma poll_outgoing_intake:
  "pending_payload c = Some p \<Longrightarrow> poll_outgoing_messages sd T c = Some (r, c') \<Longrightarrow> same_intake c c'"
  by (simp add: poll_outgoing_full)

lemma then_intake:
  "(\<And>r c'. m d = Some (r, c') \<Longrightarrow> same_intake d c') \<Longrightarrow> same_intake c d \<Longrightarrow> yields (m d) (\<lambda>_. same_intake c)"
  by (rule yieldsI) (blast intro: same_intake_trans)

lemma handle_messages_refused:
  assumes "fatal_error c = None" "pending_payload c = Some p"
    and refused: "tx_start_send T p (transport c) = (Inr (Sink_NotReady p), t)"
  shows "yields (handle_messages sd T S c) (\<lambda>_. same_intake c)"
proof -
  have "resend_pending T c = (Ret (), c\<lparr>pending_payload := Some p, transport := t\<rparr>)"
    using assms by (simp add: resend_pending_def send_payload_def)
  then have 1: "yields (Some (resend_pending T c)) (\<lambda>_. same_intake c)"
    using assms(2) by (simp add: same_intake_def)
  have 4: "yields (poll_outgoing_messages sd T d) (\<lambda>_. same_intake c)" if "same_intake c d" for d
    using that assms(2) by (simp add: poll_outgoing_full same_intake_def)
  show ?thesis
    unfolding handle_messages_def
    by (intro yields_try_then_inv 1 4)
      (auto intro!: then_intake[where m = "poll_server S"] then_intake[where m = "poll_transport_rx sd T S"]
        then_intake[where m = "\<lambda>d. Some (poll_transport_tx T d)"]
        intro: same_intake_frames poll_transport_rx_intake)
qed

text \<open>C24: Back pressure. While the transport refuses the payload the client holds, a poll takes no message
  from the handles or from the server half and keeps that payload, whatever else it does.\<close>

theorem back_pressure:
  assumes "pending_payload c = Some p"
    and "tx_start_send T p (transport c) = (Inr (Sink_NotReady p), t)"
    and "client_poll sd T S c = Some (r, c')"
  shows "outgoing_payload_rx c' = outgoing_payload_rx c \<and> pending_payload c' = Some p
    \<and> sent_msgs (history c') = sent_msgs (history c)"
proof -
  have "same_intake c c'"
  proof (cases "should_shut_down c")
    case True
    with assms(3) have "handle_shutdown sd T S c = Some (r, c')" by (simp add: client_poll_def)
    from handle_shutdown_intake[OF this] show ?thesis by blast
  next
    case False
    then have "fatal_error c = None" by (simp add: should_shut_down_def)
    from handle_messages_refused[OF this assms(1,2)]
    have m: "yields (handle_messages sd T S c) (\<lambda>_. same_intake c)" .
    from False assms(3) obtain q c1 where q: "handle_messages sd T S c = Some (q, c1)"
      by (auto simp: client_poll_def split: option.splits)
    with m have c1: "same_intake c c1" by simp
    show ?thesis
    proof (cases q)
      case (Raise e)
      let ?d = "if e = Shutdown then c1\<lparr>shutting_down := True\<rparr> else c1\<lparr>fatal_error := Some e\<rparr>"
      from Raise q False assms(3) have "handle_shutdown sd T S ?d = Some (r, c')"
        by (cases e) (auto simp: client_poll_def)
      from handle_shutdown_intake[OF this] c1 show ?thesis by (auto simp: same_intake_def split: if_splits)
    qed (use False q assms(3) c1 in \<open>auto simp: client_poll_def\<close>)
  qed
  with assms(1) show ?thesis by (simp add: same_intake_def)
qed

definition full_client :: "(framed, server) client" where
  "full_client = demo_client\<lparr>pending_payload := Some ''x'',
     transport := (open_framed (sconst (Inr NotReady)))\<lparr>sink_answers := sconst (Inr False)\<rparr>\<rparr>"

lemma demo_alive:
  "ipc_client.alive demo_client" "ipc_client.alive full_client" "ipc_client.alive demo_client1"
  by (simp_all add: ipc_client.alive_def full_client_def demo_defs queue_ok_def is_item_def)

theorem back_pressure_witness:
  "\<exists>r c'. client_poll demo_serde framed_ops server_handler_ops full_client = Some (r, c')
     \<and> outgoing_payload_rx c' = outgoing_payload_rx demo_client \<and> pending_payload c' = Some ''x''"
proof -
  from ipc_client.client_poll_returns[OF demo_alive(2)] obtain r c' where
    poll: "client_poll demo_serde framed_ops server_handler_ops full_client = Some (r, c')" by blast
  have "pending_payload full_client = Some ''x''"
    and "tx_start_send framed_ops ''x'' (transport full_client)
      = (Inr (Sink_NotReady ''x''), transport full_client)"
    by (simp_all add: full_client_def open_framed_def framed_start_send_def)
  from back_pressure[OF this poll] poll show ?thesis by (simp add: full_client_def)
qed

text \<open>C25: Once the shutdown has begun, nothing goes out any more: however often the client is polled
  until it resolves, it takes no message, hands the transport no payload (not even the one it
  still holds), and only drains what arrives.\<close>

theorem shutdown_sends_nothing:
  assumes "transport_contract T accepted" and "should_shut_down c" and "client_run sd T S c r c'"
  shows "accepted (transport c') = accepted (transport c) \<and> outgoing_payload_rx c' = outgoing_payload_rx c
    \<and> pending_payload c' = pending_payload c \<and> sent_msgs (history c') = sent_msgs (history c)"
proof -
  have "accepted (transport c') = accepted (transport c) \<and> same_intake c c'
      \<and> (r = Ret NotReady \<longrightarrow> should_shut_down c')"
    using assms(3)
  proof (induction rule: client_run.induct)
    case run_start
    with assms(2) show ?case by simp
  next
    case (run_poll d r d')
    then have "handle_shutdown sd T S d = Some (r, d')" by (simp add: client_poll_def)
    with handle_shutdown_intake[OF this] transport_contract.handle_shutdown_accepted[OF assms(1) this] run_poll
    show ?case by (auto simp: should_shut_down_def intro: same_intake_trans)
  qed
  then show ?thesis by (simp add: same_intake_def)
qed

theorem shutdown_sends_nothing_witness:
  "\<exists>r c'. client_poll demo_serde framed_ops server_handler_ops (demo_client\<lparr>shutting_down := True\<rparr>) = Some (r, c')
     \<and> sunk (transport c') = [] \<and> outgoing_payload_rx c' = outgoing_payload_rx demo_client"
proof -
  let ?c = "demo_client\<lparr>shutting_down := True\<rparr>"
  have "ipc_client.alive ?c" using demo_alive(1) by (simp add: ipc_client.alive_def should_shut_down_def)
  from ipc_client.client_poll_returns[OF this] obtain r c' where
    poll: "client_poll demo_serde framed_ops server_handler_ops ?c = Some (r, c')" by blast
  have "should_shut_down ?c" by (simp add: should_shut_down_def)
  from shutdown_sends_nothing[OF ipc.transport_contract_axioms this client_run.run_poll[OF client_run.run_start poll]]
    poll show ?thesis by (simp add: demo_defs)
qed

lemma handle_messages_fatal:
  assumes "handle_messages sd T S c = Some (r, c')"
  shows "fatal_error c' = fatal_error c"
proof (rule yieldsD[OF _ assms])
  let ?I = "\<lambda>d. fatal_error d = fatal_error c"
  have turn: "fatal_error d' = fatal_error d" if "outgoing_turn sd T d = (f, d')" for f d d'
    using that by (rule outgoing_turnE) (auto dest: handle_client_payload_frame)
  have 1: "yields (Some (resend_pending T c)) (\<lambda>_. ?I)"
    using send_payload_frame[of T _ "c\<lparr>pending_payload := None\<rparr>"]
    by (cases "resend_pending T c") (auto simp: resend_pending_def split: option.splits)
  have 4: "yields (poll_outgoing_messages sd T d) (\<lambda>_. ?I)" if "?I d" for d
    unfolding poll_outgoing_messages_def by (rule yields_rust_loop[where I = ?I]) (use that turn in \<open>simp, metis+\<close>)
  show "yields (handle_messages sd T S c) (\<lambda>_. ?I)"
    unfolding handle_messages_def
    by (intro yields_try_then_inv 1 4 yieldsI)
      (auto dest: poll_server_frame poll_transport_rx_frame poll_transport_tx_frame)
qed

text \<open>C18: The client resolves with the reason it stopped for. Once a poll has failed with an error, the
  client either waits for its transport to close or resolves: with that very error, or, if it was
  \<open>Shutdown\<close>, successfully. No later error, neither of the transport nor of a response that arrives
  while it shuts down, takes its place.\<close>

theorem resolves_with_first_error:
  assumes "\<not> should_shut_down c" and "handle_messages sd T S c = Some (Raise e, c1)"
    and "client_run sd T S c r c'"
  shows "r \<in> {Ret NotReady, Panic, if e = Shutdown then Ret (Ready ()) else Raise e}"
proof -
  let ?why = "\<lambda>d. should_shut_down d \<and> fatal_error d = (if e = Shutdown then None else Some e)"
  have "c' = c \<and> r = Ret NotReady \<or> r = Ret NotReady \<and> ?why c'
      \<or> r = Panic \<or> r = (if e = Shutdown then Ret (Ready ()) else Raise e)"
    using assms(3)
  proof (induction rule: client_run.induct)
    case run_start
    show ?case by simp
  next
    case (run_poll d r d')
    have "\<exists>d0. ?why d0 \<and> handle_shutdown sd T S d0 = Some (r, d')"
    proof (cases "d = c")
      case True
      let ?d = "if e = Shutdown then c1\<lparr>shutting_down := True\<rparr> else c1\<lparr>fatal_error := Some e\<rparr>"
      have "handle_shutdown sd T S ?d = Some (r, d')"
        using run_poll.hyps(2) assms(1,2) True by (cases e) (auto simp: client_poll_def)
      moreover have "?why ?d"
        using handle_messages_fatal[OF assms(2)] assms(1) by (auto simp: should_shut_down_def)
      ultimately show ?thesis by blast
    next
      case False
      with run_poll have "?why d" by (auto split: if_splits)
      with run_poll.hyps(2) show ?thesis by (auto simp: client_poll_def)
    qed
    then obtain d0 where d0: "?why d0" "handle_shutdown sd T S d0 = Some (r, d')" by blast
    from handle_shutdown_intake[OF d0(2)] d0(1) show ?case
      by (cases r rule: answer_cases) (auto simp: should_shut_down_def split: if_splits)
  qed
  then show ?thesis by auto
qed

definition broken_client :: "(framed, server) client" where
  "broken_client = demo_client\<lparr>transport := open_framed (sconst (Inl ''connection reset''))\<rparr>"

lemma broken_client_fails:
  "\<exists>c. handle_messages demo_serde framed_ops server_handler_ops broken_client = Some (Raise TransportError, c)"
  by (simp add: broken_client_def demo_defs poll_defs, subst rust_loop.simps, simp add: demo_defs poll_defs)

theorem resolves_with_first_error_witness:
  "\<exists>r c'. client_poll demo_serde framed_ops server_handler_ops broken_client = Some (r, c')
     \<and> r \<in> {Ret NotReady, Raise TransportError}"
proof -
  have "ipc_client.alive broken_client"
    using demo_alive(1) by (simp add: ipc_client.alive_def broken_client_def demo_defs is_item_def)
  from ipc_client.client_poll_returns[OF this] obtain r c' where
    poll: "client_poll demo_serde framed_ops server_handler_ops broken_client = Some (r, c')" "r \<noteq> Panic" by blast
  obtain c1 where "handle_messages demo_serde framed_ops server_handler_ops broken_client
      = Some (Raise TransportError, c1)"
    using broken_client_fails by blast
  from resolves_with_first_error[OF _ this client_run.run_poll[OF client_run.run_start poll(1)]] poll
  show ?thesis by (auto simp: broken_client_def demo_defs should_shut_down_def)
qed

section \<open>A poll returns\<close>

text \<open>C10: A poll of the client always returns and never panics, in whatever state of its run: when only
  finitely many payloads and messages arrive, the sink calls answer, the channels do not fail and the
  server half keeps its contract, all three loops of the poll end, and what the poll leaves behind can be
  polled again as long as it has not resolved.\<close>

theorem client_poll_total:
  assumes "live_client S server_inv T live backlog"
    and "live (transport c)" and "queue_ok (outgoing_payload_rx c)"
    and "should_shut_down c \<or> server_inv (server_handler c)"
  shows "\<exists>r c'. client_poll sd T S c = Some (r, c') \<and> r \<noteq> Panic
    \<and> (r = Ret NotReady \<longrightarrow> live (transport c') \<and> queue_ok (outgoing_payload_rx c')
          \<and> (should_shut_down c' \<or> server_inv (server_handler c')))"
  using live_client.client_poll_returns[OF assms(1), of c sd] assms(2-4)
  by (simp add: live_client.alive_def[OF assms(1)])

theorem client_poll_total_witness:
  "\<exists>r c'. client_poll demo_serde framed_ops server_handler_ops demo_client = Some (r, c') \<and> r \<noteq> Panic"
  using client_poll_total[OF ipc_client.live_client_axioms, of demo_client demo_serde] demo_alive(1)
  unfolding ipc_client.alive_def by blast

text \<open>C38: The client shuts down as soon as its last handle is gone, whether or not calls are still
  waiting for their response: with nothing else to do and a transport that closes at once, that poll
  resolves successfully and leaves the waiting calls unanswered, so that their futures end with
  \<open>Shutdown\<close>.\<close>

theorem handles_gone_shuts_down:
  assumes "\<not> should_shut_down c" and "pending_payload c = None"
    and "sh_poll S (server_handler c) = Some (Ret NotReady, s)"
    and "rx_poll T (transport c) = (Inr NotReady, t)"
    and "select_poll receiver_poll receiver_poll (outgoing_payload_rx c) = (Inr (Ready None), q)"
    and "rx_poll T t = (Inr NotReady, t')" and "tx_close T t' = (Inr (Ready ()), t'')"
  shows "\<exists>c'. client_poll sd T S c = Some (Ret (Ready ()), c')
    \<and> pending_client_requests c' = pending_client_requests c \<and> completions c' = completions c"
proof -
  let ?c1 = "c\<lparr>server_handler := s, shutting_down := False\<rparr>"
  let ?c2 = "?c1\<lparr>transport := t\<rparr>"
  let ?c3 = "?c2\<lparr>outgoing_payload_rx := q, shutting_down := True\<rparr>"
  from assms(1) have ok: "fatal_error c = None" "\<not> shutting_down c" by (simp_all add: should_shut_down_def)
  have "poll_transport_rx sd T S ?c1 = Some (Ret (), ?c2)"
    unfolding poll_transport_rx_def by (rule rust_loop_Return) (simp add: transport_rx_turn_def assms(4))
  moreover have "poll_outgoing_messages sd T ?c2 = Some (Raise Shutdown, ?c2\<lparr>outgoing_payload_rx := q\<rparr>)"
    unfolding poll_outgoing_messages_def
    by (rule rust_loop_Return) (simp add: outgoing_turn_def assms(2,5))
  ultimately have "handle_messages sd T S c = Some (Raise Shutdown, ?c2\<lparr>outgoing_payload_rx := q\<rparr>)"
    using ok assms(2,3) by (simp add: handle_messages_def resend_pending_def poll_server_def)
  moreover have "poll_transport_rx sd T S ?c3 = Some (Ret (), ?c3\<lparr>transport := t'\<rparr>)"
    unfolding poll_transport_rx_def by (rule rust_loop_Return) (simp add: transport_rx_turn_def assms(6))
  then have "handle_shutdown sd T S ?c3 = Some (Ret (Ready ()), ?c3\<lparr>transport := t''\<rparr>)"
    using ok assms(7) by (simp add: handle_shutdown_def)
  ultimately show ?thesis using assms(1) by (simp add: client_poll_def)
qed

text \<open>Here the call \<open>add\<close> of the example has been sent and its handle is gone.\<close>

definition abandoned_client :: "(framed, server) client" where
  "abandoned_client = demo_client1
     \<lparr>outgoing_payload_rx := select_with_weak (sconst (Inr (Ready None))) (sconst (Inr NotReady)),
      transport := open_framed (sconst (Inr NotReady))\<rparr>"

theorem handles_gone_shuts_down_witness:
  "\<exists>c'. client_poll demo_serde framed_ops server_handler_ops abandoned_client = Some (Ret (Ready ()), c')
     \<and> pending_client_requests c' = [Id_Num 1 \<mapsto> 7] \<and> completions c' = []"
  using handles_gone_shuts_down[of abandoned_client server_handler_ops idle_server framed_ops
      "open_framed (sconst (Inr NotReady))"
      "\<lparr>strong = sconst (Inr (Ready None)), weak = sconst (Inr NotReady), use_strong = True, weak_done = False\<rparr>"
      "open_framed (sconst (Inr NotReady))" "open_framed (sconst (Inr NotReady))" demo_serde]
  by (simp add: abandoned_client_def demo_defs should_shut_down_def server_handler_ops_def
      select_poll_eq receiver_poll_def)

section \<open>The shutdown ends\<close>

lemma framed_rx_close:
  "poll_transport_rx sd framed_ops S c = Some (r, c') \<Longrightarrow>
     close_answers (transport c') = close_answers (transport c)"
  unfolding poll_transport_rx_def
  by (rule rust_loop_invariant[where I = "\<lambda>d. close_answers (transport d) = close_answers (transport c)"], assumption)
    (auto dest: transport_rx_turn_frame)

lemma framed_shutdown_step:
  assumes "handle_shutdown sd framed_ops S c = Some (r, c')" "r = Ret NotReady"
  shows "shd (close_answers (transport c)) = Inr NotReady
    \<and> close_answers (transport c') = stl (close_answers (transport c))"
proof -
  from assms obtain q c1 where q: "poll_transport_rx sd framed_ops S c = Some (q, c1)"
    by (auto simp: handle_shutdown_def split: option.splits)
  with framed_rx_close[OF q] assms show ?thesis
    by (auto simp: handle_shutdown_def split: outcome.splits sum.splits async.splits option.splits)
qed

lemma framed_live:
  assumes "server_contract S server_inv"
  shows "live_client S server_inv framed_ops (\<lambda>t. finitely_many (incoming t)) (\<lambda>t. pending_items (incoming t))"
  by (rule live_client.intro[OF assms ipc_rx.dry_stream_axioms]) (simp add: live_client_axioms_def)

text \<open>Polling at most \<open>n\<close> times, until the client resolves.\<close>

fun client_polls ::
  "serde \<Rightarrow> 't transport_ops \<Rightarrow> 's server_ops \<Rightarrow> nat \<Rightarrow> ('t, 's) client
     \<Rightarrow> (unit async, 't, 's) client_result option" where
  "client_polls sd T S 0 c = Some (Ret NotReady, c)"
| "client_polls sd T S (Suc n) c =
     (case client_poll sd T S c of
        Some (Ret NotReady, c') \<Rightarrow> client_polls sd T S n c'
      | res \<Rightarrow> res)"


definition stopped_client :: "(framed, server) client" where
  "stopped_client = demo_client1\<lparr>fatal_error := Some DeserializeError,
     transport := (open_framed (sconst (Inr NotReady)))\<lparr>close_answers := Inr NotReady ## sconst (Inr (Ready ()))\<rparr>\<rparr>"


end
