(* ===== verification/Client_Handle.thy ===== *)
theory Client_Handle
  imports Rpc_Types
begin

text \<open>
  \<open>core/src/lib.rs\<close>, \<open>ClientHandle\<close>, and \<open>core/src/macros.rs\<close>: the futures that a user of the client
  gets for a call or a notification, and the methods that the macro \<open>jsonrpc_client!\<close> generates. They
  are built from the combinators of \<open>Future\<close>, as in the source.

  A handle is its sender: the future that \<open>send(message)\<close> gives, from which the client takes the
  messages. The one-shot channel of a call is the pair of the completion that travels with the
  message (\<open>tx\<close>) and the future of its receiving half (\<open>rx\<close>), which is cancelled when the client drops
  the other half. The parameters and the result are of any type: \<open>to_value\<close> and \<open>from_value\<close>, what
  serde derives for the type, are arguments.
\<close>

record client_handle =
  client_handle_tx :: "outgoing_message \<Rightarrow> (unit, unit) fut"

type_synonym 'v rpc_future = "('v, core_error) fut"

text \<open>\<open>send_client_call\<close>\<close>

definition send_client_call ::
  "(json \<Rightarrow> 'v option) \<Rightarrow> client_handle \<Rightarrow> core_error + outgoing_message
     \<Rightarrow> (core_error + json, unit) fut \<Rightarrow> 'v rpc_future" where
  "send_client_call from_value h client_call rx =
     and_then (and_then (and_then (Resolved client_call)
       (\<lambda>call. map_err (\<lambda>_. Shutdown) (client_handle_tx h call)))
       (\<lambda>_. and_then (map_err (\<lambda>_. Shutdown) rx) Resolved))
       (\<lambda>r. Resolved (case from_value r of None \<Rightarrow> Inl DeserializeError | Some v \<Rightarrow> Inr v))"

text \<open>\<open>call_method\<close>\<close>

definition call_method ::
  "('p \<Rightarrow> json option) \<Rightarrow> (json \<Rightarrow> 'v option) \<Rightarrow> client_handle \<Rightarrow> string \<Rightarrow> 'p
     \<Rightarrow> completion \<Rightarrow> (core_error + json, unit) fut \<Rightarrow> 'v rpc_future" where
  "call_method to_value from_value h method parameters tx rx =
     and_then (Resolved (serialize_parameters to_value parameters))
       (\<lambda>ps. send_client_call from_value h (Inr (Msg_RpcCall method ps tx)) rx)"

text \<open>\<open>send_notification\<close>\<close>

definition send_notification ::
  "('p \<Rightarrow> json option) \<Rightarrow> client_handle \<Rightarrow> string \<Rightarrow> 'p
     \<Rightarrow> completion \<Rightarrow> (core_error + unit, unit) fut \<Rightarrow> unit rpc_future" where
  "send_notification to_value h method parameters tx rx =
     and_then (and_then (and_then (Resolved (serialize_parameters to_value parameters))
       (\<lambda>ps. map_err (\<lambda>_. Shutdown) (client_handle_tx h (Msg_Notification method ps tx))))
       (\<lambda>_. map_err (\<lambda>_. Shutdown) rx)) Resolved"

section \<open>Generated clients\<close>

text \<open>
  \<open>expand_params!\<close>: no argument becomes the empty array, otherwise the arguments become a tuple, which
  serde serializes as an array. Each argument is given as what \<open>to_value\<close> makes of it.
\<close>

definition expand_params :: "json option list \<Rightarrow> json option" where
  "expand_params args = map_option JArray (those args)"

text \<open>The body of a method that \<open>jsonrpc_client!\<close> generates.\<close>

definition generated_method ::
  "(json \<Rightarrow> 'v option) \<Rightarrow> client_handle \<Rightarrow> string \<Rightarrow> json option list
     \<Rightarrow> completion \<Rightarrow> (core_error + json, unit) fut \<Rightarrow> 'v rpc_future" where
  "generated_method from_value h method args tx rx =
     (let params = serialize_parameters expand_params args;
          client_call = map_sum (\<lambda>e. e) (\<lambda>p. Msg_RpcCall method p tx) params
      in send_client_call from_value h client_call rx)"

section \<open>What a call resolves to\<close>

text \<open>
  The outcome of a call from the outcome \<open>s\<close> of handing it to the client and the outcome \<open>a\<close> of its
  one-shot channel.
\<close>

fun call_outcome :: "(json \<Rightarrow> 'v option) \<Rightarrow> unit + unit \<Rightarrow> unit + (core_error + json) \<Rightarrow> core_error + 'v" where
  "call_outcome from_value (Inl _) a = Inl Shutdown"
| "call_outcome from_value (Inr _) (Inl _) = Inl Shutdown"
| "call_outcome from_value (Inr _) (Inr (Inl e)) = Inl e"
| "call_outcome from_value (Inr _) (Inr (Inr r)) =
     (case from_value r of None \<Rightarrow> Inl DeserializeError | Some v \<Rightarrow> Inr v)"

lemma send_client_call_outcome:
  assumes sent: "resolves_within n (client_handle_tx h call) s" and answer: "resolves_within m rx a"
  shows "resolves_within (n + m) (send_client_call from_value h (Inr call) rx) (call_outcome from_value s a)"
proof -
  let ?decode = "\<lambda>r. Resolved (case from_value r of None \<Rightarrow> Inl DeserializeError | Some v \<Rightarrow> Inr v)"
  let ?send = "map_err (\<lambda>_. Shutdown) (client_handle_tx h call)"
  let ?wait = "\<lambda>_ :: unit. and_then (map_err (\<lambda>_. Shutdown) rx) Resolved"
  define reply where "reply = (case a of Inl _ \<Rightarrow> Inl Shutdown | Inr r \<Rightarrow> r)"
  define got where "got = (case s of Inl _ \<Rightarrow> Inl Shutdown | Inr _ \<Rightarrow> reply)"
  have "resolves_within (m + 0) (?wait u) reply" for u
    by (rule resolves_and_then[OF resolves_within_map_err[OF answer]]) (auto simp: reply_def split: sum.splits)
  then have "resolves_within (n + (m + 0)) (and_then ?send ?wait) got"
    by (intro resolves_and_then[OF resolves_within_map_err[OF sent]]) (auto simp: got_def split: sum.splits)
  then have "resolves_within (n + (m + 0) + 0) (and_then (and_then ?send ?wait) ?decode) (call_outcome from_value s a)"
  proof (rule resolves_and_then)
    show "resolves_within 0 (?decode r) (call_outcome from_value s a)" if "got = Inr r" for r
      using that by (auto simp: got_def reply_def split: sum.splits)
    show "call_outcome from_value s a = Inl e" if "got = Inl e" for e
      using that by (auto simp: got_def reply_def split: sum.splits)
  qed
  then show ?thesis by (simp add: send_client_call_def)
qed

text \<open>A call resolves to what happened to it. If its parameters serialize, the handle's sender settles
  after at most \<open>n\<close> polls and the call's one-shot channel after at most \<open>m\<close>, then the future of the
  call resolves after at most \<open>n + m\<close> polls: to \<open>Shutdown\<close> if the message could not be handed to the
  client or the client dropped the channel, to the error the client reported, or to the result,
  deserialized, with \<open>DeserializeError\<close> if that fails. Parameters that do not serialize fail the call at
  the first poll.\<close>

lemma call_method_outcome:
  assumes "serialize_parameters to_value p = Inr ps"
    and "resolves_within n (client_handle_tx h (Msg_RpcCall method ps tx)) s" and "resolves_within m rx a"
  shows "resolves_within (n + m) (call_method to_value from_value h method p tx rx) (call_outcome from_value s a)
    \<and> (to_value q = None \<longrightarrow> call_method to_value from_value h method q tx rx = Resolved (Inl SerializeError))"
  using send_client_call_outcome[OF assms(2,3)]
  by (simp add: call_method_def assms(1)) (simp add: serialize_parameters_def)

definition demo_handle :: client_handle where
  "demo_handle = \<lparr>client_handle_tx = (\<lambda>_. Pending (Resolved (Inr ())))\<rparr>"

fun bool_value :: "json \<Rightarrow> bool option" where
  "bool_value (JBool b) = Some b"
| "bool_value _ = None"

lemma call_method_outcome_example:
  "resolves_within 2 (call_method Some bool_value demo_handle ''ready'' (JString ''x'') 1
      (Pending (Resolved (Inr (Inr (JBool True)))))) (Inr True)"
  using call_method_outcome[of Some "JString ''x''" "Some (Params_Array [JString ''x''])" 1 demo_handle
      "''ready''" 1 "Inr ()" 1 "Pending (Resolved (Inr (Inr (JBool True))))" "Inr (Inr (JBool True))" bool_value]
  by (simp add: serialize_parameters_def demo_handle_def numeral_2_eq_2)

text \<open>A notification resolves like a call, but to nothing: after at most \<open>n + m\<close> polls, to \<open>Shutdown\<close> if the
  message was not taken or its channel was dropped, and otherwise to what the client reported for it.\<close>

lemma send_notification_outcome:
  assumes "serialize_parameters to_value p = Inr ps"
    and "resolves_within n (client_handle_tx h (Msg_Notification method ps tx)) s" and "resolves_within m rx a"
  shows "resolves_within (n + m) (send_notification to_value h method p tx rx)
    (case (s, a) of (Inr _, Inr r) \<Rightarrow> r | _ \<Rightarrow> Inl Shutdown)"
proof -
  let ?send = "map_err (\<lambda>_. Shutdown) (client_handle_tx h (Msg_Notification method ps tx))"
  let ?wait = "\<lambda>_ :: unit. map_err (\<lambda>_. Shutdown) rx"
  define got where "got = (case s of Inl _ \<Rightarrow> Inl Shutdown | Inr _ \<Rightarrow> map_sum (\<lambda>_. Shutdown) (\<lambda>r. r) a)"
  have "resolves_within (n + m) (and_then ?send ?wait) got"
    by (rule resolves_and_then[OF resolves_within_map_err[OF assms(2)]])
      (use resolves_within_map_err[OF assms(3)] in \<open>auto simp: got_def split: sum.splits\<close>)
  then have "resolves_within (n + m + 0) (and_then (and_then ?send ?wait) Resolved)
      (case (s, a) of (Inr _, Inr r) \<Rightarrow> r | _ \<Rightarrow> Inl Shutdown)"
    by (rule resolves_and_then) (auto simp: got_def split: sum.splits)
  then show ?thesis by (simp add: send_notification_def assms(1))
qed

lemma send_notification_outcome_example:
  "resolves_within 1 (send_notification Some demo_handle ''tick'' JNull 1 (Resolved (Inr (Inr ())))) (Inr ())"
  using send_notification_outcome[of Some JNull None 1 demo_handle "''tick''" 1 "Inr ()" 0
      "Resolved (Inr (Inr ()))" "Inr (Inr ())"]
  by (simp add: serialize_parameters_def demo_handle_def)


text \<open>The parameters are serialized twice on their way to the wire, by the handle and again by the
  client, and the second time changes nothing: with a serializer that writes parameters as they are, what a
  generated method sends is exactly the JSON-RPC 2.0 call with its method, its arguments in order and
  the id that the client drew.\<close>

lemma call_on_the_wire:
  assumes "params_transparent (to_value_params sd)"
    and "serialize_parameters expand_params (map Some vals) = Inr ps"
  shows "serialize_method_request sd i method ps =
    (case to_string_call sd \<lparr>mc_jsonrpc = Some V2, mc_method = method, mc_params = Some (Params_Array vals), mc_id = i\<rparr> of
       None \<Rightarrow> Inl SerializeError | Some s \<Rightarrow> Inr s)"
proof -
  have "those (map Some vals) = Some vals" by (induction vals) simp_all
  with assms(2) have "ps = Some (Params_Array vals)"
    by (simp add: serialize_parameters_def expand_params_def)
  then show ?thesis
    by (simp add: serialize_method_request_def serialize_parameters_transparent[OF assms(1)])
qed

definition method_serde :: serde where
  "method_serde = \<lparr>to_value_params = params_value,
     to_string_call = (\<lambda>mc. if mc_params mc = Some (Params_Array []) then Some (mc_method mc @ ''[]'') else None),
     to_string_notification = (\<lambda>_. None), to_string_response = (\<lambda>_. None),
     from_str_output = (\<lambda>_. None), from_str_request = (\<lambda>_. None)\<rparr>"

lemma call_on_the_wire_example:
  "serialize_method_request method_serde (Id_Num 1) ''now'' (Some (Params_Array [])) = Inr ''now[]''"
  using call_on_the_wire[of method_serde "[]" "Some (Params_Array [])" "Id_Num 1" "''now''"]
  by (simp add: method_serde_def serialize_parameters_def expand_params_def)

end
