(* ===== verification/Call_Life.thy ===== *)
theory Call_Life
  imports Client_Properties Client_Handle
begin

text \<open>
  The two ends of a call put together: the future that \<open>ClientHandle\<close> gives to the user and the client that
  takes its message, sends it and completes its one-shot channel. \<open>completion_delivered\<close> is what \<open>futures\<close>
  documents of a one-shot channel; with it, what the future resolves to is decided by the run of the
  client alone (\<open>every_call_settles\<close>). The second part types what a run produces: the completions, the
  waiting calls and the payloads on the wire.
\<close>

section \<open>The first response to a call\<close>

fun first_answer :: "rpc_id \<Rightarrow> session_event list \<Rightarrow> rpc_output option" where
  "first_answer i [] = None"
| "first_answer i (Sent m # evs) = first_answer i evs"
| "first_answer i (Got out # evs) =
     (if jsonrpc out = Some V2 \<and> output_id out = i then Some out else first_answer i evs)"

lemma first_answer_None: "first_answer i evs = None \<longleftrightarrow> \<not> list_ex (answers_to i) evs"
  by (induction i evs rule: first_answer.induct) (simp_all add: answers_to_def)

lemma first_answer_Some:
  "first_answer i evs = Some out \<Longrightarrow>
     \<exists>evs1 evs2. evs = evs1 @ Got out # evs2 \<and> \<not> list_ex (answers_to i) evs1
       \<and> jsonrpc out = Some V2 \<and> output_id out = i"
proof (induction i evs rule: first_answer.induct)
  case (2 i m evs)
  then obtain evs1 evs2 where "evs = evs1 @ Got out # evs2" "\<not> list_ex (answers_to i) evs1"
    "jsonrpc out = Some V2" "output_id out = i" by auto
  then have "Sent m # evs = (Sent m # evs1) @ Got out # evs2" "\<not> list_ex (answers_to i) (Sent m # evs1)"
    by (simp_all add: answers_to_def)
  with \<open>jsonrpc out = Some V2\<close> \<open>output_id out = i\<close> show ?case by blast
next
  case (3 i out' evs)
  show ?case
  proof (cases "jsonrpc out' = Some V2 \<and> output_id out' = i")
    case True
    with "3.prems" have "Got out' # evs = [] @ Got out # evs" "\<not> list_ex (answers_to i) []" "out' = out" by simp_all
    with True show ?thesis by blast
  next
    case False
    with 3 obtain evs1 evs2 where "evs = evs1 @ Got out # evs2" "\<not> list_ex (answers_to i) evs1"
      "jsonrpc out = Some V2" "output_id out = i" by (auto split: if_splits)
    moreover from this False have "Got out' # evs = (Got out' # evs1) @ Got out # evs2"
      "\<not> list_ex (answers_to i) (Got out' # evs1)" by (simp_all add: answers_to_def)
    ultimately show ?thesis by blast
  qed
qed simp

section \<open>What the session does with a call\<close>

lemma session_step_done: "set (ses_done s) \<subseteq> set (ses_done (session_step sd ev s))"
proof (cases ev)
  case (Sent m)
  then show ?thesis
    by (cases m) (auto simp: Let_def ses_send_def ses_complete_def split: sum.split option.split)
qed (auto simp: ses_complete_def split: option.split)

lemma session_done_mono: "set (ses_done (session_of sd evs)) \<subseteq> set (ses_done (session_of sd (evs @ evs')))"
proof (induction evs' rule: rev_induct)
  case (snoc ev evs')
  with session_step_done[of "session_of sd (evs @ evs')" sd ev] show ?case
    by (simp del: append_assoc add: append_assoc[symmetric])
qed simp

lemma session_call_answered:
  assumes "serialize_method_request sd (call_id evs) mname ps = Inr p"
    and "calls_made (evs @ Sent (Msg_RpcCall mname ps tx) # evs') \<le> 2 ^ 64 - 2"
    and "first_answer (call_id evs) evs' = Some out"
  shows "(tx, Call_result (output_result out)) \<in> set (ses_done (session_of sd (evs @ Sent (Msg_RpcCall mname ps tx) # evs')))"
proof -
  from first_answer_Some[OF assms(3)] obtain evs1 evs2 where
    e: "evs' = evs1 @ Got out # evs2" "\<not> list_ex (answers_to (call_id evs)) evs1"
    "jsonrpc out = Some V2" "output_id out = call_id evs" by blast
  let ?evs = "evs @ Sent (Msg_RpcCall mname ps tx) # evs1"
  from assms(2) e(1) have "calls_made ?evs \<le> 2 ^ 64 - 2" by simp
  from session_awaits[OF assms(1) this e(2)]
  have "ses_awaiting (session_of sd ?evs) (call_id evs) = Some tx" .
  with e(3,4) have "(tx, Call_result (output_result out)) \<in> set (ses_done (session_of sd (?evs @ [Got out])))"
    unfolding session_of_snoc by (simp add: ses_complete_def)
  with session_done_mono[of sd "?evs @ [Got out]" evs2] e(1) show ?thesis by auto
qed

lemma session_call_refused:
  assumes "serialize_method_request sd (call_id evs) mname ps = Inl e"
  shows "(tx, Call_result (Inl e)) \<in> set (ses_done (session_of sd (evs @ Sent (Msg_RpcCall mname ps tx) # evs')))"
proof -
  have "(tx, Call_result (Inl e)) \<in> set (ses_done (session_of sd (evs @ [Sent (Msg_RpcCall mname ps tx)])))"
    using assms unfolding session_of_snoc by (simp add: Let_def session_next_id call_id_def ses_complete_def)
  with session_done_mono[of sd "evs @ [Sent (Msg_RpcCall mname ps tx)]" evs'] show ?thesis by auto
qed

lemma session_call_waits:
  assumes "serialize_method_request sd (call_id evs) mname ps = Inr p"
    and "calls_made (evs @ Sent (Msg_RpcCall mname ps tx) # evs') \<le> 2 ^ 64 - 2"
    and "first_answer (call_id evs) evs' = None"
    and "distinct (tokens (evs @ Sent (Msg_RpcCall mname ps tx) # evs'))"
  shows "tx \<notin> fst ` set (ses_done (session_of sd (evs @ Sent (Msg_RpcCall mname ps tx) # evs')))"
proof -
  let ?evs = "evs @ Sent (Msg_RpcCall mname ps tx) # evs'"
  let ?s = "session_of sd ?evs"
  from session_awaits[OF assms(1,2)] assms(3) have aw: "ses_awaiting ?s (call_id evs) = Some tx"
    by (simp add: first_answer_None)
  from session_accounts[OF assms(2), of sd] have acc: "session_ok ?s" "accounts ?s = mset (tokens ?evs)" by blast+
  then have "finite (dom (ses_awaiting ?s))" by (simp add: session_ok_def)
  from waiting_remove[OF this aw] acc(2) have "mset (tokens ?evs)
      = add_mset tx (mset (map fst (ses_done ?s)) + waiting ((ses_awaiting ?s)(call_id evs := None)))"
    by (simp add: accounts_def)
  moreover have "count (mset (tokens ?evs)) tx \<le> 1" using assms(4) by (simp add: distinct_count_atmost_1)
  ultimately have "count (mset (map fst (ses_done ?s))) tx = 0" by simp
  then show ?thesis by (metis count_eq_zero_iff list.set_map set_mset_mset)
qed

section \<open>The future of a call\<close>

text \<open>
  What \<open>oneshot\<close> documents, seen when the client is gone: the receiving half gives the value that was sent, and
  is cancelled if the sending half was dropped unused.
\<close>

definition completion_delivered ::
  "(completion \<times> completion_value) list \<Rightarrow> completion \<Rightarrow> nat \<Rightarrow> (core_error + json, unit) fut \<Rightarrow> bool" where
  "completion_delivered sent tx m rx \<longleftrightarrow>
     (\<forall>v. (tx, Call_result v) \<in> set sent \<longrightarrow> resolves_within m rx (Inr v))
     \<and> (tx \<notin> fst ` set sent \<longrightarrow> resolves_within m rx (Inl ()))"

lemma call_settles:
  assumes "transport_contract T accepted" and "accepted t = []"
    and "client_run sd T S (new_with_server rx1 rx2 rtx t s) r c" and "r \<noteq> Panic"
    and "history c = evs @ Sent (Msg_RpcCall mname ps tx) # evs'"
    and "calls_made (history c) \<le> 2 ^ 64 - 2" and "distinct (tokens (history c))"
    and "serialize_parameters to_value v = Inr ps"
    and "resolves_within n (client_handle_tx h (Msg_RpcCall mname ps tx)) (Inr ())"
    and "completion_delivered (completions c) tx m rx"
  shows "resolves_within (n + m) (call_method to_value from_value h mname v tx rx)
    (case serialize_method_request sd (call_id evs) mname ps of
       Inl e \<Rightarrow> Inl e
     | Inr _ \<Rightarrow> (case first_answer (call_id evs) evs' of
         None \<Rightarrow> Inl Shutdown
       | Some out \<Rightarrow> call_outcome from_value (Inr ()) (Inr (output_result out))))"
proof -
  obtain lost where "implements sd accepted lost c" by (rule run_of_new_implements[OF assms(1-4)])
  then have completed: "completions c = ses_done (session_of sd (history c))" by (simp add: implements_def Let_def)
  note calls = assms(6)[unfolded assms(5)]
  have resolves: "resolves_within (n + m) (call_method to_value from_value h mname v tx rx)
      (call_outcome from_value (Inr ()) a)" if "resolves_within m rx a" for a
    using send_client_call_outcome[OF assms(9) that] by (simp add: call_method_def assms(8))
  have got: "resolves_within m rx (Inr w)" if "(tx, Call_result w) \<in> set (completions c)" for w
    using assms(10) that by (simp add: completion_delivered_def)
  show ?thesis
  proof (cases "serialize_method_request sd (call_id evs) mname ps")
    case (Inl e)
    from session_call_refused[OF this] completed assms(5)
    have "(tx, Call_result (Inl e)) \<in> set (completions c)" by simp
    from resolves[OF got[OF this]] Inl show ?thesis by simp
  next
    case ser: (Inr p)
    show ?thesis
    proof (cases "first_answer (call_id evs) evs'")
      case None
      from session_call_waits[OF ser calls None assms(7)[unfolded assms(5)]] completed assms(5)
      have "tx \<notin> fst ` set (completions c)" by simp
      then have "resolves_within m rx (Inl ())" using assms(10) by (simp add: completion_delivered_def)
      from resolves[OF this] ser None show ?thesis by simp
    next
      case (Some out)
      from session_call_answered[OF ser calls Some] completed assms(5)
      have "(tx, Call_result (output_result out)) \<in> set (completions c)" by simp
      from resolves[OF got[OF this]] ser Some show ?thesis by simp
    qed
  qed
qed

text \<open>C2: Every call settles, and with its own outcome. Take a call that the client has accepted from a handle, at
  any point of a run: when the client is gone, the future that the user holds resolves, within as many
  polls as its two channels take, to the outcome of the first response that carried the call's id,
  deserialized, however many other calls and responses came before it and in between; to the
  serialization error, if the call could not be written; and to \<open>Shutdown\<close> if no response came. It never
  hangs and never gets the response of another call.\<close>

theorem every_call_settles:
  assumes "transport_contract T accepted" and "accepted t = []"
    and "client_run sd T S (new_with_server rx1 rx2 rtx t s) r c" and "r \<noteq> Panic"
    and "history c = evs @ Sent (Msg_RpcCall mname ps tx) # evs'"
    and "calls_made (history c) \<le> 2 ^ 64 - 2" and "distinct (tokens (history c))"
    and "serialize_parameters to_value v = Inr ps"
    and "resolves_within n (client_handle_tx h (Msg_RpcCall mname ps tx)) (Inr ())"
    and "completion_delivered (completions c) tx m rx"
  shows "resolves_within (n + m) (call_method to_value from_value h mname v tx rx)
    (case serialize_method_request sd (call_id evs) mname ps of
       Inl e \<Rightarrow> Inl e
     | Inr _ \<Rightarrow> (case first_answer (call_id evs) evs' of
         None \<Rightarrow> Inl Shutdown
       | Some out \<Rightarrow> call_outcome from_value (Inr ()) (Inr (output_result out))))"
  by (rule call_settles[OF assms])

text \<open>The call \<open>add\<close> of the example, from the user's side.\<close>

theorem every_call_settles_witness:
  "resolves_within 2 (call_method params_value bool_value demo_handle ''add'' None 7
      (Pending (Resolved (Inr (Inr (JBool True)))))) (Inr True)"
proof -
  have h: "history demo_client2 = [] @ Sent (Msg_RpcCall ''add'' None 7)
      # [Got (Output_Success (Some V2) (JBool True) (Id_Num 1))]"
    by (simp add: demo_history2 demo_call_def)
  have c: "calls_made (history demo_client2) \<le> 2 ^ 64 - 2" "distinct (tokens (history demo_client2))"
    by (simp_all add: demo_history2 demo_call_def tokens_def List.map_filter_def)
  have p: "serialize_parameters params_value None = Inr None"
    and s: "serialize_method_request demo_serde (Id_Num 1) ''add'' None = Inr ''add''"
    by (simp_all add: serialize_parameters_def serialize_method_request_def demo_serde_def)
  have tx: "resolves_within 1 (client_handle_tx demo_handle (Msg_RpcCall ''add'' None 7)) (Inr ())"
    by (simp add: demo_handle_def)
  have rx: "completion_delivered (completions demo_client2) 7 1 (Pending (Resolved (Inr (Inr (JBool True)))))"
    by (auto simp: completion_delivered_def demo_client2_def)
  have i: "call_id [] = Id_Num 1" by (simp add: call_id_def)
  from every_call_settles[OF ipc.transport_contract_axioms _ demo_run(2)[unfolded demo_new] _ h c p tx rx, of bool_value]
  have "resolves_within (1 + 1) (call_method params_value bool_value demo_handle ''add'' None 7
      (Pending (Resolved (Inr (Inr (JBool True)))))) (Inr True)"
    by (simp add: s i del: resolves_within.simps)
  then show ?thesis by (simp only: one_add_one)
qed

section \<open>The types of what a run produces\<close>

text \<open>The channel of a call gets the result of a call, that of a notification the result of a notification.\<close>

fun completes :: "outgoing_message \<Rightarrow> completion \<Rightarrow> completion_value \<Rightarrow> bool" where
  "completes (Msg_RpcCall _ _ tx) tx' (Call_result _) = (tx = tx')"
| "completes (Msg_Notification _ _ tx) tx' (Notification_result _) = (tx = tx')"
| "completes _ _ _ = False"

text \<open>A payload: a JSON-RPC 2.0 object, whose id is a number if it is a call.\<close>

inductive rpc_payload :: "serde \<Rightarrow> outgoing_message list \<Rightarrow> string \<Rightarrow> bool" for sd msgs where
  payload_call: "Msg_RpcCall mname ps tx \<in> set msgs \<Longrightarrow> serialize_parameters (to_value_params sd) ps = Inr qs
    \<Longrightarrow> to_string_call sd \<lparr>mc_jsonrpc = Some V2, mc_method = mname, mc_params = qs, mc_id = Id_Num i\<rparr> = Some p
    \<Longrightarrow> rpc_payload sd msgs p"
| payload_notification: "Msg_Notification mname ps tx \<in> set msgs
    \<Longrightarrow> serialize_parameters (to_value_params sd) ps = Inr qs
    \<Longrightarrow> to_string_notification sd \<lparr>n_jsonrpc = Some V2, n_method = mname, n_params = qs\<rparr> = Some p
    \<Longrightarrow> rpc_payload sd msgs p"
| payload_response: "Msg_Response resp \<in> set msgs \<Longrightarrow> to_string_response sd resp = Some p \<Longrightarrow> rpc_payload sd msgs p"

definition session_typed :: "serde \<Rightarrow> outgoing_message list \<Rightarrow> session \<Rightarrow> bool" where
  "session_typed sd msgs s \<longleftrightarrow>
     (\<forall>(tx, v) \<in> set (ses_done s). \<exists>m \<in> set msgs. completes m tx v)
     \<and> (\<forall>tx \<in> ran (ses_awaiting s). \<exists>mname ps. Msg_RpcCall mname ps tx \<in> set msgs)
     \<and> (\<forall>p \<in> set (ses_wire s). rpc_payload sd msgs p)"

lemma rpc_payload_mono: "rpc_payload sd msgs p \<Longrightarrow> set msgs \<subseteq> set msgs' \<Longrightarrow> rpc_payload sd msgs' p"
  by (cases rule: rpc_payload.cases) (auto intro: rpc_payload.intros)

lemma session_typed_mono: "session_typed sd msgs s \<Longrightarrow> set msgs \<subseteq> set msgs' \<Longrightarrow> session_typed sd msgs' s"
  unfolding session_typed_def by (blast intro: rpc_payload_mono)

lemma ran_delete: "ran (m(i := None)) \<subseteq> ran m"
  by (auto simp: ran_def split: if_splits)

lemma session_step_sent_typed:
  assumes "session_typed sd msgs s" "m \<in> set msgs"
  shows "session_typed sd msgs (session_step sd (Sent m) s)"
proof (cases m)
  case (Msg_RpcCall mname ps tx)
  let ?i = "Id_Num (next_id (ses_ids s))"
  have call: "Msg_RpcCall mname ps tx \<in> set msgs" using assms(2) Msg_RpcCall by simp
  show ?thesis
  proof (cases "serialize_method_request sd ?i mname ps")
    case (Inl e)
    moreover have "\<exists>m \<in> set msgs. completes m tx (Call_result (Inl e))" by (rule bexI[OF _ call]) simp
    ultimately show ?thesis using assms(1) Msg_RpcCall
      by (auto simp: session_typed_def Let_def ses_complete_def)
  next
    case (Inr p)
    then have "rpc_payload sd msgs p"
      by (auto simp: serialize_method_request_def split: sum.splits option.splits intro: payload_call[OF call])
    moreover have "ran ((ses_awaiting s)(?i \<mapsto> tx)) \<subseteq> insert tx (ran (ses_awaiting s))"
      by (auto simp: ran_def split: if_splits)
    then have "\<forall>tx' \<in> ran ((ses_awaiting s)(?i \<mapsto> tx)). \<exists>mname ps. Msg_RpcCall mname ps tx' \<in> set msgs"
      using assms(1) call unfolding session_typed_def by blast
    ultimately show ?thesis using assms(1) Msg_RpcCall Inr
      by (simp add: session_typed_def Let_def ses_send_def)
  qed
next
  case (Msg_Notification mname ps tx)
  with assms show ?thesis
    by (auto simp: session_typed_def ses_send_def ses_complete_def serialize_notification_request_def
        split: sum.splits option.splits intro: payload_notification intro!: bexI[of _ m])
next
  case (Msg_Response resp)
  with assms show ?thesis
    by (auto simp: session_typed_def ses_send_def split: option.splits intro: payload_response)
qed

lemma session_step_got_typed:
  assumes "session_typed sd msgs s"
  shows "session_typed sd msgs (session_step sd (Got out) s)"
proof (cases "if jsonrpc out = Some V2 then ses_awaiting s (output_id out) else None")
  case (Some tx)
  then have "tx \<in> ran (ses_awaiting s)" by (auto intro: ranI split: if_splits)
  with assms obtain mname ps where "Msg_RpcCall mname ps tx \<in> set msgs" by (auto simp: session_typed_def)
  then have "\<exists>m \<in> set msgs. completes m tx (Call_result w)" for w by (intro bexI[of _ "Msg_RpcCall mname ps tx"]) simp_all
  with assms Some ran_delete[of "ses_awaiting s" "output_id out"] show ?thesis
    by (auto simp: session_typed_def ses_complete_def)
qed (use assms in simp)

lemma session_of_typed: "session_typed sd (sent_msgs evs) (session_of sd evs)"
proof (induction evs rule: rev_induct)
  case Nil
  show ?case by (simp add: session_of_def session_new_def session_typed_def)
next
  case (snoc ev evs)
  then have "session_typed sd (sent_msgs (evs @ [ev])) (session_of sd evs)"
    by (rule session_typed_mono) simp
  then show ?case
    unfolding session_of_snoc by (cases ev) (simp_all add: session_step_sent_typed session_step_got_typed del: session_step.simps)
qed

text \<open>C23: What the client produces is well typed. The channel of a call is only ever completed with the result of
  a call and that of a notification with the result of a notification; what waits under an id is the
  channel of a call; and every payload the transport has taken or the client holds is the text of a
  JSON-RPC 2.0 object for one of the messages taken: a call with a number as its id, a notification, or
  a response, with parameters that are absent, an array or an object.\<close>

theorem client_output_typed:
  assumes "transport_contract T accepted" and "accepted t = []"
    and "client_run sd T S (new_with_server rx1 rx2 rtx t s) r c" and "r \<noteq> Panic"
  shows "(\<forall>(tx, v) \<in> set (completions c). \<exists>m \<in> set (sent_msgs (history c)). completes m tx v)
    \<and> (\<forall>tx \<in> ran (pending_client_requests c). \<exists>mname ps. Msg_RpcCall mname ps tx \<in> set (sent_msgs (history c)))
    \<and> (\<forall>p \<in> set (accepted (transport c)) \<union> set_option (pending_payload c). rpc_payload sd (sent_msgs (history c)) p)"
proof -
  obtain lost where "implements sd accepted lost c" by (rule run_of_new_implements[OF assms(1-4)])
  with session_of_typed[of sd "history c"] show ?thesis
    by (auto simp: implements_def Let_def session_typed_def split: option.splits)
qed

theorem client_output_typed_witness:
  "completes demo_call 7 (Call_result (Inr (JBool True))) \<and> rpc_payload demo_serde [demo_call] ''add''"
proof -
  have "completions demo_client2 = [(7, Call_result (Inr (JBool True)))]" "sunk (transport demo_client2) = [''add'']"
    by (simp_all add: demo_client2_def)
  with client_output_typed[OF ipc.transport_contract_axioms _ demo_run(2)[unfolded demo_new]] show ?thesis by auto
qed

end
