(* ===== verification/Client_Intake.thy ===== *)
theory Client_Intake
  imports Client_Properties
begin

text \<open>
  The receiving side of the client: every payload that the transport delivers is looked at once, in the
  order of arrival, and goes either to the call it answers or to the server half. With the contract
  \<open>transport_source\<close>, what the client has obtained and what its server half has been asked is what
  arrived on the wire, no more and no less.
\<close>

section \<open>What the payloads are\<close>

definition response_of :: "serde \<Rightarrow> string \<Rightarrow> rpc_output option" where
  "response_of sd p = (case parse_incoming sd p of Some (Incoming_Response out) \<Rightarrow> Some out | _ \<Rightarrow> None)"

definition request_of :: "serde \<Rightarrow> string \<Rightarrow> request option" where
  "request_of sd p = (case parse_incoming sd p of Some (Incoming_Request req) \<Rightarrow> Some req | _ \<Rightarrow> None)"

fun got_outputs :: "session_event list \<Rightarrow> rpc_output list" where
  "got_outputs [] = []"
| "got_outputs (Sent m # evs) = got_outputs evs"
| "got_outputs (Got out # evs) = out # got_outputs evs"

lemma got_outputs_append [simp]: "got_outputs (xs @ ys) = got_outputs xs @ got_outputs ys"
  by (induction xs rule: got_outputs.induct) auto

lemma mem_got_outputs: "out \<in> set (got_outputs evs) \<longleftrightarrow> Got out \<in> set evs"
  by (induction evs rule: got_outputs.induct) auto

text \<open>The server half, given the requests in their order and polled in between.\<close>

inductive server_driven :: "'s server_ops \<Rightarrow> 's \<Rightarrow> request list \<Rightarrow> 's \<Rightarrow> bool" for S s0 where
  driven_start: "server_driven S s0 [] s0"
| driven_poll: "server_driven S s0 reqs s \<Longrightarrow> sh_poll S s = Some (r, s') \<Longrightarrow> server_driven S s0 reqs s'"
| driven_request: "server_driven S s0 reqs s \<Longrightarrow> sh_process_request S req sink s = (r, s')
     \<Longrightarrow> server_driven S s0 (reqs @ [req]) s'"

section \<open>Intake as an invariant\<close>

definition intake ::
  "serde \<Rightarrow> 's server_ops \<Rightarrow> ('t \<Rightarrow> 't \<Rightarrow> string list \<Rightarrow> bool) \<Rightarrow> 't \<Rightarrow> 's \<Rightarrow> ('t, 's) client \<Rightarrow> bool" where
  "intake sd S heard t0 s0 c \<longleftrightarrow> (\<exists>ps. heard t0 (transport c) ps
     \<and> got_outputs (history c) = List.map_filter (response_of sd) ps
     \<and> server_driven S s0 (List.map_filter (request_of sd) ps) (server_handler c))"

lemma handle_transport_rx_payload_intake:
  assumes "handle_transport_rx_payload sd S p c = (r, c')"
    and "server_driven S s0 reqs (server_handler c)"
  shows "got_outputs (history c') = got_outputs (history c) @ (case response_of sd p of None \<Rightarrow> [] | Some out \<Rightarrow> [out])
    \<and> server_driven S s0 (reqs @ (case request_of sd p of None \<Rightarrow> [] | Some req \<Rightarrow> [req])) (server_handler c')"
proof (cases "parse_incoming sd p")
  case None
  with assms show ?thesis by (auto simp: handle_transport_rx_payload_def response_of_def request_of_def)
next
  case (Some m)
  show ?thesis
  proof (cases m)
    case (Incoming_Request req)
    with Some assms show ?thesis
      by (auto simp: handle_transport_rx_payload_def response_of_def request_of_def intro: driven_request split: prod.splits)
  next
    case (Incoming_Response out)
    with Some assms(1) have "handle_response out c = (r, c')" by (simp add: handle_transport_rx_payload_def)
    from handle_response_history[OF this] handle_response_frame[OF this] Some Incoming_Response assms(2) show ?thesis
      by (simp add: response_of_def request_of_def)
  qed
qed

text \<open>What neither receives a payload nor touches the server half.\<close>

lemma intake_frame:
  assumes "intake sd S heard t0 s0 c" and "got_outputs (history c') = got_outputs (history c)"
    and "server_handler c' = server_handler c"
    and "\<And>ps. heard t0 (transport c) ps \<Longrightarrow> heard t0 (transport c') ps"
  shows "intake sd S heard t0 s0 c'"
  using assms unfolding intake_def by metis

context transport_source
begin

lemma send_payload_intake:
  "heard t0 (transport c) ps \<Longrightarrow> send_payload T p c = (r, c') \<Longrightarrow> heard t0 (transport c') ps"
  using start_send_heard[of t0 "transport c" ps p]
  by (auto simp: send_payload_def split: if_splits prod.splits sum.splits async_sink.splits)

lemma handle_client_payload_heard:
  "heard t0 (transport c) ps \<Longrightarrow> handle_client_payload sd T m c = (r, c') \<Longrightarrow> heard t0 (transport c') ps"
  by (cases m)
    (auto simp: Let_def record_event_def complete_def add_new_call_def id_next_def
      split: sum.splits option.splits elim!: send_payload_intake[rotated])

lemma outgoing_turn_intake:
  assumes "intake sd S heard t0 s0 c" "outgoing_turn sd T c = (f, c')"
  shows "intake sd S heard t0 s0 c'"
  using assms(2)
proof (rule outgoing_turnE)
  fix m q r
  assume h: "handle_client_payload sd T m (c\<lparr>outgoing_payload_rx := q\<rparr>) = (r, c')"
  from assms(1) handle_client_payload_frame[OF h] handle_client_payload_heard[OF _ h] show ?thesis
    by (intro intake_frame[OF assms(1)]) simp_all
qed (use assms(1) in \<open>auto intro: intake_frame\<close>)

lemma transport_rx_turn_intake:
  assumes "intake sd S heard t0 s0 c" "transport_rx_turn sd T S c = (f, c')"
  shows "intake sd S heard t0 s0 c'"
proof -
  from assms(1) obtain ps where ps: "heard t0 (transport c) ps"
      "got_outputs (history c) = List.map_filter (response_of sd) ps"
      "server_driven S s0 (List.map_filter (request_of sd) ps) (server_handler c)"
    unfolding intake_def by blast
  from assms(2) show ?thesis
  proof (rule transport_rx_turnE)
    fix p t r
    assume rx: "rx_poll T (transport c) = (Inr (Ready (Some p)), t)"
      and h: "handle_transport_rx_payload sd S p (c\<lparr>transport := t\<rparr>) = (r, c')"
    from rx_heard[OF ps(1) rx] have "heard t0 t (ps @ [p])" by simp
    with handle_transport_rx_payload_frame[OF h] have "heard t0 (transport c') (ps @ [p])" by simp
    with handle_transport_rx_payload_intake[OF h] ps(2,3) show ?thesis
      unfolding intake_def by (intro exI[of _ "ps @ [p]"]) simp
  next
    fix a t
    assume "rx_poll T (transport c) = (a, t)" "\<And>p. a \<noteq> Inr (Ready (Some p))" "c' = c\<lparr>transport := t\<rparr>"
    with rx_heard[OF ps(1)] arrived_none[of a] ps show ?thesis
      unfolding intake_def by (intro exI[of _ ps]) fastforce
  qed
qed

lemma poll_server_intake:
  assumes "intake sd S heard t0 s0 c" "poll_server S c = Some (r, c')"
  shows "intake sd S heard t0 s0 c'"
proof -
  have "server_driven S s0 reqs (server_handler c')" if "server_driven S s0 reqs (server_handler c)" for reqs
    using assms(2) that
    by (auto simp: poll_server_def intro: driven_poll
        split: if_splits option.splits prod.splits outcome.splits async.splits)
  with poll_server_frame[OF assms(2)] assms(1) show ?thesis unfolding intake_def by fastforce
qed

lemma resend_pending_intake:
  assumes "intake sd S heard t0 s0 c" "resend_pending T c = (r, c')"
  shows "intake sd S heard t0 s0 c'"
proof (cases "pending_payload c")
  case (Some p)
  with assms(2) have send: "send_payload T p (c\<lparr>pending_payload := None\<rparr>) = (r, c')" by (simp add: resend_pending_def)
  from send_payload_frame[OF send] send_payload_intake[OF _ send] show ?thesis
    by (intro intake_frame[OF assms(1)]) simp_all
qed (use assms in \<open>simp add: resend_pending_def\<close>)

lemma poll_transport_tx_intake:
  assumes "intake sd S heard t0 s0 c" "poll_transport_tx T c = (r, c')"
  shows "intake sd S heard t0 s0 c'"
  using assms(2) poll_complete_heard[of t0 "transport c"]
  by (intro intake_frame[OF assms(1)]) (auto simp: poll_transport_tx_def split: if_splits prod.splits sum.splits)

end

sublocale transport_source \<subseteq> intake: client_invariant sd T S "intake sd S heard t0 s0" for sd S t0 s0
proof unfold_locales
  fix c b e assume c: "intake sd S heard t0 s0 c"
  show "intake sd S heard t0 s0 (c\<lparr>shutting_down := b\<rparr>)" "intake sd S heard t0 s0 (c\<lparr>fatal_error := e\<rparr>)"
    by (rule intake_frame[OF c]; simp)+
  show "intake sd S heard t0 s0 (c\<lparr>transport := snd (tx_close T (transport c))\<rparr>)"
    using close_heard by (intro intake_frame[OF c]) simp_all
qed (rule outgoing_turn_intake resend_pending_intake transport_rx_turn_intake poll_server_intake
    poll_transport_tx_intake, assumption, assumption)+

context transport_source
begin

lemma client_run_intake:
  assumes "client_run sd T S (new_with_server rx1 rx2 rtx t s) r c"
  shows "intake sd S heard t s c"
proof (rule intake.client_run_inv[OF assms])
  show "intake sd S heard t s (new_with_server rx1 rx2 rtx t s)"
    unfolding intake_def
    by (intro exI[of _ "[]"]) (simp add: new_with_server_def List.map_filter_simps server_driven.driven_start)
qed

end

section \<open>What arrives is what is seen\<close>

text \<open>C8: The client takes in exactly what arrives. In every run, at any point, the payloads that the transport
  has delivered so far account for everything on the receiving side: the responses that the session has
  got are those among the payloads that are responses, all of them, in their order of arrival and each
  once; and the server half has been given the payloads that are requests, all, in order and each once,
  with nothing but its own polls in between.\<close>

theorem intake_from_the_wire:
  assumes "transport_source T heard"
    and "client_run sd T S (new_with_server rx1 rx2 rtx t s) r c"
  shows "\<exists>ps. heard t (transport c) ps
    \<and> got_outputs (history c) = List.map_filter (response_of sd) ps
    \<and> server_driven S s (List.map_filter (request_of sd) ps) (server_handler c)"
  using transport_source.client_run_intake[OF assms] unfolding intake_def .

theorem intake_from_the_wire_witness:
  "\<exists>ps. framed_heard (transport demo_client) (transport demo_client2) ps
     \<and> List.map_filter (response_of demo_serde) ps = [Output_Success (Some V2) (JBool True) (Id_Num 1)]"
  using intake_from_the_wire[OF ipc_source.transport_source_axioms demo_run(2)[unfolded demo_new]]
  by (auto simp: demo_history2 demo_client_def new_with_server_def)

text \<open>With the server half of the crate: it never gives more responses than it has been asked requests.\<close>

lemma server_driven_owed:
  "server_driven server_handler_ops s reqs s' \<Longrightarrow>
     length (responses s') + owed s' \<le> length (responses s) + owed s + length reqs"
proof (induction rule: server_driven.induct)
  case (driven_poll reqs s' r s'')
  with server_poll_owed[of s' r s''] show ?case by (simp add: server_handler_ops_def)
next
  case (driven_request reqs s' req sink r s'')
  with process_request_owed[of req sink s' r s''] show ?case by (simp add: server_handler_ops_def)
qed simp

end
