(* ===== verification/Client_Server.thy ===== *)
theory Client_Server
  imports Client_Intake "HOL-Library.Sublist"
begin

text \<open>
  The client and its server half together: the responses of the server half go out through the client, in
  their order, between the calls; and what happens to a client whose server half resolves.
\<close>

section \<open>Responses on their way out\<close>

fun response_text :: "serde \<Rightarrow> outgoing_message \<Rightarrow> string option" where
  "response_text sd (Msg_Response resp) = to_string_response sd resp"
| "response_text sd _ = None"

lemma session_responses:
  "subseq (List.map_filter (response_text sd) (sent_msgs evs)) (ses_wire (session_of sd evs))"
proof (induction evs rule: rev_induct)
  case Nil
  show ?case by (simp add: List.map_filter_simps)
next
  case (snoc ev evs)
  let ?w = "ses_wire (session_of sd evs)"
  show ?case
  proof (cases ev)
    case (Sent m)
    have "subseq (List.map_filter (response_text sd) [m]) zs \<longrightarrow>
        subseq (List.map_filter (response_text sd) (sent_msgs evs) @ List.map_filter (response_text sd) [m]) (?w @ zs)" for zs
      using snoc by (auto intro: list_emb_append_mono)
    moreover have "\<exists>zs. ses_wire (session_of sd (evs @ [ev])) = ?w @ zs \<and> subseq (List.map_filter (response_text sd) [m]) zs"
      using Sent by (cases m)
        (auto simp: Let_def ses_send_def ses_complete_def List.map_filter_simps split: sum.split option.split)
    ultimately show ?thesis using Sent by (auto simp: List.map_filter_def)
  next
    case (Got out)
    then have "ses_wire (session_of sd (evs @ [ev])) = ?w"
      by (simp add: ses_complete_def split: option.split)
    with snoc Got show ?thesis by simp
  qed
qed

lemma map_filter_shuffle:
  assumes "zs \<in> shuffles xs ys" "\<forall>x \<in> set xs. f x = None"
  shows "List.map_filter f zs = List.map_filter f ys"
proof -
  have "filter (\<lambda>x. f x \<noteq> None) xs = []" using assms(2) by simp
  moreover have "filter (\<lambda>x. f x \<noteq> None) zs \<in> shuffles (filter (\<lambda>x. f x \<noteq> None) xs) (filter (\<lambda>x. f x \<noteq> None) ys)"
    using assms(1) by (simp add: filter_shuffles[symmetric])
  ultimately show ?thesis by (simp add: List.map_filter_def)
qed

text \<open>The handles' channel carries calls and notifications only.\<close>

definition no_responses :: "outgoing_message receiver \<Rightarrow> bool" where
  "no_responses rx \<longleftrightarrow> (\<forall>k. \<forall>m \<in> set (items_of (stake k rx)). \<forall>resp. m \<noteq> Msg_Response resp)"

lemma responses_taken:
  assumes "client_run sd T S (new_with_server rx1 rx2 rtx t s) r c"
    and "no_responses rx1" and "delivers_in_order rx2 (responses srv)"
  shows "\<exists>l. List.map_filter (response_text sd) (sent_msgs (history c))
    = List.map_filter (response_text sd) (take l (responses srv))"
proof -
  from client_run_advances[OF assms(1)] obtain k l where
    "sent_msgs (history c) \<in> shuffles (items_of (stake k rx1)) (items_of (stake l rx2))"
    by (auto simp: advances_def hands_out_def new_with_server_def select_with_weak_def)
  moreover have "\<forall>m \<in> set (items_of (stake k rx1)). response_text sd m = None"
  proof
    fix m assume "m \<in> set (items_of (stake k rx1))"
    with assms(2) show "response_text sd m = None" by (cases m) (auto simp: no_responses_def)
  qed
  ultimately have "List.map_filter (response_text sd) (sent_msgs (history c))
      = List.map_filter (response_text sd) (items_of (stake l rx2))"
    by (rule map_filter_shuffle)
  moreover from assms(3) obtain j where "items_of (stake l rx2) = take j (responses srv)"
    using delivers_in_orderD by blast
  ultimately show ?thesis by metis
qed

text \<open>The responses of the server half reach the wire in the order in which they were given. In every run the
  client has taken a first part of the responses that the server half sent; their texts appear on the wire
  in that order, each once for each response, interleaved with the calls and notifications of the
  handles but never overtaking one another, and the others still wait in the channel.\<close>

lemma responses_on_the_wire:
  assumes "transport_contract T accepted" and "accepted t = []"
    and "client_run sd T S (new_with_server rx1 rx2 rtx t s) r c" and "r \<noteq> Panic"
    and "no_responses rx1" and "delivers_in_order rx2 (responses (server_handler c))"
  shows "\<exists>l. List.map_filter (response_text sd) (sent_msgs (history c))
        = List.map_filter (response_text sd) (take l (responses (server_handler c)))
    \<and> subseq (List.map_filter (response_text sd) (take l (responses (server_handler c))))
        (ses_wire (session_of sd (history c)))"
  using responses_taken[OF assms(3,5,6)] session_responses[of sd "history c"] by metis

text \<open>A server half that has given one response, and the poll that sends it.\<close>

definition pong :: outgoing_message where
  "pong = Msg_Response (Response_Single (Output_Success (Some V2) JNull (Id_Num 4)))"

definition ponged :: server where
  "ponged = idle_server\<lparr>responses := [pong]\<rparr>"

definition pong_rx :: "outgoing_message receiver" where
  "pong_rx = Inr (Ready (Some pong)) ## sconst (Inr NotReady)"

definition pong_client :: "(framed, server) client" where
  "pong_client = new_with_server (sconst (Inr NotReady)) pong_rx (sconst (\<lambda>_. never))
     (open_framed (sconst (Inr NotReady))) ponged"

lemma ponged_poll [simp]: "server_poll ponged = Some (Ret NotReady, ponged)"
  by (simp add: server_poll_def drain_handler_chan_def ponged_def idle_server_def server_new_def
      rust_loop.simps[of drain_turn] drain_turn_def receiver_poll_def remove_finished_def)

lemma pong_poll:
  "\<exists>c. client_poll demo_serde framed_ops server_handler_ops pong_client = Some (Ret NotReady, c)
     \<and> server_handler c = ponged \<and> history c = [Sent pong] \<and> sunk (transport c) = [''response'']"
  by (simp add: pong_client_def pong_rx_def pong_def demo_defs poll_defs,
      (subst rust_loop.simps, simp add: demo_defs poll_defs)+)

lemma responses_on_the_wire_example:
  "\<exists>c l. client_poll demo_serde framed_ops server_handler_ops pong_client = Some (Ret NotReady, c)
     \<and> [''response''] = List.map_filter (response_text demo_serde) (take l [pong])
     \<and> subseq [''response''] (ses_wire (session_of demo_serde (history c)))"
proof -
  from pong_poll obtain c where c: "client_poll demo_serde framed_ops server_handler_ops pong_client = Some (Ret NotReady, c)"
    "server_handler c = ponged" "history c = [Sent pong]" by blast
  have quiet: "no_responses (sconst (Inr NotReady))" by (simp add: no_responses_def)
  have order: "delivers_in_order pong_rx (responses (server_handler c))"
    by (simp add: c(2) ponged_def pong_rx_def delivers_one)
  have "sunk (open_framed (sconst (Inr NotReady))) = []" by simp
  from responses_on_the_wire[OF ipc.transport_contract_axioms this
      client_run.run_poll[OF client_run.run_start c(1), unfolded pong_client_def] _ quiet order]
  obtain l where "List.map_filter (response_text demo_serde) (sent_msgs (history c))
      = List.map_filter (response_text demo_serde) (take l [pong])"
    "subseq (List.map_filter (response_text demo_serde) (take l [pong])) (ses_wire (session_of demo_serde (history c)))"
    by (auto simp: c(2) ponged_def)
  moreover have "List.map_filter (response_text demo_serde) (sent_msgs (history c)) = [''response'']"
    by (simp add: c(3) pong_def demo_serde_def List.map_filter_simps)
  ultimately show ?thesis using c(1) by metis
qed

section \<open>No response without a request\<close>


text \<open>A request arrives that nobody handles; it is refused in the same poll.\<close>

definition ask_serde :: serde where
  "ask_serde = demo_serde\<lparr>from_str_request := (\<lambda>s. if s = ''ping'' then Some (Request_Single (Call_Invalid Id_Null)) else None)\<rparr>"

definition asked_client :: "(framed, server) client" where
  "asked_client = new_with_server (sconst (Inr NotReady)) (sconst (Inr NotReady)) (sconst (\<lambda>_. Resolved (Inr ())))
     (open_framed (Inr (Ready (Some ''ping'')) ## sconst (Inr NotReady))) idle_server"

definition refused :: outgoing_message where
  "refused = Msg_Response (Response_Single (Output_Failure (Some V2) Invalid_Request Id_Null))"

lemma idle_responses [simp]: "responses idle_server = []"
  by (simp add: idle_server_def server_new_def)

lemma asked_poll:
  "\<exists>c. client_poll ask_serde framed_ops server_handler_ops asked_client = Some (Ret NotReady, c)
     \<and> responses (server_handler c) = [refused] \<and> history c = []"
  by (simp add: asked_client_def ask_serde_def refused_def demo_defs poll_defs process_request_def
      driveable_future_def handle_single_call_def drive_send_def failure_def,
      (subst rust_loop.simps, simp add: demo_defs poll_defs process_request_def
      driveable_future_def handle_single_call_def drive_send_def failure_def)+)


section \<open>When the server half resolves\<close>

lemma outgoing_turn_shutting:
  "outgoing_turn sd T c = (f, c') \<Longrightarrow> shutting_down c' = shutting_down c"
  by (erule outgoing_turnE) (auto dest: handle_client_payload_frame)

lemma poll_outgoing_messages_shutting:
  "poll_outgoing_messages sd T c = Some (r, c') \<Longrightarrow> shutting_down c' = shutting_down c"
  unfolding poll_outgoing_messages_def
  by (rule rust_loop_invariant[where I = "\<lambda>d. shutting_down d = shutting_down c"], assumption)
    (auto dest: outgoing_turn_shutting)

text \<open>A server half that resolves is noticed one poll late. The poll in which it resolves goes on as if nothing
  had happened: it drains the transport, takes messages from the handles, sends them, and answers
  \<open>NotReady\<close> without having touched the sink's \<open>close\<close>; only the flag is set, and it is the next poll, for
  which nothing has been arranged, that begins to shut down.\<close>

lemma server_end_noticed_late:
  assumes "\<not> should_shut_down c" and "resend_pending T c = (Ret (), c1)"
    and "sh_poll S (server_handler c) = Some (Ret (Ready ()), s)"
    and "poll_transport_rx sd T S (c1\<lparr>server_handler := s, shutting_down := True\<rparr>) = Some (Ret (), c2)"
    and "poll_outgoing_messages sd T c2 = Some (Ret (), c3)" and "poll_transport_tx T c3 = (Ret (), c4)"
  shows "client_poll sd T S c = Some (Ret NotReady, c4) \<and> shutting_down c4
    \<and> client_poll sd T S c4 = handle_shutdown sd T S c4"
proof -
  have c1: "server_handler c1 = server_handler c" "\<not> shutting_down c1"
    using assms(1,2) by (auto simp: resend_pending_def should_shut_down_def dest!: send_payload_frame split: option.splits)
  have "handle_messages sd T S c = Some (Ret (), c4)"
    using assms(2-6) c1 by (simp add: handle_messages_def poll_server_def)
  moreover have "shutting_down c4"
    using poll_transport_rx_frame[OF assms(4)] poll_outgoing_messages_shutting[OF assms(5)]
      poll_transport_tx_frame[OF assms(6)] by simp
  ultimately show ?thesis using assms(1) by (simp add: client_poll_def should_shut_down_def)
qed

text \<open>A server half that resolves at once.\<close>

definition done_ops :: "unit server_ops" where
  "done_ops = \<lparr>sh_process_request = (\<lambda>_ _ s. (Ret (), s)), sh_poll = (\<lambda>s. Some (Ret (Ready ()), s))\<rparr>"

definition ending_client :: "(framed, unit) client" where
  "ending_client = new_with_server demo_calls (sconst (Inr NotReady)) (sconst (\<lambda>_. never))
     (open_framed (sconst (Inr NotReady))) ()"

lemma server_end_noticed_late_example:
  "\<exists>c. client_poll demo_serde framed_ops done_ops ending_client = Some (Ret NotReady, c)
     \<and> shutting_down c \<and> sunk (transport c) = [''add'']"
proof -
  obtain c2 where c2: "poll_transport_rx demo_serde framed_ops done_ops (ending_client\<lparr>server_handler := (), shutting_down := True\<rparr>)
      = Some (Ret (), c2)" "outgoing_payload_rx c2 = outgoing_payload_rx ending_client" "pending_payload c2 = None"
      "fatal_error c2 = None" "transport c2 = transport ending_client" "id_generator c2 = id_generator_new"
    by (simp add: ending_client_def demo_defs poll_defs rust_loop.simps[of "transport_rx_turn _ _ _"] )
  obtain c3 where c3: "poll_outgoing_messages demo_serde framed_ops c2 = Some (Ret (), c3)" "sunk (transport c3) = [''add'']"
      "fatal_error c3 = None" "shd (flush_answers (transport c3)) = Inr (Ready ())"
    using c2(2-)
    by (simp add: ending_client_def demo_defs poll_defs, (subst (asm) rust_loop.simps, simp add: demo_defs poll_defs)+)
  obtain c4 where c4: "poll_transport_tx framed_ops c3 = (Ret (), c4)" "sunk (transport c4) = [''add'']"
    using c3(2-4) by (simp add: poll_transport_tx_def)
  have start: "\<not> should_shut_down ending_client" "resend_pending framed_ops ending_client = (Ret (), ending_client)"
    "sh_poll done_ops (server_handler ending_client) = Some (Ret (Ready ()), ())"
    by (simp_all add: ending_client_def demo_defs should_shut_down_def resend_pending_def done_ops_def)
  from server_end_noticed_late[OF start c2(1) c3(1) c4(1)] c4(2) show ?thesis by blast
qed

end
