(* ===== verification/Server_Service.thy ===== *)
theory Server_Service
  imports Server
begin

text \<open>
  The server half in use: between two polls any number of requests can arrive, and the handlers can change.
  A request that has been accepted makes progress with every poll, whatever arrives in between, so its response
  is sent after as many polls as its own handlers and the channel to the client need.
\<close>

section \<open>One poll and one request\<close>

lemma still_pending_lookup:
  assumes "btree_ok m" "map_of m key = Some d" "\<forall>c \<in> snd ` set m. \<exists>a. fst (drive c) = Ret a"
  shows "(\<exists>d'. drive d = (Ret NotReady, d', []) \<and> map_of (still_pending m) key = Some d')
    \<or> (\<exists>ms. drive d = (Ret (Ready ()), Drv_done, ms) \<and> mset ms \<subseteq># mset (emitted m))"
  using assms
proof (induction m)
  case (Cons p m)
  obtain k c where p: "p = (k, c)" by (cases p)
  show ?case
  proof (cases "k = key")
    case True
    with Cons.prems(2,3) p show ?thesis by (cases d rule: drive_cases) auto
  next
    case False
    with Cons.IH Cons.prems p have IH: "(\<exists>d'. drive d = (Ret NotReady, d', []) \<and> map_of (still_pending m) key = Some d')
        \<or> (\<exists>ms. drive d = (Ret (Ready ()), Drv_done, ms) \<and> mset ms \<subseteq># mset (emitted m))"
      by (simp add: btree_ok_Cons)
    have "mset (emitted m) \<subseteq># mset (emitted (p # m))" by (simp add: p)
    with IH have "(\<exists>d'. drive d = (Ret NotReady, d', []) \<and> map_of (still_pending m) key = Some d')
        \<or> (\<exists>ms. drive d = (Ret (Ready ()), Drv_done, ms) \<and> mset ms \<subseteq># mset (emitted (p # m)))"
      using subset_mset.order_trans by blast
    moreover have "map_of (still_pending (p # m)) key = map_of (still_pending m) key"
      using False Cons.prems(3) p by (cases c rule: drive_cases) auto
    ultimately show ?thesis by simp
  qed
qed simp

lemma server_poll_progress:
  assumes "server_ok srv" "server_poll srv = Some (Ret NotReady, srv')"
  shows "server_ok srv' \<and> future_ids srv' = future_ids srv
    \<and> pending_futures srv' = still_pending (pending_futures srv)
    \<and> responses srv' = responses srv @ emitted (pending_futures srv)
    \<and> (\<forall>c \<in> snd ` set (pending_futures srv). \<exists>a. fst (drive c) = Ret a)"
proof -
  obtain o1 m ms where pf: "poll_futures (pending_futures srv) = (o1, m, ms)"
    by (cases "poll_futures (pending_futures srv)")
  with server_poll_unfold[OF assms(1)] assms(2) obtain polled where "o1 = Ret polled"
    by (cases o1) auto
  with pf server_poll_unfold[OF assms(1)] assms(2) obtain s1 where
    s1: "same_work srv s1" "channel_ok (handler_chan s1)"
    "srv' = s1\<lparr>pending_futures := still_pending (pending_futures srv), responses := responses srv @ emitted (pending_futures srv)\<rparr>"
    by auto
  moreover have "server_ok srv'"
    using s1(2,3) assms(1) btree_ok_still_pending[of "pending_futures srv"] still_pending_not_done[of "pending_futures srv"]
    unfolding server_ok_def by (simp del: image_iff)
  moreover from pf \<open>o1 = Ret polled\<close> poll_futures_Ret_aux
  have "\<forall>c \<in> snd ` set (pending_futures srv). \<exists>a. fst (drive c) = Ret a" by blast
  ultimately show ?thesis by (simp add: same_work_def)
qed

lemma process_request_frame:
  assumes "process_request req sink srv = (r, srv')" "0 < ids_remaining (future_ids srv)"
  shows "ids_remaining (future_ids srv) \<le> Suc (ids_remaining (future_ids srv'))
    \<and> (\<exists>new. responses srv' = responses srv @ new)"
  using assms(1)
proof (cases rule: process_request_cases)
  case (pushed d)
  with future_ids.draw_remaining[OF assms(2)] show ?thesis
    by (auto simp: push_future_def id_next_int_def)
qed auto

section \<open>A server in use\<close>

text \<open>
  \<open>n\<close> polls, each answered \<open>NotReady\<close>, with the requests \<open>reqs\<close> accepted before, between and after them, each
  with one of the senders \<open>K\<close> for its response.
\<close>

inductive server_used :: "response_sender set \<Rightarrow> server \<Rightarrow> nat \<Rightarrow> request list \<Rightarrow> server \<Rightarrow> bool" for K s0 where
  used_start: "server_used K s0 0 [] s0"
| used_poll: "server_used K s0 n reqs s \<Longrightarrow> server_poll s = Some (Ret NotReady, s') \<Longrightarrow> server_used K s0 (Suc n) reqs s'"
| used_request: "server_used K s0 n reqs s \<Longrightarrow> sink \<in> K \<Longrightarrow> process_request req sink s = (Ret (), s')
     \<Longrightarrow> server_used K s0 n (reqs @ [req]) s'"

lemma server_used_ok:
  assumes "server_used K s0 n reqs s" "server_ok s0" "keys_ok s0" "length reqs \<le> ids_remaining (future_ids s0)"
  shows "server_ok s \<and> keys_ok s \<and> ids_remaining (future_ids s0) \<le> ids_remaining (future_ids s) + length reqs
    \<and> (\<exists>new. responses s = responses s0 @ new)"
  using assms
proof (induction rule: server_used.induct)
  case (used_poll n reqs s s')
  then have s: "server_ok s" "keys_ok s" "ids_remaining (future_ids s0) \<le> ids_remaining (future_ids s) + length reqs"
      "\<exists>new. responses s = responses s0 @ new" by blast+
  from server_poll_progress[OF s(1) used_poll.hyps(2)] have p: "server_ok s'" "future_ids s' = future_ids s"
    "pending_futures s' = still_pending (pending_futures s)" "responses s' = responses s @ emitted (pending_futures s)"
    by blast+
  have "keys_ok s'"
    using s(2) still_pending_keys[of "pending_futures s"] unfolding keys_ok_def p by (rule order_trans[rotated])
  with p s(3,4) show ?case by auto
next
  case (used_request n reqs s sink req s')
  then have s: "server_ok s" "keys_ok s" "0 < ids_remaining (future_ids s)"
      "ids_remaining (future_ids s0) \<le> ids_remaining (future_ids s) + length reqs" "\<exists>new. responses s = responses s0 @ new"
    by auto
  have "keys_ok s'"
    using used_request.hyps(3)
  proof (cases rule: process_request_cases)
    case (pushed d)
    with push_future_keys[OF s(2,3)] show ?thesis by simp
  next
    case answered
    with s(2) show ?thesis by (simp add: keys_ok_def)
  qed
  with s process_request_ok[OF s(1), of req sink] process_request_frame[OF used_request.hyps(3) s(3)] used_request.hyps(3)
  show ?case by auto
qed simp

text \<open>A pending future goes one step with each poll and is left alone by everything else.\<close>

lemma server_used_progress:
  assumes "server_used K s0 n reqs s" "server_ok s0" "keys_ok s0" "length reqs \<le> ids_remaining (future_ids s0)"
    and "map_of (pending_futures s0) key = Some d" "settles N d ms"
  shows "(\<exists>d'. map_of (pending_futures s) key = Some d' \<and> settles (N - n) d' ms)
    \<or> (\<exists>new. responses s = responses s0 @ new \<and> mset ms \<subseteq># mset new)"
  using assms
proof (induction rule: server_used.induct)
  case (used_poll n reqs s s')
  from server_used_ok[OF used_poll.hyps(1)] used_poll.prems
  obtain old where s: "server_ok s" "responses s = responses s0 @ old" by blast
  from server_poll_progress[OF s(1) used_poll.hyps(2)] have p: "pending_futures s' = still_pending (pending_futures s)"
    "responses s' = responses s @ emitted (pending_futures s)"
    "\<forall>c \<in> snd ` set (pending_futures s). \<exists>a. fst (drive c) = Ret a" by blast+
  from used_poll.IH[OF used_poll.prems] show ?case
  proof (elim disjE exE conjE)
    fix new assume "responses s = responses s0 @ new" "mset ms \<subseteq># mset new"
    with p(2) show ?thesis by (intro disjI2 exI[of _ "new @ emitted (pending_futures s)"])
      (auto intro: subset_mset.order_trans)
  next
    fix d' assume d': "map_of (pending_futures s) key = Some d'" "settles (N - n) d' ms"
    then obtain k where k: "N - n = Suc k" by (cases "N - n") auto
    then have k': "N - Suc n = k" by simp
    from s(1) have "btree_ok (pending_futures s)" by (simp add: server_ok_def)
    from still_pending_lookup[OF this d'(1) p(3)] show ?thesis
    proof (elim disjE exE conjE)
      fix d'' assume "drive d' = (Ret NotReady, d'', [])" "map_of (still_pending (pending_futures s)) key = Some d''"
      with d'(2) k k' p(1) show ?thesis by auto
    next
      fix ms' assume "drive d' = (Ret (Ready ()), Drv_done, ms')" "mset ms' \<subseteq># mset (emitted (pending_futures s))"
      with d'(2) k p(2) s(2) show ?thesis
        by (intro disjI2 exI[of _ "old @ emitted (pending_futures s)"]) (auto intro: subset_mset.order_trans)
    qed
  qed
next
  case (used_request n reqs s sink req s')
  from used_request.prems have len: "length reqs < ids_remaining (future_ids s0)" by simp
  with server_used_ok[OF used_request.hyps(1)] used_request.prems
  have s: "server_ok s" "keys_ok s" "0 < ids_remaining (future_ids s)" by auto
  from used_request.IH[OF used_request.prems(1,2) _ used_request.prems(4,5)] len
  have "(\<exists>d'. map_of (pending_futures s) key = Some d' \<and> settles (N - n) d' ms)
    \<or> (\<exists>new. responses s = responses s0 @ new \<and> mset ms \<subseteq># mset new)" by simp
  then show ?case
  proof (elim disjE exE conjE)
    fix d' assume "map_of (pending_futures s) key = Some d'" "settles (N - n) d' ms"
    with accepting_keeps_pending[OF s(2,3) used_request.hyps(3)] show ?thesis by blast
  next
    fix new assume "responses s = responses s0 @ new" "mset ms \<subseteq># mset new"
    moreover from process_request_frame[OF used_request.hyps(3) s(3)] obtain new' where
      "responses s' = responses s @ new'" by blast
    ultimately show ?thesis
      by (intro disjI2 exI[of _ "new @ new'"]) (simp add: subset_mset.add_increasing2)
  qed
qed auto

section \<open>Every request in its time\<close>

text \<open>
  A schedule lists, for every request accepted so far, the poll by which it must have been answered and the
  messages that answer it. It is kept when the pending futures are on time and the responses sent
  are those of the others.
\<close>

type_synonym entry = "nat \<times> outgoing_message list"

definition on_time :: "nat \<Rightarrow> drivable \<Rightarrow> entry \<Rightarrow> bool" where
  "on_time n d e \<longleftrightarrow> n < fst e \<and> settles (fst e - n) d (snd e)"

definition on_schedule :: "outgoing_message multiset \<Rightarrow> nat \<Rightarrow> server \<Rightarrow> entry list \<Rightarrow> bool" where
  "on_schedule base n srv es \<longleftrightarrow> (\<exists>ps ds. mset es = mset ps + mset ds
     \<and> list_all2 (\<lambda>(_, d). on_time n d) (pending_futures srv) ps
     \<and> mset (responses srv) = base + mset (concat (map snd ds)))"

lemma on_time_step:
  assumes "on_time n d (t, ms)"
  shows "(\<exists>d'. drive d = (Ret NotReady, d', []) \<and> on_time (Suc n) d' (t, ms))
    \<or> drive d = (Ret (Ready ()), Drv_done, ms)"
proof -
  from assms obtain j where j: "t - n = Suc j" "settles (Suc j) d ms" unfolding on_time_def by (cases "t - n") auto
  then have t: "t - Suc n = j" "Suc n < t \<longleftrightarrow> j \<noteq> 0" by auto
  from j(2) t show ?thesis
    by (cases d rule: drive_cases; cases "j = 0") (auto simp: on_time_def simp del: settles.simps(2) split: if_splits,
        auto simp: on_time_def)
qed

lemma schedule_poll_futures:
  assumes "list_all2 (\<lambda>(_, d). on_time n d) m ps"
  shows "\<exists>ps' ds. mset ps = mset ps' + mset ds \<and> list_all2 (\<lambda>(_, d). on_time (Suc n) d) (still_pending m) ps'
    \<and> mset (emitted m) = mset (concat (map snd ds))"
  using assms
proof (induction m ps rule: list_all2_induct)
  case (Cons p m e ps)
  obtain key d where p: "p = (key, d)" by (cases p)
  obtain t ms where e: "e = (t, ms)" by (cases e)
  from Cons.IH obtain ps' ds where IH: "mset ps = mset ps' + mset ds"
    "list_all2 (\<lambda>(_, d). on_time (Suc n) d) (still_pending m) ps'" "mset (emitted m) = mset (concat (map snd ds))"
    by blast
  from Cons.hyps p e on_time_step[of n d t ms]
  consider (pending) d' where "drive d = (Ret NotReady, d', [])" "on_time (Suc n) d' (t, ms)"
    | (finished) "drive d = (Ret (Ready ()), Drv_done, ms)" by auto
  then show ?case
  proof cases
    case pending
    with IH p e show ?thesis by (intro exI[of _ "e # ps'"] exI[of _ ds]) simp
  next
    case finished
    with IH p e show ?thesis by (intro exI[of _ ps'] exI[of _ "e # ds"]) simp
  qed
qed simp

lemma schedule_poll:
  assumes "on_schedule base n srv es" "server_ok srv" "server_poll srv = Some (Ret NotReady, srv')"
  shows "on_schedule base (Suc n) srv' es"
proof -
  from assms(1) obtain ps ds where s: "mset es = mset ps + mset ds"
    "list_all2 (\<lambda>(_, d). on_time n d) (pending_futures srv) ps" "mset (responses srv) = base + mset (concat (map snd ds))"
    unfolding on_schedule_def by blast
  from schedule_poll_futures[OF s(2)] obtain ps' ds' where "mset ps = mset ps' + mset ds'"
    "list_all2 (\<lambda>(_, d). on_time (Suc n) d) (still_pending (pending_futures srv)) ps'"
    "mset (emitted (pending_futures srv)) = mset (concat (map snd ds'))" by blast
  with s server_poll_progress[OF assms(2,3)] show ?thesis
    unfolding on_schedule_def by (intro exI[of _ ps'] exI[of _ "ds @ ds'"]) simp
qed

lemma list_all2_btree_insert:
  assumes "list_all2 (\<lambda>(_, d). P d) m es" "P d e" "key \<notin> fst ` set m"
  shows "\<exists>es'. list_all2 (\<lambda>(_, d). P d) (btree_insert key d m) es' \<and> mset es' = add_mset e (mset es)"
  using assms(1,3)
proof (induction m es rule: list_all2_induct)
  case Nil
  then show ?case using assms(2) by (intro exI[of _ "[e]"]) simp
next
  case (Cons p m e1 es)
  obtain k c where p: "p = (k, c)" by (cases p)
  with Cons obtain es' where IH: "list_all2 (\<lambda>(_, d). P d) (btree_insert key d m) es'" "mset es' = add_mset e (mset es)"
    by auto
  show ?case
  proof (cases "key < k")
    case True
    with Cons p assms(2) show ?thesis by (intro exI[of _ "e # e1 # es"]) simp
  next
    case False
    with Cons p IH show ?thesis by (intro exI[of _ "e1 # es'"]) auto
  qed
qed

lemma schedule_request:
  assumes "on_schedule base n srv es" "server_ok srv" "keys_ok srv"
    and "calls_resolve N (handler_map srv) (request_calls req) os" "sink_delivers k sink"
    and "process_request req sink srv = (Ret (), srv')"
  shows "\<exists>ms. response_for req os ms \<and> on_schedule base n srv' (es @ [(n + N + k, ms)])"
proof -
  let ?d = "driveable_future (handler_map srv) req sink"
  from assms(1) obtain ps ds where s: "mset es = mset ps + mset ds"
    "list_all2 (\<lambda>(_, d). on_time n d) (pending_futures srv) ps" "mset (responses srv) = base + mset (concat (map snd ds))"
    unfolding on_schedule_def by blast
  from driveable_future_settles[OF assms(4,5)] obtain ms where
    ms: "settles (Suc (N + k)) ?d ms" "response_for req os ms" by blast
  let ?e = "(n + N + k, ms)"
  have "on_schedule base n srv' (es @ [?e])"
  proof (cases ?d rule: drive_cases)
    case (pending d')
    then have push: "srv' = push_future d' srv" using assms(6) by (simp add: process_request_def)
    from ms(1) pending have "settles (N + k) d' ms" by simp
    then have "on_time n d' ?e" unfolding on_time_def by (cases "N + k") (simp_all del: settles.simps(2))
    moreover have "next_id (future_ids srv) \<notin> fst ` set (pending_futures srv)"
      using assms(3) next_id_not_issued unfolding keys_ok_def by blast
    ultimately obtain ps' where
      "list_all2 (\<lambda>(_, d). on_time n d) (btree_insert (next_id (future_ids srv)) d' (pending_futures srv)) ps'"
      "mset ps' = add_mset ?e (mset ps)"
      using list_all2_btree_insert[OF s(2)] by blast
    with s push show ?thesis unfolding on_schedule_def
      by (intro exI[of _ ps'] exI[of _ ds]) (simp add: push_future_def id_next_int_def)
  next
    case (ready ms')
    with ms(1) assms(6) have "srv' = srv\<lparr>responses := responses srv @ ms\<rparr>" by (auto simp: process_request_def)
    with s show ?thesis unfolding on_schedule_def by (intro exI[of _ ps] exI[of _ "?e # ds"]) simp
  qed (use ms(1) in auto)
  with ms(2) show ?thesis by blast
qed

text \<open>What is due has been sent.\<close>

lemma schedule_due:
  assumes "on_schedule base n srv (es @ es')" "\<forall>e \<in> set es. fst e \<le> n"
  shows "base + mset (concat (map snd es)) \<subseteq># mset (responses srv)
    \<and> mset (responses srv) \<subseteq># base + mset (concat (map snd (es @ es')))"
proof -
  have msgs: "mset (concat (map snd xs)) \<subseteq># mset (concat (map snd ys))" if "mset xs \<subseteq># mset ys" for xs ys :: "entry list"
  proof -
    have sum: "mset (concat (map snd zs)) = \<Sum>\<^sub># (image_mset (mset \<circ> snd) (mset zs))" for zs :: "entry list"
      by (induction zs) simp_all
    from that show ?thesis unfolding sum by (metis image_mset_union mset_subset_eq_add_left subset_mset.add_diff_inverse sum_mset.union)
  qed
  from assms(1) obtain ps ds where s: "mset (es @ es') = mset ps + mset ds"
    "list_all2 (\<lambda>(_, d). on_time n d) (pending_futures srv) ps" "mset (responses srv) = base + mset (concat (map snd ds))"
    unfolding on_schedule_def by blast
  have "\<forall>e \<in> set ps. \<not> fst e \<le> n"
    using s(2) by (induction rule: list_all2_induct) (auto simp: on_time_def)
  then have "filter_mset (\<lambda>e. fst e \<le> n) (mset ps) = {#}" by (simp add: filter_mset_eq_conv)
  moreover have "filter_mset (\<lambda>e. fst e \<le> n) (mset es) = mset es" using assms(2) by (simp add: filter_mset_eq_conv)
  ultimately have "mset es + filter_mset (\<lambda>e. fst e \<le> n) (mset es') = filter_mset (\<lambda>e. fst e \<le> n) (mset ds)"
    using arg_cong[OF s(1), of "filter_mset (\<lambda>e. fst e \<le> n)"] by simp
  then have "mset es \<subseteq># mset ds"
    by (metis mset_subset_eq_add_left multiset_filter_subset subset_mset.order_trans)
  moreover have "mset ds \<subseteq># mset (es @ es')" using s(1) by simp
  ultimately show ?thesis using msgs[of es ds] msgs[of ds "es @ es'"] s(3) by simp
qed

section \<open>What the handlers keep\<close>

text \<open>
  A property \<open>P\<close> of the handler map that every message of the handler channel keeps, as long as the messages
  satisfy \<open>M\<close>: the server keeps it for ever.
\<close>

definition handlers_keep :: "(handlers \<Rightarrow> bool) \<Rightarrow> (handler_msg \<Rightarrow> bool) \<Rightarrow> server \<Rightarrow> bool" where
  "handlers_keep P M srv \<longleftrightarrow> P (handler_map srv) \<and> (\<forall>chan. handler_chan srv = Some chan \<longrightarrow> carries M chan)"

locale handlers_invariant =
  fixes P :: "handlers \<Rightarrow> bool" and M :: "handler_msg \<Rightarrow> bool"
  assumes msg_keeps: "P (handler_map srv) \<Longrightarrow> M msg \<Longrightarrow> P (handler_map (handle_msg msg srv))"
begin

lemma drain_keeps:
  assumes "handlers_keep P M srv" "drain_handler_chan srv = Some (r, srv')"
  shows "handlers_keep P M srv'"
proof (cases "handler_chan srv")
  case (Some chan)
  with assms(2) obtain c where loop: "rust_loop drain_turn (chan, srv\<lparr>handler_chan := None\<rparr>) = Some (r, c, srv')"
    by (auto simp: drain_handler_chan_def)
  let ?I = "\<lambda>(c, s). handler_chan s = None \<and> carries M c \<and> P (handler_map s)"
  from loop have "handlers_keep P M (snd (c, srv'))"
  proof (rule rust_loop_invariant[where I = ?I])
    show "?I (chan, srv\<lparr>handler_chan := None\<rparr>)" using assms(1) Some by (simp add: handlers_keep_def)
  next
    fix t u assume I: "?I t" and turn: "drain_turn t = (Continue, u)"
    obtain c s c' s' where tu: "t = (c, s)" "u = (c', s')" by fastforce
    from turn obtain msg where m: "shd c = Inr (Ready (Some msg))" "c' = stl c" "s' = handle_msg msg s"
      unfolding tu by (rule drain_turn_cases) simp_all
    with I msg_keeps[of s msg] carries_shd[of M c msg] show "?I u" by (simp add: tu carries_stl)
  next
    fix t u q assume I: "?I t" and turn: "drain_turn t = (Return q, u)"
    obtain c s c' s' where tu: "t = (c, s)" "u = (c', s')" by fastforce
    from I have "carries M (stl c)" by (simp add: tu carries_stl)
    with turn I show "handlers_keep P M (snd u)"
      unfolding tu by (auto simp: handlers_keep_def elim!: drain_turn_cases)
  qed
  then show ?thesis by simp
qed (use assms in \<open>simp add: drain_handler_chan_def\<close>)

lemma poll_keeps:
  assumes "handlers_keep P M srv" "server_poll srv = Some (r, srv')"
  shows "handlers_keep P M srv'"
proof -
  from assms(2) obtain q srv1 where d: "drain_handler_chan srv = Some (q, srv1)"
    by (auto simp: server_poll_def try_then_def split: option.splits)
  obtain a m ms where p: "poll_futures (pending_futures srv1) = (a, m, ms)" by (metis prod_cases3)
  from assms(2) d p drain_keeps[OF assms(1) d] show ?thesis
    by (cases q; cases a) (auto simp: server_poll_def handlers_keep_def)
qed

lemma request_keeps:
  assumes "handlers_keep P M srv" "process_request req sink srv = (r, srv')"
  shows "handlers_keep P M srv'"
  using assms(2)
  by (cases rule: process_request_cases)
    (use assms(1) in \<open>simp_all add: handlers_keep_def push_future_def id_next_int_def\<close>)

lemma server_used_keeps: "server_used K s0 n reqs s \<Longrightarrow> handlers_keep P M s0 \<Longrightarrow> handlers_keep P M s"
  by (induction rule: server_used.induct) (auto dest: poll_keeps request_keeps)

end

section \<open>Handlers that resolve\<close>

definition handler_resolves :: "nat \<Rightarrow> handler \<Rightarrow> bool" where
  "handler_resolves N h \<longleftrightarrow>
     (case h of
        Handler_Method f \<Rightarrow> \<forall>mc. \<exists>out. resolves_within N (f mc) (Inr out)
      | Handler_Notification f \<Rightarrow> \<forall>nt. resolves_within N (f nt) (Inr ()))"

definition adds_resolving :: "nat \<Rightarrow> handler_msg \<Rightarrow> bool" where
  "adds_resolving N msg \<longleftrightarrow> (\<forall>name h tx. msg = AddHandler name h tx \<longrightarrow> handler_resolves N h)"

text \<open>Every handler that the server has or will be given resolves within \<open>N\<close> polls.\<close>

definition resolving :: "nat \<Rightarrow> server \<Rightarrow> bool" where
  "resolving N = handlers_keep (\<lambda>hs. \<forall>h \<in> ran hs. handler_resolves N h) (adds_resolving N)"

interpretation resolving_handlers: handlers_invariant "\<lambda>hs. \<forall>h \<in> ran hs. handler_resolves N h" "adds_resolving N" for N
proof
  fix srv :: server and msg
  assume "\<forall>h \<in> ran (handler_map srv). handler_resolves N h" "adds_resolving N msg"
  then show "\<forall>h \<in> ran (handler_map (handle_msg msg srv)). handler_resolves N h"
    by (cases msg) (auto simp: adds_resolving_def handlers_add_def handlers_remove_def reply_def ran_def
        split: option.splits if_splits)
qed

lemmas server_used_resolving = resolving_handlers.server_used_keeps[folded resolving_def]

lemma resolving_calls:
  assumes "resolving N srv"
  shows "\<exists>os. calls_resolve N (handler_map srv) calls os"
proof -
  have "\<exists>out. resolves_within N (handle_single_call (handler_map srv) c) (Inr out)" for c
  proof (cases c)
    case (Call_MethodCall mc)
    show ?thesis
    proof (cases "\<exists>f. handler_map srv (mc_method mc) = Some (Handler_Method f)")
      case True
      then obtain f where f: "handler_map srv (mc_method mc) = Some (Handler_Method f)" by blast
      with assms obtain out where "resolves_within N (f mc) (Inr out)"
        by (fastforce simp: resolving_def handlers_keep_def handler_resolves_def ran_def)
      with resolves_within_map_ok[of N "f mc" "Inr out" Some] f Call_MethodCall show ?thesis
        by (auto simp: handle_single_call_def handle_method_call_def)
    qed (auto simp: Call_MethodCall handle_single_call_def handle_method_call_def split: option.splits handler.splits)
  next
    case (Call_Notification nt)
    show ?thesis
    proof (cases "\<exists>f. handler_map srv (n_method nt) = Some (Handler_Notification f)")
      case True
      then obtain f where f: "handler_map srv (n_method nt) = Some (Handler_Notification f)" by blast
      with assms have "resolves_within N (f nt) (Inr ())"
        by (fastforce simp: resolving_def handlers_keep_def handler_resolves_def ran_def)
      with resolves_within_map_ok[of N "f nt" "Inr ()" "\<lambda>_. None"] f Call_Notification show ?thesis
        by (auto simp: handle_single_call_def handle_notification_call_def)
    qed (auto simp: Call_Notification handle_single_call_def handle_notification_call_def split: option.splits handler.splits)
  qed (simp add: handle_single_call_def)
  then obtain f where "resolves_within N (handle_single_call (handler_map srv) c) (Inr (f c))" for c by metis
  then show ?thesis
    by (intro exI[of _ "map f calls"]) (simp add: calls_resolve_def list_all2_conv_all_nth)
qed

lemma server_used_trans:
  "server_used K s m reqs' s' \<Longrightarrow> server_used K s0 n reqs s \<Longrightarrow> server_used K s0 (n + m) (reqs @ reqs') s'"
proof (induction rule: server_used.induct)
  case (used_poll m reqs' s1 s2)
  with server_used.used_poll[OF used_poll.IH[OF used_poll.prems] used_poll.hyps(2)] show ?case by simp
next
  case (used_request m reqs' s1 sink req s2)
  with server_used.used_request[OF used_request.IH[OF used_request.prems] used_request.hyps(2,3)] show ?case by simp
qed simp

text \<open>The messages that answer a request, by the handlers the server has when it accepts it.\<close>

definition answers_as :: "nat \<Rightarrow> response_sender set \<Rightarrow> server \<Rightarrow> request \<Rightarrow> outgoing_message list \<Rightarrow> bool" where
  "answers_as N K s0 req ms \<longleftrightarrow> (\<exists>n reqs s os. server_used K s0 n reqs s
     \<and> calls_resolve N (handler_map s) (request_calls req) os \<and> response_for req os ms)"

lemma used_on_schedule:
  assumes "server_used K s n reqs s'" "server_used K s0 n0 reqs0 s" "on_schedule base n0 s es0"
    and "server_ok s0" "keys_ok s0" "resolving N s0" "\<forall>sink \<in> K. sink_delivers k sink"
    and "length reqs0 + length reqs \<le> ids_remaining (future_ids s0)"
  shows "\<exists>es. on_schedule base (n0 + n) s' (es0 @ es)
    \<and> list_all2 (\<lambda>req e. fst e \<le> n0 + n + N + k \<and> answers_as N K s0 req (snd e)) reqs es"
  using assms
proof (induction rule: server_used.induct)
  case used_start
  then show ?case by simp
next
  case (used_poll n reqs s1 s2)
  then obtain es where es: "on_schedule base (n0 + n) s1 (es0 @ es)"
    "list_all2 (\<lambda>req e. fst e \<le> n0 + n + N + k \<and> answers_as N K s0 req (snd e)) reqs es" by blast
  from server_used_ok[OF server_used_trans[OF used_poll.hyps(1) used_poll.prems(1)]] used_poll.prems
  have "server_ok s1" by simp
  from schedule_poll[OF es(1) this used_poll.hyps(2)] list_all2_mono[OF es(2)] show ?case
    by (intro exI[of _ es]) auto
next
  case (used_request n reqs s1 sink req s2)
  then obtain es where es: "on_schedule base (n0 + n) s1 (es0 @ es)"
    "list_all2 (\<lambda>req e. fst e \<le> n0 + n + N + k \<and> answers_as N K s0 req (snd e)) reqs es" by auto
  note sofar = server_used_trans[OF used_request.hyps(1) used_request.prems(1)]
  from server_used_ok[OF sofar] used_request.prems have ok: "server_ok s1" "keys_ok s1" by simp_all
  from server_used_resolving[OF sofar used_request.prems(5)] resolving_calls obtain os where
    os: "calls_resolve N (handler_map s1) (request_calls req) os" by blast
  from used_request.prems(6) used_request.hyps(2) have "sink_delivers k sink" by blast
  from schedule_request[OF es(1) ok os this used_request.hyps(3)] obtain ms where
    "response_for req os ms" "on_schedule base (n0 + n) s2 ((es0 @ es) @ [(n0 + n + N + k, ms)])" by blast
  moreover from this(1) os sofar have "answers_as N K s0 req ms" unfolding answers_as_def by blast
  ultimately show ?case
    using es(2) by (intro exI[of _ "es @ [(n0 + n + N + k, ms)]"]) (simp add: list_all2_appendI)
qed

lemma used_in_time:
  assumes "server_used K s0 n reqs s" "server_used K s m reqs' s'" "N + k \<le> m"
    and "server_ok s0" "pending_futures s0 = []" "resolving N s0" "\<forall>sink \<in> K. sink_delivers k sink"
    and "length reqs + length reqs' \<le> ids_remaining (future_ids s0)"
  shows "\<exists>mss mss'. list_all2 (answers_as N K s0) reqs mss \<and> list_all2 (answers_as N K s0) reqs' mss'
    \<and> mset (responses s0) + mset (concat mss) \<subseteq># mset (responses s')
    \<and> mset (responses s') \<subseteq># mset (responses s0) + mset (concat (mss @ mss'))"
proof -
  have keys: "keys_ok s0" using assms(5) by (simp add: keys_ok_def)
  have "on_schedule (mset (responses s0)) 0 s0 []" using assms(5) by (simp add: on_schedule_def)
  from used_on_schedule[OF assms(1) used_start this assms(4) keys assms(6,7)] assms(8) obtain es where
    es: "on_schedule (mset (responses s0)) n s es"
    "list_all2 (\<lambda>req e. fst e \<le> n + N + k \<and> answers_as N K s0 req (snd e)) reqs es" by auto
  from used_on_schedule[OF assms(2,1) es(1) assms(4) keys assms(6-8)] obtain es' where
    es': "on_schedule (mset (responses s0)) (n + m) s' (es @ es')"
    "list_all2 (\<lambda>req e. fst e \<le> n + m + N + k \<and> answers_as N K s0 req (snd e)) reqs' es'" by blast
  from es(2) have "\<forall>e \<in> set es. fst e \<le> n + N + k" by (induction rule: list_all2_induct) auto
  with assms(3) have "\<forall>e \<in> set es. fst e \<le> n + m" by fastforce
  from schedule_due[OF es'(1) this] es(2) es'(2) show ?thesis
    by (intro exI[of _ "map snd es"] exI[of _ "map snd es'"]) (auto simp: list_all2_map2 elim: list_all2_mono)
qed

section \<open>A request among others\<close>

text \<open>C9: A request is answered whatever else happens. Accept a request whose handlers finish within \<open>n\<close> polls
  with the outputs \<open>os\<close> and whose response the channel takes within \<open>k\<close>, and then use the server in any way:
  accept any other requests and change the handlers at any time. As soon as \<open>n + k\<close> polls have gone well, the
  response that JSON-RPC asks for has been sent, and the server is still in order; the other requests only
  have to be fewer than the keys that the 64-bit counter has left.\<close>

theorem answered_in_any_interleaving:
  assumes "server_ok srv" and "keys_ok srv"
    and "calls_resolve n (handler_map srv) (request_calls req) os" and "sink_delivers k sink"
    and "process_request req sink srv = (Ret (), srv1)" and "server_used UNIV srv1 (n + k) reqs srv2"
    and "Suc (length reqs) \<le> ids_remaining (future_ids srv)"
  shows "\<exists>ms new. response_for req os ms \<and> responses srv2 = responses srv @ new \<and> mset ms \<subseteq># mset new
    \<and> server_ok srv2 \<and> keys_ok srv2"
proof -
  let ?d = "driveable_future (handler_map srv) req sink"
  have pos: "0 < ids_remaining (future_ids srv)" using assms(7) by simp
  have srv1: "server_ok srv1" using process_request_ok[OF assms(1), of req sink] assms(5) by auto
  have used: "server_used UNIV srv 0 [req] srv1" using used_request[OF used_start _ assms(5)] by simp
  from server_used_ok[OF this assms(1,2)] pos
  have keys: "keys_ok srv1" "length reqs \<le> ids_remaining (future_ids srv1)" using assms(7) by auto
  from server_used_ok[OF assms(6) srv1 keys] obtain new where
    fin: "server_ok srv2" "keys_ok srv2" "responses srv2 = responses srv1 @ new" by blast
  from driveable_future_settles[OF assms(3,4)] obtain ms where
    ms: "settles (Suc (n + k)) ?d ms" "response_for req os ms" by blast
  show ?thesis
  proof (cases ?d rule: drive_cases)
    case (pending d')
    then have push: "srv1 = push_future d' srv" using assms(5) by (simp add: process_request_def)
    then have "map_of (pending_futures srv1) (next_id (future_ids srv)) = Some d'" "responses srv1 = responses srv"
      by (simp_all add: push_future_def id_next_int_def)
    moreover from ms(1) pending have "settles (n + k) d' ms" by simp
    ultimately obtain new' where "responses srv2 = responses srv @ new'" "mset ms \<subseteq># mset new'"
      using server_used_progress[OF assms(6) srv1 keys] by fastforce
    with ms(2) fin show ?thesis by blast
  next
    case (ready ms')
    with ms(1) assms(5) have "responses srv1 = responses srv @ ms" by (auto simp: process_request_def)
    with ms(2) fin show ?thesis by (intro exI[of _ ms] exI[of _ "ms @ new"]) simp
  qed (use ms(1) in auto)
qed

text \<open>The batch of the example, with a second request accepted between the two polls.\<close>

definition two_calls :: request where
  "two_calls = Request_Batch [echo_call, Call_Notification \<lparr>n_jsonrpc = None, n_method = ''x'', n_params = None\<rparr>]"

lemmas serving_defs = process_request_def driveable_future_def handle_single_call_def handle_method_call_def
  handle_notification_call_def echo_handler_def echo_call_def slow_sink_def push_future_def id_next_int_def id_generator_new_def
  server_poll_def drain_handler_chan_def drain_turn_def receiver_poll_def remove_finished_def drive_send_def
  echo_server_def idle_server_def server_new_def two_calls_def

lemma busy_afternoon:
  "\<exists>srv1 srv2. process_request two_calls slow_sink echo_server = (Ret (), srv1)
     \<and> server_used UNIV srv1 (1 + 1) [Request_Single echo_call] srv2"
proof -
  obtain srv1 where srv1: "process_request two_calls slow_sink echo_server = (Ret (), srv1)"
    by (simp add: serving_defs)
  obtain s where s: "server_poll srv1 = Some (Ret NotReady, s)"
    using srv1 by (auto simp: serving_defs rust_loop.simps[of drain_turn])
  obtain s' where s': "process_request (Request_Single echo_call) slow_sink s = (Ret (), s')"
    using srv1 s by (auto simp: serving_defs rust_loop.simps[of drain_turn])
  obtain s'' where s'': "server_poll s' = Some (Ret NotReady, s'')"
    using srv1 s s' by (auto simp: serving_defs rust_loop.simps[of drain_turn])
  have "server_used UNIV srv1 1 [] s" using used_poll[OF used_start s] by simp
  from used_poll[OF used_request[OF this UNIV_I s'] s''] have "server_used UNIV srv1 (1 + 1) [Request_Single echo_call] s''" by simp
  with srv1 show ?thesis by blast
qed

theorem answered_in_any_interleaving_witness:
  "\<exists>srv1 srv2 new. process_request two_calls slow_sink echo_server = (Ret (), srv1)
     \<and> server_used UNIV srv1 (1 + 1) [Request_Single echo_call] srv2
     \<and> responses srv2 = new
     \<and> Msg_Response (Response_Batch [Output_Success (Some V2) JNull (Id_Num 7)]) \<in> set new"
proof -
  from busy_afternoon obtain srv1 srv2 where s: "process_request two_calls slow_sink echo_server = (Ret (), srv1)"
    "server_used UNIV srv1 (1 + 1) [Request_Single echo_call] srv2" by blast
  have "calls_resolve 1 (handler_map echo_server) (request_calls two_calls)
     [Some (Output_Success (Some V2) JNull (Id_Num 7)), None]"
    unfolding request_calls_def request.case two_calls_def by (rule echo_example(5))
  moreover have "Suc (length [Request_Single echo_call]) \<le> ids_remaining (future_ids echo_server)"
    by (simp add: ids_remaining_def echo_server_def idle_server_def server_new_def id_generator_new_def)
  ultimately obtain ms new where r: "response_for two_calls [Some (Output_Success (Some V2) JNull (Id_Num 7)), None] ms"
    "responses srv2 = responses echo_server @ new" "mset ms \<subseteq># mset new"
    using answered_in_any_interleaving[OF echo_example(1,2) _ echo_example(4) s] by blast
  from r(1) have "ms = [Msg_Response (Response_Batch [Output_Success (Some V2) JNull (Id_Num 7)])]"
    by (auto simp: response_for_def two_calls_def)
  with r(2,3) s show ?thesis by (auto simp: echo_server_def idle_server_def server_new_def dest: mset_subset_eqD)
qed

end
