(* ===== verification/Client_Service.thy ===== *)
theory Client_Service
  imports Client_Server Server_Service
begin

text \<open>
  The client as the engine of its server half: every poll of the client that goes well polls the server half
  once and gives it the requests that have arrived, so what the server half promises for a number of polls, the
  client keeps after as many of its own.
\<close>

section \<open>Polls that go well\<close>

inductive client_works :: "serde \<Rightarrow> 't transport_ops \<Rightarrow> 's server_ops \<Rightarrow> ('t, 's) client \<Rightarrow> nat \<Rightarrow> ('t, 's) client \<Rightarrow> bool"
  for sd T S c0 where
  works_start: "client_works sd T S c0 0 c0"
| works_poll: "client_works sd T S c0 n c \<Longrightarrow> client_poll sd T S c = Some (Ret NotReady, c')
     \<Longrightarrow> client_works sd T S c0 (Suc n) c'"

text \<open>A client that is not shutting down has not failed in the poll before.\<close>

lemma working_poll:
  assumes "client_poll sd T S c = Some (Ret NotReady, c')" "\<not> should_shut_down c'"
  shows "\<not> should_shut_down c \<and> handle_messages sd T S c = Some (Ret (), c')"
proof -
  have stays: "should_shut_down d \<Longrightarrow> handle_shutdown sd T S d \<noteq> Some (Ret NotReady, c')" for d
    using handle_shutdown_intake[of sd T S d "Ret NotReady" c'] assms(2) by (auto simp: should_shut_down_def)
  with assms(1) have run: "\<not> should_shut_down c" by (auto simp: client_poll_def)
  with assms(1) obtain q c1 where q: "handle_messages sd T S c = Some (q, c1)"
    by (auto simp: client_poll_def split: option.splits)
  show ?thesis
  proof (cases q)
    case (Raise e)
    let ?d = "if e = Shutdown then c1\<lparr>shutting_down := True\<rparr> else c1\<lparr>fatal_error := Some e\<rparr>"
    have "should_shut_down ?d" by (simp add: should_shut_down_def)
    moreover from Raise q run assms(1) have "handle_shutdown sd T S ?d = Some (Ret NotReady, c')"
      by (cases e) (auto simp: client_poll_def)
    ultimately show ?thesis using stays by blast
  qed (use q run assms(1) in \<open>auto simp: client_poll_def\<close>)
qed

lemma handle_messagesE:
  assumes "handle_messages sd T S c = Some (Ret u, c')"
  obtains c1 c2 c3 c4 where "resend_pending T c = (Ret (), c1)" "poll_server S c1 = Some (Ret (), c2)"
    "poll_transport_rx sd T S c2 = Some (Ret (), c3)" "poll_outgoing_messages sd T c3 = Some (Ret (), c4)"
    "poll_transport_tx T c4 = (Ret (), c')"
  using assms unfolding handle_messages_def by (elim try_then_RetE) auto

section \<open>The server half in the hands of the client\<close>

lemma send_payload_response_tx:
  "send_payload T p c = (r, c') \<Longrightarrow> server_response_tx c' = server_response_tx c"
  by (auto simp: send_payload_def split: if_splits prod.splits sum.splits async_sink.splits)

lemma handle_client_payload_response_tx:
  "handle_client_payload sd T m c = (r, c') \<Longrightarrow> server_response_tx c' = server_response_tx c"
  by (cases m)
    (auto simp: Let_def record_event_def complete_def add_new_call_def id_next_def
      split: sum.splits option.splits dest: send_payload_response_tx)

lemma handle_response_response_tx:
  "handle_response out c = (r, c') \<Longrightarrow> server_response_tx c' = server_response_tx c"
  by (auto simp: handle_response_def complete_def record_event_def Let_def split: option.splits if_splits)

text \<open>
  Since \<open>t0\<close> and \<open>s0\<close>, the transport has delivered some payloads and the server half has been polled \<open>n\<close> times
  and been given the requests among them; the senders for its responses are among \<open>K\<close>.
\<close>

definition serving ::
  "serde \<Rightarrow> ('t \<Rightarrow> 't \<Rightarrow> string list \<Rightarrow> bool) \<Rightarrow> response_sender set \<Rightarrow> 't \<Rightarrow> string list \<Rightarrow> server \<Rightarrow> nat
     \<Rightarrow> ('t, server) client \<Rightarrow> bool" where
  "serving sd heard K t0 ps0 s0 n c \<longleftrightarrow> (\<exists>ps. heard t0 (transport c) (ps0 @ ps)
     \<and> server_used K s0 n (List.map_filter (request_of sd) ps) (server_handler c)
     \<and> sset (server_response_tx c) \<subseteq> K)"

lemma serving_frame:
  assumes "serving sd heard K t0 ps0 s0 n c" and "server_handler c' = server_handler c"
    and "server_response_tx c' = server_response_tx c"
    and "\<And>ps. heard t0 (transport c) ps \<Longrightarrow> heard t0 (transport c') ps"
  shows "serving sd heard K t0 ps0 s0 n c'"
  using assms unfolding serving_def by metis

lemma handle_transport_rx_payload_serves:
  assumes "handle_transport_rx_payload sd server_handler_ops p c = (Ret (), c')"
    and "server_used K s0 n reqs (server_handler c)" "sset (server_response_tx c) \<subseteq> K"
  shows "server_used K s0 n (reqs @ (case request_of sd p of None \<Rightarrow> [] | Some req \<Rightarrow> [req])) (server_handler c')
    \<and> sset (server_response_tx c') \<subseteq> K"
proof (cases "parse_incoming sd p")
  case None
  with assms(1) show ?thesis by (simp add: handle_transport_rx_payload_def)
next
  case (Some m)
  show ?thesis
  proof (cases m)
    case (Incoming_Request req)
    from assms(3) have "shd (server_response_tx c) \<in> K" "sset (stl (server_response_tx c)) \<subseteq> K"
      by (cases "server_response_tx c"; simp)+
    with Some Incoming_Request assms(1,2) show ?thesis
      by (auto simp: handle_transport_rx_payload_def request_of_def server_handler_ops_def
          intro: used_request split: prod.splits)
  next
    case (Incoming_Response out)
    with Some assms(1) have "handle_response out c = (Ret (), c')" by (simp add: handle_transport_rx_payload_def)
    from handle_response_response_tx[OF this] handle_response_frame[OF this] Some Incoming_Response assms(2,3) show ?thesis
      by (simp add: request_of_def)
  qed
qed

lemma poll_server_serves:
  assumes "serving sd heard K t0 ps0 s0 n c" "\<not> shutting_down c"
    and "poll_server server_handler_ops c = Some (Ret (), c')" "\<not> shutting_down c'"
  shows "serving sd heard K t0 ps0 s0 (Suc n) c'"
proof -
  from assms(2-4) obtain s where s: "server_poll (server_handler c) = Some (Ret NotReady, s)"
    "c' = c\<lparr>server_handler := s, shutting_down := False\<rparr>"
    by (auto simp: poll_server_def server_handler_ops_def split: option.splits prod.splits outcome.splits async.splits)
  with assms(1) show ?thesis unfolding serving_def by (auto intro: used_poll)
qed

context transport_source
begin

lemma outgoing_turn_serves:
  assumes "serving sd heard K t0 ps0 s0 n c" "outgoing_turn sd T c = (f, c')"
  shows "serving sd heard K t0 ps0 s0 n c'"
  using assms(2)
proof (rule outgoing_turnE)
  fix m q r
  assume h: "handle_client_payload sd T m (c\<lparr>outgoing_payload_rx := q\<rparr>) = (r, c')"
  from handle_client_payload_frame[OF h] handle_client_payload_heard[OF _ h] handle_client_payload_response_tx[OF h]
  show ?thesis by (intro serving_frame[OF assms(1)]) simp_all
qed (use assms(1) in \<open>auto intro: serving_frame\<close>)

lemma transport_rx_turn_serves:
  assumes "serving sd heard K t0 ps0 s0 n c" "transport_rx_turn sd T server_handler_ops c = (f, c')"
    and "f = Continue \<or> f = Return (Ret ())"
  shows "serving sd heard K t0 ps0 s0 n c'"
proof -
  from assms(1) obtain ps where ps: "heard t0 (transport c) (ps0 @ ps)"
      "server_used K s0 n (List.map_filter (request_of sd) ps) (server_handler c)" "sset (server_response_tx c) \<subseteq> K"
    unfolding serving_def by blast
  obtain a t where rx: "rx_poll T (transport c) = (a, t)" by fastforce
  show ?thesis
  proof (cases a rule: poll_cases)
    case (item p)
    from assms(2,3) rx item have h: "handle_transport_rx_payload sd server_handler_ops p (c\<lparr>transport := t\<rparr>) = (Ret (), c')"
      by (auto simp: transport_rx_turn_def split: prod.splits outcome.splits)
    from rx_heard[OF ps(1) rx] item handle_transport_rx_payload_frame[OF h]
    have "heard t0 (transport c') (ps0 @ ps @ [p])" by simp
    with handle_transport_rx_payload_serves[OF h] ps(2,3) show ?thesis
      unfolding serving_def by (intro exI[of _ "ps @ [p]"]) simp
  qed (use assms(2) rx ps rx_heard[OF ps(1) rx] in \<open>auto simp: transport_rx_turn_def serving_def\<close>)
qed

lemma client_poll_serves:
  assumes "serving sd heard K t0 ps0 s0 n c"
    and "client_poll sd T server_handler_ops c = Some (Ret NotReady, c')" "\<not> should_shut_down c'"
  shows "serving sd heard K t0 ps0 s0 (Suc n) c'"
proof -
  let ?G = "serving sd heard K t0 ps0 s0"
  from working_poll[OF assms(2,3)] have c: "\<not> should_shut_down c"
    "handle_messages sd T server_handler_ops c = Some (Ret (), c')" by simp_all
  from c(2) obtain c1 c2 c3 c4 where m: "resend_pending T c = (Ret (), c1)"
    "poll_server server_handler_ops c1 = Some (Ret (), c2)"
    "poll_transport_rx sd T server_handler_ops c2 = Some (Ret (), c3)"
    "poll_outgoing_messages sd T c3 = Some (Ret (), c4)" "poll_transport_tx T c4 = (Ret (), c')"
    by (rule handle_messagesE)
  have "shutting_down c2 = shutting_down c'"
    using poll_transport_rx_frame[OF m(3)] poll_transport_tx_frame[OF m(5)]
      poll_outgoing_messages_shutting[OF m(4)] by simp
  moreover have c1: "?G n c1 \<and> shutting_down c1 = shutting_down c"
  proof (cases "pending_payload c")
    case (Some p)
    with m(1) have send: "send_payload T p (c\<lparr>pending_payload := None\<rparr>) = (Ret (), c1)" by (simp add: resend_pending_def)
    from send_payload_frame[OF send] send_payload_intake[OF _ send] send_payload_response_tx[OF send] show ?thesis
      by (intro conjI serving_frame[OF assms(1)]) simp_all
  qed (use m(1) assms(1) in \<open>simp add: resend_pending_def\<close>)
  ultimately have "?G (Suc n) c2" using poll_server_serves[OF _ _ m(2)] c(1) assms(3) by (simp add: should_shut_down_def)
  then have "(Ret () :: (unit, core_error) outcome) = Ret () \<longrightarrow> ?G (Suc n) c3"
    by (rule rust_loop_invariant[OF m(3)[unfolded poll_transport_rx_def], where I = "?G (Suc n)"
          and Q = "\<lambda>q d. q = Ret () \<longrightarrow> ?G (Suc n) d"])
      (simp_all add: transport_rx_turn_serves)
  then have "?G (Suc n) c3" by simp
  then have c4: "?G (Suc n) c4"
    by (rule rust_loop_invariant[OF m(4)[unfolded poll_outgoing_messages_def], where I = "?G (Suc n)"
          and Q = "\<lambda>_. ?G (Suc n)"])
      (simp_all add: outgoing_turn_serves)
  have "server_handler c' = server_handler c4" "server_response_tx c' = server_response_tx c4"
    "transport c' = transport c4 \<or> transport c' = snd (tx_poll_complete T (transport c4))"
    using m(5) by (auto simp: poll_transport_tx_def split: if_splits prod.splits sum.splits)
  with poll_complete_heard show ?thesis by (intro serving_frame[OF c4]) auto
qed

lemma client_works_serves:
  assumes "client_works sd T server_handler_ops c0 n c" "\<not> should_shut_down c" "serving sd heard K t0 ps0 s0 0 c0"
  shows "serving sd heard K t0 ps0 s0 n c"
  using assms
proof (induction rule: client_works.induct)
  case (works_poll n c c')
  from working_poll[OF works_poll.hyps(2) works_poll.prems(1)] have "\<not> should_shut_down c" by simp
  from client_poll_serves[OF works_poll.IH[OF this works_poll.prems(2)] works_poll.hyps(2) works_poll.prems(1)]
  show ?case .
qed

end

lemma client_works_flag:
  "client_works sd T S c0 n c \<Longrightarrow> \<not> should_shut_down c \<Longrightarrow> \<not> should_shut_down c0"
proof (induction rule: client_works.induct)
  case (works_poll n c c')
  from working_poll[OF works_poll.hyps(2) works_poll.prems] works_poll.IH show ?case by blast
qed

lemma client_works_trans:
  "client_works sd T S c m c' \<Longrightarrow> client_works sd T S c0 n c \<Longrightarrow> client_works sd T S c0 (n + m) c'"
proof (induction rule: client_works.induct)
  case (works_poll m c1 c2)
  from client_works.works_poll[OF works_poll.IH[OF works_poll.prems] works_poll.hyps(2)] show ?case by simp
qed simp

section \<open>Every request is answered\<close>

lemma answered_by_then:
  assumes "transport_source T heard"
    and "client_works sd T server_handler_ops (new_with_server rx1 rx2 rtx t (server_new hrx)) n c"
    and "client_works sd T server_handler_ops c m c'" and "\<not> should_shut_down c'" and "N + k \<le> m"
    and "finitely_many hrx" and "Inl () \<notin> sset hrx" and "carries (adds_resolving N) hrx"
    and "\<forall>sink \<in> sset rtx. sink_delivers k sink"
    and "\<forall>ps. heard t (transport c') ps \<longrightarrow> length (List.map_filter (request_of sd) ps) \<le> ids_remaining id_generator_new"
  shows "\<exists>ps ps' mss mss'. heard t (transport c) ps \<and> heard t (transport c') (ps @ ps')
    \<and> list_all2 (answers_as N (sset rtx) (server_new hrx)) (List.map_filter (request_of sd) ps) mss
    \<and> list_all2 (answers_as N (sset rtx) (server_new hrx)) (List.map_filter (request_of sd) ps') mss'
    \<and> mset (concat mss) \<subseteq># mset (responses (server_handler c'))
    \<and> mset (responses (server_handler c')) \<subseteq># mset (concat (mss @ mss'))"
proof -
  let ?K = "sset rtx" and ?s0 = "server_new hrx"
  note serves = transport_source.client_works_serves[OF assms(1)]
  have run: "\<not> should_shut_down c" by (rule client_works_flag[OF assms(3,4)])
  have "serving sd heard ?K t [] ?s0 0 (new_with_server rx1 rx2 rtx t ?s0)"
    unfolding serving_def
    by (intro exI[of _ "[]"])
      (simp add: new_with_server_def List.map_filter_simps used_start transport_source.heard_refl[OF assms(1)])
  from serves[OF assms(2) run this] obtain ps where ps: "heard t (transport c) ps"
    "server_used ?K ?s0 n (List.map_filter (request_of sd) ps) (server_handler c)" "sset (server_response_tx c) \<subseteq> ?K"
    unfolding serving_def by auto
  then have "serving sd heard ?K t ps (server_handler c) 0 c"
    unfolding serving_def by (intro exI[of _ "[]"]) (simp add: List.map_filter_simps used_start)
  from serves[OF assms(3,4) this] obtain ps' where ps': "heard t (transport c') (ps @ ps')"
    "server_used ?K (server_handler c) m (List.map_filter (request_of sd) ps') (server_handler c')"
    unfolding serving_def by auto
  have s0: "server_ok ?s0" "pending_futures ?s0 = []" "resolving N ?s0" "responses ?s0 = []" "future_ids ?s0 = id_generator_new"
    using assms(6-8) by (simp_all add: server_new_def server_ok_def channel_ok_def resolving_def handlers_keep_def handlers_new_def)
  have "length (List.map_filter (request_of sd) ps) + length (List.map_filter (request_of sd) ps') \<le> ids_remaining (future_ids ?s0)"
    using assms(10) ps'(1) s0(5) by (force simp: List.map_filter_def)
  from used_in_time[OF ps(2) ps'(2) assms(5) s0(1-3) assms(9) this] s0(4) obtain mss mss' where
    "list_all2 (answers_as N ?K ?s0) (List.map_filter (request_of sd) ps) mss"
    "list_all2 (answers_as N ?K ?s0) (List.map_filter (request_of sd) ps') mss'"
    "mset (concat mss) \<subseteq># mset (responses (server_handler c'))"
    "mset (responses (server_handler c')) \<subseteq># mset (concat (mss @ mss'))" by auto
  with ps(1) ps'(1) show ?thesis by blast
qed


text \<open>A request that nobody handles, and a channel that takes its response one poll later.\<close>

definition slow_client :: "(framed, server) client" where
  "slow_client = new_with_server (sconst (Inr NotReady)) (sconst (Inr NotReady)) (sconst slow_sink)
     (open_framed (Inr (Ready (Some ''ping'')) ## sconst (Inr NotReady))) idle_server"

definition asked_server :: server where
  "asked_server = push_future (Drv_sending refused (Resolved (Inr ()))) idle_server"

lemma asked_server_accepts:
  "process_request (Request_Single (Call_Invalid Id_Null)) slow_sink idle_server = (Ret (), asked_server)"
  by (simp add: process_request_def driveable_future_def handle_single_call_def failure_def drive_send_def slow_sink_def
      asked_server_def refused_def)
    (simp add: idle_server_def server_new_def)

lemma asked_server_poll:
  "\<exists>s. server_poll asked_server = Some (Ret NotReady, s) \<and> responses s = [refused]"
proof -
  have drive: "drive (Drv_sending refused (Resolved (Inr ()))) = (Ret (Ready ()), Drv_done, [refused])"
    by (simp add: drive_send_def)
  have "server_ok asked_server" unfolding asked_server_def by (rule push_future_ok) simp_all
  moreover have "pending_futures asked_server = [(1, Drv_sending refused (Resolved (Inr ())))]" "responses asked_server = []"
    by (simp_all add: asked_server_def push_future_def id_next_int_def idle_server_def server_new_def id_generator_new_def)
  ultimately show ?thesis using server_poll_ok[of asked_server] drive by auto
qed

definition slow_client1 :: "(framed, server) client" where
  "slow_client1 = slow_client\<lparr>server_handler := asked_server, transport := open_framed (sconst (Inr NotReady)),
     outgoing_payload_rx := snd (select_poll receiver_poll receiver_poll (outgoing_payload_rx slow_client))\<rparr>"

lemma slow_poll1: "client_poll ask_serde framed_ops server_handler_ops slow_client = Some (Ret NotReady, slow_client1)"
  by (simp add: slow_client1_def slow_client_def ask_serde_def demo_defs poll_defs asked_server_accepts,
      (subst rust_loop.simps, simp add: demo_defs poll_defs asked_server_accepts)+)

lemma slow_poll2:
  "\<exists>c. client_poll ask_serde framed_ops server_handler_ops slow_client1 = Some (Ret NotReady, c)
     \<and> \<not> should_shut_down c \<and> responses (server_handler c) = [refused] \<and> incoming (transport c) = sconst (Inr NotReady)"
proof -
  from asked_server_poll obtain s where "server_poll asked_server = Some (Ret NotReady, s)" "responses s = [refused]"
    by blast
  then show ?thesis
    by (simp add: slow_client1_def slow_client_def ask_serde_def demo_defs poll_defs,
        (subst rust_loop.simps, simp add: demo_defs poll_defs)+)
qed

lemma one_payload:
  "\<forall>ps. framed_heard (open_framed (Inr (Ready (Some p)) ## sconst (Inr NotReady))) t ps \<longrightarrow>
     length (List.map_filter (request_of sd) ps) \<le> ids_remaining id_generator_new"
proof (intro allI impI)
  fix ps
  let ?t = "open_framed (Inr (Ready (Some p)) ## sconst (Inr NotReady))"
  assume "framed_heard ?t t ps"
  then obtain k where "ps = items_of (stake k (incoming ?t))" unfolding framed_heard_def by blast
  then have "length ps \<le> 1" by (cases k) (simp_all add: open_framed_def)
  then have "length (List.map_filter (request_of sd) ps) \<le> 1" using length_map_filter order_trans by blast
  then show "length (List.map_filter (request_of sd) ps) \<le> ids_remaining id_generator_new" by simp
qed


end
