(* ===== verification/Client_Outlet.thy ===== *)
theory Client_Outlet
  imports Client_Service
begin

text \<open>
  The sending side of the client, at the end of a poll that went well: when nothing is held back by the
  sink, the client has emptied both of its channels, and everything it took is on the wire.
\<close>

section \<open>Channels that stay open\<close>

lemma outgoing_turn_weak_open:
  assumes "weak_open (outgoing_payload_rx c)" "outgoing_turn sd T c = (f, c')"
  shows "weak_open (outgoing_payload_rx c')"
  using assms(2)
proof (rule outgoing_turnE)
  fix m q r
  assume "select_poll receiver_poll receiver_poll (outgoing_payload_rx c) = (Inr (Ready (Some m)), q)"
    "handle_client_payload sd T m (c\<lparr>outgoing_payload_rx := q\<rparr>) = (r, c')"
  with weak_open_poll[OF assms(1)] handle_client_payload_frame[of sd T m "c\<lparr>outgoing_payload_rx := q\<rparr>" r c'] show ?thesis
    by simp
qed (use assms(1) weak_open_poll in auto)

lemma resend_pending_rx: "resend_pending T c = (r, c') \<Longrightarrow> outgoing_payload_rx c' = outgoing_payload_rx c"
  by (auto simp: resend_pending_def dest!: send_payload_frame split: option.splits)

interpretation open_responses: client_invariant sd T S "\<lambda>c. weak_open (outgoing_payload_rx c)" for sd T S
  by unfold_locales
    (simp_all add: outgoing_turn_weak_open resend_pending_rx transport_rx_turn_frame poll_server_frame poll_transport_tx_frame)

section \<open>The end of a good poll\<close>

lemma outgoing_turn_idle:
  assumes "outgoing_turn sd T c = (Return (Ret ()), c')" "pending_payload c' = None"
  shows "select_poll receiver_poll receiver_poll (outgoing_payload_rx c) = (Inr NotReady, outgoing_payload_rx c')
    \<and> history c' = history c"
proof -
  obtain a q where a: "select_poll receiver_poll receiver_poll (outgoing_payload_rx c) = (a, q)" by fastforce
  with assms show ?thesis
    by (cases a rule: poll_cases) (auto simp: outgoing_turn_def split: if_splits prod.splits outcome.splits)
qed

lemma poll_outgoing_idle:
  assumes "poll_outgoing_messages sd T c = Some (Ret (), c')" "pending_payload c' = None" "weak_open (outgoing_payload_rx c)"
  shows "\<exists>d. advances c d \<and> weak_open (outgoing_payload_rx d) \<and> history c' = history d
    \<and> select_poll receiver_poll receiver_poll (outgoing_payload_rx d) = (Inr NotReady, outgoing_payload_rx c')"
proof -
  let ?I = "\<lambda>d. advances c d \<and> weak_open (outgoing_payload_rx d)"
  let ?Q = "\<lambda>(q :: (unit, core_error) outcome) u. q = Ret () \<longrightarrow> pending_payload u = None \<longrightarrow> (\<exists>d. ?I d \<and> history u = history d
      \<and> select_poll receiver_poll receiver_poll (outgoing_payload_rx d) = (Inr NotReady, outgoing_payload_rx u))"
  have "?Q (Ret ()) c'"
  proof (rule rust_loop_invariant[OF assms(1)[unfolded poll_outgoing_messages_def], where I = ?I and Q = ?Q])
    show "?I c" using assms(3) by simp
    show "?I u" if "?I t" "outgoing_turn sd T t = (Continue, u)" for t u
      using that advances_trans[of c t u] outgoing_turn_advances[OF that(2)]
        open_responses.outgoing_turn_keeps[of t sd T Continue u] by simp
    show "?Q q u" if "?I t" "outgoing_turn sd T t = (Return q, u)" for t q u
      using that outgoing_turn_idle[of sd T t u] by blast
  qed
  with assms(2) show ?thesis by simp
qed

lemma good_poll_idle:
  assumes "client_run sd T S (new_with_server rx1 rx2 rtx t s) (Ret NotReady) c0" "Inr (Ready None) \<notin> sset rx2"
    and "client_poll sd T S c0 = Some (Ret NotReady, c)" "\<not> should_shut_down c" "pending_payload c = None"
    and "drained rx1 calls (strong (outgoing_payload_rx c))" "drained rx2 resps (weak (outgoing_payload_rx c))"
  shows "sent_msgs (history c) \<in> shuffles calls resps"
proof -
  let ?new = "new_with_server rx1 rx2 rtx t s"
  have new: "outgoing_payload_rx ?new = select_with_weak rx1 rx2" "history ?new = []"
    by (simp_all add: new_with_server_def)
  from working_poll[OF assms(3,4)] obtain c1 c2 c3 c4 where m: "resend_pending T c0 = (Ret (), c1)"
    "poll_server S c1 = Some (Ret (), c2)" "poll_transport_rx sd T S c2 = Some (Ret (), c3)"
    "poll_outgoing_messages sd T c3 = Some (Ret (), c4)" "poll_transport_tx T c4 = (Ret (), c)"
    by (auto elim: handle_messagesE)
  from poll_transport_tx_frame[OF m(5)] have c: "history c = history c4" "outgoing_payload_rx c = outgoing_payload_rx c4"
    "pending_payload c4 = None" using assms(5) by simp_all
  have I3: "I c3" if "client_invariant sd T S I" "I ?new" for I
    using client_invariant.client_run_inv[OF that(1) assms(1) that(2)] m(1-3)
      client_invariant.resend_keeps[OF that(1)] client_invariant.server_keeps[OF that(1)]
      yieldsD[OF client_invariant.poll_transport_rx_inv[OF that(1)]] by metis
  have "weak_open (outgoing_payload_rx c3)"
    by (rule I3[OF open_responses.client_invariant_axioms]) (simp add: new weak_open_def select_with_weak_def assms(2))
  from poll_outgoing_idle[OF m(4) c(3) this] obtain d where d: "advances c3 d" "weak_open (outgoing_payload_rx d)"
    "history c4 = history d" "select_poll receiver_poll receiver_poll (outgoing_payload_rx d) = (Inr NotReady, outgoing_payload_rx c4)"
    by blast
  have "advances ?new c3" by (rule I3[OF advancing.client_invariant_axioms]) simp
  from advances_trans[OF this d(1)] obtain k l where kl: "strong (outgoing_payload_rx d) = sdrop k rx1"
    "weak (outgoing_payload_rx d) = sdrop l rx2"
    "sent_msgs (history d) \<in> shuffles (items_of (stake k rx1)) (items_of (stake l rx2))"
    by (auto simp: advances_def hands_out_def new select_with_weak_def)
  from weak_open_idle[OF d(2,4)] have idle: "shd (strong (outgoing_payload_rx d)) = Inr NotReady"
    "shd (weak (outgoing_payload_rx d)) = Inr NotReady" "strong (outgoing_payload_rx c4) = stl (strong (outgoing_payload_rx d))"
    "weak (outgoing_payload_rx c4) = stl (weak (outgoing_payload_rx d))" by blast+
  from drained_idle[OF assms(6)[unfolded c(2) idle(3)] kl(1) idle(1)] drained_idle[OF assms(7)[unfolded c(2) idle(4)] kl(2) idle(2)]
    kl(3) c(1) d(3)
  show ?thesis by simp
qed

lemma shuffled_responses:
  assumes "zs \<in> shuffles calls resps" "\<forall>m \<in> set calls. \<forall>resp. m \<noteq> Msg_Response resp"
  shows "List.map_filter (response_text sd) zs = List.map_filter (response_text sd) resps"
proof (rule map_filter_shuffle[OF assms(1)])
  show "\<forall>m \<in> set calls. response_text sd m = None"
  proof
    fix m assume "m \<in> set calls"
    with assms(2) show "response_text sd m = None" by (cases m) auto
  qed
qed

lemma emptied:
  assumes "transport_contract T accepted" and "accepted t = []"
    and "client_run sd T S (new_with_server rx1 rx2 rtx t s) (Ret NotReady) c0"
    and "client_poll sd T S c0 = Some (Ret NotReady, c)" and "\<not> should_shut_down c" and "pending_payload c = None"
    and "drained rx1 calls (strong (outgoing_payload_rx c))" and "\<forall>m \<in> set calls. \<forall>resp. m \<noteq> Msg_Response resp"
    and "drained rx2 resps (weak (outgoing_payload_rx c))" and "Inr (Ready None) \<notin> sset rx2"
  shows "sent_msgs (history c) \<in> shuffles calls resps
    \<and> accepted (transport c) = ses_wire (session_of sd (history c))
    \<and> subseq (List.map_filter (response_text sd) resps) (accepted (transport c))"
proof -
  from good_poll_idle[OF assms(3,10,4,5,6,7,9)] have sent: "sent_msgs (history c) \<in> shuffles calls resps" .
  from run_of_new[OF assms(1,2) client_run.run_poll[OF assms(3,4)]] assms(5) have "implements sd accepted [] c"
    unfolding transport_contract.run_state_def[OF assms(1)] by (auto simp: should_shut_down_def)
  with assms(6) have wire: "accepted (transport c) = ses_wire (session_of sd (history c))"
    by (simp add: implements_def Let_def)
  with session_responses[of sd "history c"] shuffled_responses[OF sent assms(8), of sd] sent show ?thesis by simp
qed

text \<open>C5: A poll that goes well leaves nothing behind. When the client has answered \<open>NotReady\<close> without starting to shut down, and
  the sink has refused nothing, then it has taken everything that the handles have sent and everything that
  the server half has answered, each channel in its order; what the transport has accepted is the wire of the
  session over exactly these messages; and so every response that was given is on the wire.\<close>

theorem good_poll_empties_channels:
  assumes "transport_contract T accepted" and "accepted t = []"
    and "client_run sd T S (new_with_server rx1 rx2 rtx t s) (Ret NotReady) c0"
    and "client_poll sd T S c0 = Some (Ret NotReady, c)" and "\<not> should_shut_down c" and "pending_payload c = None"
    and "drained rx1 calls (strong (outgoing_payload_rx c))" and "\<forall>m \<in> set calls. \<forall>resp. m \<noteq> Msg_Response resp"
    and "drained rx2 resps (weak (outgoing_payload_rx c))" and "Inr (Ready None) \<notin> sset rx2"
  shows "sent_msgs (history c) \<in> shuffles calls resps
    \<and> accepted (transport c) = ses_wire (session_of sd (history c))
    \<and> subseq (List.map_filter (response_text sd) resps) (accepted (transport c))"
  by (rule emptied[OF assms])

lemma pong_drained: "drained pong_rx [pong] q"
  unfolding drained_def
proof (intro allI impI)
  fix l assume "snth pong_rx l = Inr NotReady"
  then show "items_of (stake (Suc l) pong_rx) = [pong]" by (cases l) (simp_all add: pong_rx_def)
qed

lemma pong_poll_idle:
  "\<exists>c. client_poll demo_serde framed_ops server_handler_ops pong_client = Some (Ret NotReady, c)
     \<and> \<not> should_shut_down c \<and> pending_payload c = None \<and> sunk (transport c) = [''response'']"
  by (simp add: pong_client_def pong_rx_def pong_def demo_defs poll_defs,
      (subst rust_loop.simps, simp add: demo_defs poll_defs)+)

theorem good_poll_empties_channels_witness:
  "\<exists>c. client_poll demo_serde framed_ops server_handler_ops pong_client = Some (Ret NotReady, c)
     \<and> sent_msgs (history c) \<in> shuffles [] [pong]
     \<and> [''response''] = ses_wire (session_of demo_serde (history c))
     \<and> subseq (List.map_filter (response_text demo_serde) [pong]) [''response'']"
proof -
  from pong_poll_idle obtain c where c: "client_poll demo_serde framed_ops server_handler_ops pong_client = Some (Ret NotReady, c)"
    "\<not> should_shut_down c" "pending_payload c = None" "sunk (transport c) = [''response'']" by blast
  have "drained (sconst (Inr NotReady)) [] (strong (outgoing_payload_rx c))" by (simp add: drained_def)
  moreover have "Inr (Ready None) \<notin> sset pong_rx" by (simp add: pong_rx_def)
  moreover have "sunk (open_framed (sconst (Inr NotReady))) = []" by simp
  ultimately show ?thesis
    using good_poll_empties_channels[OF ipc.transport_contract_axioms _ client_run.run_start[of demo_serde framed_ops server_handler_ops
        pong_client, unfolded pong_client_def] c(1)[unfolded pong_client_def] c(2,3) _ _ pong_drained]
      c(1,4) by fastforce
qed

section \<open>From a request to its response, on the wire\<close>

lemma client_works_run: "client_works sd T S c0 n c \<Longrightarrow> client_run sd T S c0 (Ret NotReady) c"
  by (induction rule: client_works.induct) (auto intro: client_run.run_start client_run.run_poll)

lemma subseq_mset: "subseq xs ys \<Longrightarrow> mset xs \<subseteq># mset ys"
  by (induction rule: list_emb.induct) (auto intro: subset_mset.order_trans)

lemma mset_map_filter_mono: "mset xs \<subseteq># mset ys \<Longrightarrow> mset (List.map_filter f xs) \<subseteq># mset (List.map_filter f ys)"
  by (simp add: List.map_filter_def image_mset_subseteq_mono multiset_filter_mono)


text \<open>The request that nobody handles again, now with the channel that brings its response to the client.\<close>

definition refused_rx :: "outgoing_message receiver" where
  "refused_rx = Inr NotReady ## Inr (Ready (Some refused)) ## sconst (Inr NotReady)"

definition wire_client :: "(framed, server) client" where
  "wire_client = new_with_server (sconst (Inr NotReady)) refused_rx (sconst slow_sink)
     (open_framed (Inr (Ready (Some ''ping'')) ## sconst (Inr NotReady))) idle_server"

definition wire_client1 :: "(framed, server) client" where
  "wire_client1 = wire_client\<lparr>server_handler := asked_server, transport := open_framed (sconst (Inr NotReady)),
     outgoing_payload_rx := snd (select_poll receiver_poll receiver_poll (outgoing_payload_rx wire_client))\<rparr>"

lemma wire_poll1: "client_poll ask_serde framed_ops server_handler_ops wire_client = Some (Ret NotReady, wire_client1)"
  by (simp add: wire_client1_def wire_client_def refused_rx_def ask_serde_def demo_defs poll_defs asked_server_accepts,
      (subst rust_loop.simps, simp add: demo_defs poll_defs asked_server_accepts)+)

lemma wire_poll2:
  "\<exists>c. client_poll ask_serde framed_ops server_handler_ops wire_client1 = Some (Ret NotReady, c)
     \<and> \<not> should_shut_down c \<and> responses (server_handler c) = [refused] \<and> incoming (transport c) = sconst (Inr NotReady)
     \<and> pending_payload c = None \<and> sunk (transport c) = [''response''] \<and> weak (outgoing_payload_rx c) = sconst (Inr NotReady)"
proof -
  from asked_server_poll obtain s where "server_poll asked_server = Some (Ret NotReady, s)" "responses s = [refused]"
    by blast
  then show ?thesis
    by - (simp add: wire_client1_def wire_client_def refused_rx_def refused_def ask_serde_def demo_defs poll_defs,
        (subst rust_loop.simps, simp add: demo_defs poll_defs)+)
qed

lemma refused_drained: "drained refused_rx [refused] (sconst (Inr NotReady))"
  unfolding drained_def
proof (intro allI impI)
  fix l assume l: "sconst (Inr NotReady) = sdrop (Suc l) refused_rx" "snth refused_rx l = Inr NotReady"
  have "l \<noteq> 0"
  proof
    assume "l = 0"
    with l(1) have "shd (sconst (Inr NotReady)) = shd (sdrop 1 refused_rx)" by simp
    then show False by (simp add: refused_rx_def)
  qed
  with l(2) obtain j where "l = Suc (Suc j)" by (cases l; cases "l - 1") (auto simp: refused_rx_def)
  then show "items_of (stake (Suc l) refused_rx) = [refused]" by (simp add: refused_rx_def)
qed


end
