(* ===== verification/Http_Transport.thy ===== *)
theory Http_Transport
  imports Rpc_Types
begin

text \<open>
  \<open>http/src/lib.rs\<close>: JSON-RPC over HTTP. A \<open>HttpHandle\<close> turns each payload into a POST request and hands
  it, with a one-shot channel for the answer, to the processing future that runs on the event loop;
  that future sends the requests through Hyper one after the other, each under the configured time
  limit, and answers with the body or an error.

  Hyper, the timers and the channels are outside: an HTTP exchange, a timer and a one-shot receiver are
  futures, the request channel is a receiver. Strings are their UTF-8 bytes.
\<close>

type_synonym byte = "8 word"
type_synonym bytes = "byte list"

section \<open>Strings and bytes\<close>

text \<open>\<open>String::into_bytes\<close> and \<open>String::from_utf8\<close>: the well-formed byte sequences of the Unicode standard.\<close>

definition into_bytes :: "string \<Rightarrow> bytes" where
  "into_bytes s = map (\<lambda>c. of_nat (of_char c)) s"

definition of_bytes :: "bytes \<Rightarrow> string" where
  "of_bytes bs = map (\<lambda>b. char_of (unat b)) bs"

definition continuation :: "byte \<Rightarrow> bool" where
  "continuation b \<longleftrightarrow> 0x80 \<le> b \<and> b \<le> 0xBF"

fun utf8_ok :: "bytes \<Rightarrow> bool" where
  "utf8_ok [] = True"
| "utf8_ok (a # bs) =
     (if a \<le> 0x7F then utf8_ok bs
      else case bs of
        b # bs2 \<Rightarrow>
          (if 0xC2 \<le> a \<and> a \<le> 0xDF then continuation b \<and> utf8_ok bs2
           else case bs2 of
             c # bs3 \<Rightarrow>
               (if 0xE0 \<le> a \<and> a \<le> 0xEF then
                  continuation b \<and> (a = 0xE0 \<longrightarrow> 0xA0 \<le> b) \<and> (a = 0xED \<longrightarrow> b \<le> 0x9F)
                  \<and> continuation c \<and> utf8_ok bs3
                else case bs3 of
                  d # bs4 \<Rightarrow>
                    0xF0 \<le> a \<and> a \<le> 0xF4 \<and> continuation b \<and> (a = 0xF0 \<longrightarrow> 0x90 \<le> b) \<and> (a = 0xF4 \<longrightarrow> b \<le> 0x8F)
                    \<and> continuation c \<and> continuation d \<and> utf8_ok bs4
                | [] \<Rightarrow> False)
           | [] \<Rightarrow> False)
      | [] \<Rightarrow> False)"

definition from_utf8 :: "bytes \<Rightarrow> string option" where
  "from_utf8 bs = (if utf8_ok bs then Some (of_bytes bs) else None)"

lemma of_bytes_into_bytes [simp]: "of_bytes (into_bytes s) = s"
proof -
  have "char_of (unat (of_nat (of_char c) :: byte)) = c" for c :: char
    by (simp add: unat_of_nat take_bit_eq_mod)
  then show ?thesis by (simp add: of_bytes_def into_bytes_def comp_def)
qed

lemma into_bytes_of_bytes [simp]: "into_bytes (of_bytes bs) = bs"
proof -
  have "of_nat (of_char (char_of (unat b) :: char)) = b" for b :: byte
    using unsigned_less[of b, where ?'a = nat] by (simp add: unat_of_nat)
  then show ?thesis by (simp add: of_bytes_def into_bytes_def comp_def map_idI)
qed

lemma utf8_ok_ascii: "list_all (\<lambda>b. b \<le> 0x7F) bs \<Longrightarrow> utf8_ok bs"
  by (induction bs) simp_all

section \<open>Errors, handles and requests\<close>

text \<open>The \<open>error_chain!\<close> block; the last two are the foreign links.\<close>

datatype http_error =
    ClientCreatorError
  | HttpError nat
  | RequestTimeout
  | ParseBodyError
  | TokioCoreError string
  | Hyper string
  | Uri string

text \<open>\<open>hyper::header::Headers\<close>: setting a header replaces the one of that name.\<close>

datatype header_value = Content_type_json | Content_length u64 | Custom_header string

type_synonym headers = "string \<rightharpoonup> header_value"

datatype http_method = Post

record http_request =
  req_method :: http_method
  req_uri :: string
  req_headers :: headers
  req_body :: bytes

text \<open>
  A handle: \<open>request_tx\<close> is what \<open>unbounded_send\<close> answers for a request and its one-shot channel. The counter \<open>id\<close>,
  which all handles of a transport share, is created and never used.
\<close>

type_synonym core_sender = "http_request \<times> completion \<Rightarrow> unit + unit"

record http_transport =
  t_request_tx :: core_sender
  t_id :: u64

record http_handle =
  request_tx :: core_sender
  uri :: string
  handle_id :: u64
  custom_headers :: headers

text \<open>\<open>HttpTransport::handle\<close>; \<open>from_str\<close> is Hyper's parser of URIs.\<close>

definition transport_handle ::
  "(string \<Rightarrow> string + string) \<Rightarrow> http_transport \<Rightarrow> string \<Rightarrow> http_error + http_handle" where
  "transport_handle from_str t u =
     (case from_str u of
        Inl e \<Rightarrow> Inl (Uri e)
      | Inr v \<Rightarrow> Inr \<lparr>request_tx = t_request_tx t, uri = v, handle_id = t_id t, custom_headers = Map.empty\<rparr>)"

definition set_header :: "string \<Rightarrow> header_value \<Rightarrow> http_handle \<Rightarrow> http_handle" where
  "set_header name v h = h\<lparr>custom_headers := (custom_headers h)(name \<mapsto> v)\<rparr>"

definition create_request :: "http_handle \<Rightarrow> bytes \<Rightarrow> http_request" where
  "create_request h body =
     (let base = [''Content-Type'' \<mapsto> Content_type_json,
                  ''Content-Length'' \<mapsto> Content_length (of_nat (length body))]
      in \<lparr>req_method = Post, req_uri = uri h, req_headers = base ++ custom_headers h, req_body = body\<rparr>)"

text \<open>
  \<open>send_fut\<close>: \<open>response_rx\<close> is the receiving half of the one-shot channel named by \<open>response_tx\<close>, cancelled
  when the event loop drops it.
\<close>

definition send_fut ::
  "http_handle \<Rightarrow> bytes \<Rightarrow> completion \<Rightarrow> (http_error + bytes, unit) fut \<Rightarrow> (bytes, http_error) fut" where
  "send_fut h json_data response_tx response_rx =
     (let request = create_request h json_data in
      and_then (and_then
        (map_err (\<lambda>_. TokioCoreError ''Not listening for requests'') (Resolved (request_tx h (request, response_tx))))
        (\<lambda>_. map_err (\<lambda>_. TokioCoreError ''Died without returning response'') response_rx))
        Resolved)"

text \<open>\<open>HttpHandle::send\<close>, the same future in a box.\<close>

definition http_send ::
  "http_handle \<Rightarrow> bytes \<Rightarrow> completion \<Rightarrow> (http_error + bytes, unit) fut \<Rightarrow> (bytes, http_error) fut" where
  "http_send h json_data tx rx = send_fut h json_data tx rx"

text \<open>
  \<open>io_pair\<close>: the sink runs \<open>sink_item\<close> on every payload and puts the bytes of the response on a channel;
  the stream reads them from there.
\<close>

definition sink_item ::
  "http_handle \<Rightarrow> string \<Rightarrow> completion \<Rightarrow> (http_error + bytes, unit) fut \<Rightarrow> (bytes, http_error) fut" where
  "sink_item h json_string tx rx = send_fut h (into_bytes json_string) tx rx"

definition stream_poll :: "bytes receiver \<Rightarrow> (string option, http_error) poll \<times> bytes receiver" where
  "stream_poll rx =
     (case receiver_poll rx of
        (Inl _, rx') \<Rightarrow> (Inl (TokioCoreError ''Sender closed''), rx')
      | (Inr NotReady, rx') \<Rightarrow> (Inr NotReady, rx')
      | (Inr (Ready None), rx') \<Rightarrow> (Inr (Ready None), rx')
      | (Inr (Ready (Some bs)), rx') \<Rightarrow>
          (case from_utf8 bs of
             None \<Rightarrow> (Inl ParseBodyError, rx')
           | Some s \<Rightarrow> (Inr (Ready (Some s)), rx')))"

interpretation http_rx: dry_stream stream_poll finitely_many pending_items
proof unfold_locales
  fix s :: "bytes receiver" and r s'
  assume s: "finitely_many s" "stream_poll s = (r, s')"
  then have "s' = snd (receiver_poll s)"
    by (cases "fst (receiver_poll s)" rule: poll_cases; cases "receiver_poll s")
      (auto simp: stream_poll_def split: option.splits)
  with channel.polled[OF s(1)] show "finitely_many s' \<and> pending_items s' \<le> pending_items s" by simp
next
  fix s :: "bytes receiver" and i s'
  assume s: "finitely_many s" "stream_poll s = (Inr (Ready (Some i)), s')"
  then have "s' = snd (receiver_poll s) \<and> is_item (fst (receiver_poll s))"
    by (cases "fst (receiver_poll s)" rule: poll_cases; cases "receiver_poll s")
      (auto simp: stream_poll_def is_item_def split: option.splits)
  with channel.polled[OF s(1)] show "pending_items s' < pending_items s" by simp
qed

section \<open>The time limit\<close>

text \<open>
  \<open>TimeLimited\<close>. \<open>select2\<close> polls its first future, and the second one when the first is not ready. A timer
  is a future; \<open>timer\<close> creates it and may fail, which \<open>expect\<close> turns into a panic.
\<close>

datatype 'a time_limited =
    Limited "('a, http_error) fut" "(unit, string) fut"
  | Unlimited "('a, http_error) fut"

definition limited ::
  "('d \<Rightarrow> string + (unit, string) fut) \<Rightarrow> ('a, http_error) fut \<Rightarrow> 'd \<Rightarrow> ('a time_limited, http_error) outcome" where
  "limited timer future time_limit =
     (case timer time_limit of Inl _ \<Rightarrow> Panic | Inr timeout \<Rightarrow> Ret (Limited future timeout))"

definition time_limited_new ::
  "('d \<Rightarrow> string + (unit, string) fut) \<Rightarrow> ('a, http_error) fut \<Rightarrow> 'd option \<Rightarrow> ('a time_limited, http_error) outcome" where
  "time_limited_new timer future optional_time_limit =
     (case optional_time_limit of
        Some time_limit \<Rightarrow> limited timer future time_limit
      | None \<Rightarrow> Ret (Unlimited future))"

fun time_limited_poll :: "'a time_limited \<Rightarrow> ('a, http_error) poll \<times> 'a time_limited" where
  "time_limited_poll (Unlimited f) = (case poll_fut f of (r, f') \<Rightarrow> (r, Unlimited f'))"
| "time_limited_poll (Limited f t) =
     (case poll_fut f of
        (Inr NotReady, f') \<Rightarrow>
          (case poll_fut t of
             (Inr NotReady, t') \<Rightarrow> (Inr NotReady, Limited f' t')
           | (Inr (Ready _), t') \<Rightarrow> (Inl RequestTimeout, Limited f' t')
           | (Inl _, t') \<Rightarrow> (Inl RequestTimeout, Limited f' t'))
      | (Inr (Ready result), f') \<Rightarrow> (Inr (Ready result), Limited f' t)
      | (Inl error, f') \<Rightarrow> (Inl error, Limited f' t))"

text \<open>A time limited future, as the sequence of its answers.\<close>

fun settled :: "('a, 'e) poll \<Rightarrow> ('e + 'a) option" where
  "settled (Inr NotReady) = None"
| "settled (Inr (Ready a)) = Some (Inr a)"
| "settled (Inl e) = Some (Inl e)"

primcorec time_limited_fut :: "'a time_limited \<Rightarrow> ('a, http_error) fut" where
  "time_limited_fut l =
     (case settled (fst (time_limited_poll l)) of
        None \<Rightarrow> Pending (time_limited_fut (snd (time_limited_poll l)))
      | Some r \<Rightarrow> Resolved r)"

lemma time_limited_fut_simps [simp]:
  "time_limited_fut (Limited (Resolved r) t) = Resolved r"
  "time_limited_fut (Limited (Pending f) (Resolved r')) = Resolved (Inl RequestTimeout)"
  "time_limited_fut (Limited (Pending f) (Pending t)) = Pending (time_limited_fut (Limited f t))"
  "time_limited_fut (Unlimited (Resolved r)) = Resolved r"
  "time_limited_fut (Unlimited (Pending f)) = Pending (time_limited_fut (Unlimited f))"
  by (cases r; cases r'; subst time_limited_fut.code; simp)+

lemma time_limited_ends:
  "resolves_within n t q \<Longrightarrow> \<exists>r. resolves_within n (time_limited_fut (Limited f t)) r
     \<and> (r = Inl RequestTimeout \<or> resolves_within n f r)"
proof (induction n arbitrary: f t)
  case 0
  then show ?case by (cases t; cases f) auto
next
  case (Suc n)
  show ?case
  proof (cases t)
    case (Pending t')
    show ?thesis
    proof (cases f)
      case (Pending f')
      from Suc.prems \<open>t = Pending t'\<close> have "resolves_within n t' q" by simp
      from Suc.IH[OF this, of f'] Pending \<open>t = Pending t'\<close> show ?thesis by auto
    qed auto
  next
    case (Resolved q')
    then show ?thesis by (cases f) auto
  qed
qed

lemma time_limited_wins:
  "resolves_within n f r \<Longrightarrow> (\<And>m q. m < n \<Longrightarrow> \<not> resolves_within m t q)
     \<Longrightarrow> resolves_within n (time_limited_fut (Limited f t)) r"
proof (induction n arbitrary: f t)
  case 0
  then show ?case by (cases f) auto
next
  case (Suc n)
  show ?case
  proof (cases f)
    case (Pending f')
    with Suc.prems(1) have f': "resolves_within n f' r" by simp
    show ?thesis
    proof (cases t)
      case (Resolved q)
      with Suc.prems(2)[of 0 q] show ?thesis by simp
    next
      case (Pending t')
      have "\<not> resolves_within m t' q" if "m < n" for m q
        using Suc.prems(2)[of "Suc m" q] that Pending by simp
      from Suc.IH[OF f' this] Pending \<open>f = Pending f'\<close> show ?thesis by simp
    qed
  qed (use Suc.prems(1) in simp)
qed

lemma unlimited_fut: "time_limited_fut (Unlimited f) = f"
proof (coinduction arbitrary: f)
  case (Eq_fut f)
  show ?case by (cases f) auto
qed

section \<open>Processing requests\<close>

text \<open>
  What Hyper does with a request is a future of its response, whose body is a future in turn.
\<close>

record http_response =
  status :: nat
  body :: "(bytes, string) fut"

text \<open>
  The closure of \<open>for_each\<close>: send the request under the time limit, refuse every status but 200, collect
  the body. Sending the result on the one-shot channel never fails the loop.
\<close>

definition process_item ::
  "(http_request \<Rightarrow> (http_response, string) fut) \<Rightarrow> ('d \<Rightarrow> string + (unit, string) fut) \<Rightarrow> 'd option
     \<Rightarrow> http_request \<Rightarrow> ((bytes, http_error) fut, http_error) outcome" where
  "process_item client timer timeout request =
     (case time_limited_new timer (map_err Hyper (client request)) timeout of
        Ret request_fut \<Rightarrow> Ret (and_then (and_then (time_limited_fut request_fut)
            (\<lambda>response. Resolved (if status response = 200 then Inr response else Inl (HttpError (status response)))))
            (\<lambda>response. map_err Hyper (body response)))
      | Raise e \<Rightarrow> Raise e
      | Panic \<Rightarrow> Panic)"

text \<open>
  The state of \<open>request_rx.for_each(..)\<close>: the channel and the item being processed, with the one-shot
  channel for its answer; \<open>replies\<close> records what has been sent on these channels.
\<close>

record processor =
  request_rx :: "(http_request \<times> completion) receiver"
  in_flight :: "((bytes, http_error) fut \<times> completion) option"
  replies :: "(completion \<times> (http_error + bytes)) list"

definition create_request_processing_future :: "(http_request \<times> completion) receiver \<Rightarrow> processor" where
  "create_request_processing_future rx = \<lparr>request_rx = rx, in_flight = None, replies = []\<rparr>"

text \<open>
  One turn of the loop of \<open>ForEach::poll\<close>: finish the item being processed, then take the next one.
\<close>

definition process_turn ::
  "(http_request \<Rightarrow> (http_response, string) fut) \<Rightarrow> ('d \<Rightarrow> string + (unit, string) fut) \<Rightarrow> 'd option
     \<Rightarrow> processor \<Rightarrow> (unit async, unit) outcome flow \<times> processor" where
  "process_turn client timer timeout p =
     (case in_flight p of
        Some (f, response_tx) \<Rightarrow>
          (let (a, f') = poll_fut f in
           case settled a of
             None \<Rightarrow> (Return (Ret NotReady), p\<lparr>in_flight := Some (f', response_tx)\<rparr>)
           | Some response_result \<Rightarrow>
               (Continue, p\<lparr>in_flight := None, replies := replies p @ [(response_tx, response_result)]\<rparr>))
      | None \<Rightarrow>
          (case receiver_poll (request_rx p) of
             (Inr (Ready (Some (request, response_tx))), rx') \<Rightarrow>
               (case process_item client timer timeout request of
                  Ret f \<Rightarrow> (Continue, p\<lparr>request_rx := rx', in_flight := Some (f, response_tx)\<rparr>)
                | _ \<Rightarrow> (Return Panic, p\<lparr>request_rx := rx'\<rparr>))
           | (Inr (Ready None), rx') \<Rightarrow> (Return (Ret (Ready ())), p\<lparr>request_rx := rx'\<rparr>)
           | (Inr NotReady, rx') \<Rightarrow> (Return (Ret NotReady), p\<lparr>request_rx := rx'\<rparr>)
           | (Inl _, rx') \<Rightarrow> (Return (Raise ()), p\<lparr>request_rx := rx'\<rparr>)))"

definition process_poll ::
  "(http_request \<Rightarrow> (http_response, string) fut) \<Rightarrow> ('d \<Rightarrow> string + (unit, string) fut) \<Rightarrow> 'd option
     \<Rightarrow> processor \<Rightarrow> ((unit async, unit) outcome \<times> processor) option" where
  "process_poll client timer timeout p = rust_loop (process_turn client timer timeout) p"

text \<open>Polling the processing future until it stops.\<close>

inductive process_run ::
  "(http_request \<Rightarrow> (http_response, string) fut) \<Rightarrow> ('d \<Rightarrow> string + (unit, string) fut) \<Rightarrow> 'd option
     \<Rightarrow> processor \<Rightarrow> (unit async, unit) outcome \<Rightarrow> processor \<Rightarrow> bool"
  for client timer timeout p0 where
  "process_run client timer timeout p0 (Ret NotReady) p0"
| "process_run client timer timeout p0 (Ret NotReady) p \<Longrightarrow> process_poll client timer timeout p = Some (r, p')
     \<Longrightarrow> process_run client timer timeout p0 r p'"

section \<open>Requests are served in order, each with its own answer\<close>

text \<open>The answer a request gets: what its exchange resolves to.\<close>

definition item_answer ::
  "(http_request \<Rightarrow> (http_response, string) fut) \<Rightarrow> ('d \<Rightarrow> string + (unit, string) fut) \<Rightarrow> 'd option
     \<Rightarrow> http_request \<Rightarrow> http_error + bytes \<Rightarrow> bool" where
  "item_answer client timer timeout request r \<longleftrightarrow>
     (\<exists>f n. process_item client timer timeout request = Ret f \<and> resolves_within n f r)"

definition steps_to :: "('a, 'e) fut \<Rightarrow> ('a, 'e) fut \<Rightarrow> bool" where
  "steps_to f g \<longleftrightarrow> (\<exists>n. g = ((\<lambda>f. snd (poll_fut f)) ^^ n) f)"

text \<open>
  The requests taken are the ones replied to, in their order and each with its answer, and the one in
  flight.
\<close>

definition serves ::
  "(http_request \<Rightarrow> (http_response, string) fut) \<Rightarrow> ('d \<Rightarrow> string + (unit, string) fut) \<Rightarrow> 'd option
     \<Rightarrow> (http_request \<times> completion) list \<Rightarrow> processor \<Rightarrow> bool" where
  "serves client timer timeout taken p \<longleftrightarrow>
     (\<exists>served waiting. taken = served @ waiting
        \<and> list_all2 (\<lambda>(request, tx) (tx', r). tx' = tx \<and> item_answer client timer timeout request r)
            served (replies p)
        \<and> (case in_flight p of
              None \<Rightarrow> waiting = []
            | Some (g, tx) \<Rightarrow> (\<exists>request f. waiting = [(request, tx)]
                \<and> process_item client timer timeout request = Ret f \<and> steps_to f g)))"

lemma steps_to_refl [simp]: "steps_to f f"
  unfolding steps_to_def by (rule exI[of _ 0]) simp

lemma steps_to_poll: "steps_to f g \<Longrightarrow> steps_to f (snd (poll_fut g))"
  unfolding steps_to_def by (metis funpow.simps(2) comp_apply)

lemma resolves_within_poll: "resolves_within n (snd (poll_fut f)) r \<Longrightarrow> resolves_within (Suc n) f r"
  by (cases f) (auto simp: poll_fut_def split: fut.splits sum.splits)

lemma steps_to_settled:
  assumes "steps_to f g" "settled (fst (poll_fut g)) = Some r"
  shows "\<exists>n. resolves_within n f r"
proof -
  from assms(1) obtain n where g: "g = ((\<lambda>f. snd (poll_fut f)) ^^ n) f" by (auto simp: steps_to_def)
  have r: "g = Resolved r"
    using assms(2) by (cases g; cases "case g of Resolved q \<Rightarrow> q") (auto simp: poll_fut_def split: sum.splits)
  have "resolves_within n f r"
    using g[unfolded r, symmetric]
  proof (induction n arbitrary: f)
    case 0
    then show ?case by simp
  next
    case (Suc n)
    then have "((\<lambda>f. snd (poll_fut f)) ^^ n) (snd (poll_fut f)) = Resolved r"
      by (simp add: funpow_Suc_right del: funpow.simps)
    with Suc.IH show ?case by (intro resolves_within_poll) blast
  qed
  then show ?thesis ..
qed

lemma serves_in_flight:
  assumes "list_all2 (\<lambda>(request, tx) (tx', r). tx' = tx \<and> item_answer client timer timeout request r)
      served (replies p)"
    and "in_flight p = Some (g, tx)" "process_item client timer timeout request = Ret f" "steps_to f g"
  shows "serves client timer timeout (served @ [(request, tx)]) p"
  unfolding serves_def using assms by (intro exI[of _ served] exI[of _ "[(request, tx)]"]) auto

lemma serves_turn:
  assumes "serves client timer timeout taken p" "process_turn client timer timeout p = (fl, p')"
  shows "\<exists>k. request_rx p' = sdrop k (request_rx p)
    \<and> (fl = Return Panic \<or> serves client timer timeout (taken @ items_of (stake k (request_rx p))) p')"
proof (cases "in_flight p")
  case (Some ftx)
  obtain g tx where ftx: "ftx = (g, tx)" by (cases ftx)
  from assms(1) Some ftx obtain served request f where
    s: "taken = served @ [(request, tx)]" "process_item client timer timeout request = Ret f" "steps_to f g"
    "list_all2 (\<lambda>(request, tx) (tx', r). tx' = tx \<and> item_answer client timer timeout request r) served (replies p)"
    by (auto simp: serves_def)
  obtain a g' where a: "poll_fut g = (a, g')" by fastforce
  have "request_rx p' = sdrop 0 (request_rx p) \<and> serves client timer timeout taken p'"
  proof (cases "settled a")
    case None
    have "steps_to f g'" using steps_to_poll[OF s(3)] a by simp
    with s None assms(2) Some ftx a show ?thesis
      by (auto simp: process_turn_def intro!: serves_in_flight)
  next
    case (Some r)
    with steps_to_settled[OF s(3), of r] a have "\<exists>n. resolves_within n f r" by simp
    with s(2) have "item_answer client timer timeout request r" by (auto simp: item_answer_def)
    with s Some assms(2) \<open>in_flight p = Some ftx\<close> ftx a show ?thesis
      by (auto simp: process_turn_def serves_def list_all2_append1 intro!: list_all2_appendI)
  qed
  then show ?thesis by (intro exI[of _ 0]) simp
next
  case None
  with assms(1) have served: "list_all2 (\<lambda>(request, tx) (tx', r). tx' = tx \<and> item_answer client timer timeout request r)
      taken (replies p)" by (auto simp: serves_def)
  show ?thesis
  proof (cases "shd (request_rx p)" rule: poll_cases)
    case (item rt)
    obtain request tx where rt: "rt = (request, tx)" by (cases rt)
    show ?thesis
    proof (cases "process_item client timer timeout request")
      case (Ret f)
      with assms(2) None item rt have p': "request_rx p' = stl (request_rx p)" "replies p' = replies p"
        "in_flight p' = Some (f, tx)" by (auto simp: process_turn_def receiver_poll_def)
      with serves_in_flight[of client timer timeout taken p' f tx request f] served Ret item rt show ?thesis
        by (intro exI[of _ 1]) simp
    qed (use assms(2) None item rt in \<open>auto simp: process_turn_def receiver_poll_def intro!: exI[of _ 1]\<close>)
  qed (use assms(2) None served in
      \<open>auto simp: process_turn_def receiver_poll_def serves_def intro!: exI[of _ 1]\<close>)
qed

lemma serves_poll:
  assumes "serves client timer timeout (items_of (stake k rx)) p" "request_rx p = sdrop k rx"
    and "process_poll client timer timeout p = Some (r, p')" "r \<noteq> Panic"
  shows "\<exists>k. request_rx p' = sdrop k rx \<and> serves client timer timeout (items_of (stake k rx)) p'"
proof -
  let ?I = "\<lambda>p. \<exists>k. request_rx p = sdrop k rx \<and> serves client timer timeout (items_of (stake k rx)) p"
  have turn: "fl = Return Panic \<or> ?I q'" if "?I q" "process_turn client timer timeout q = (fl, q')" for q fl q'
  proof -
    from that(1) obtain k where k: "request_rx q = sdrop k rx" "serves client timer timeout (items_of (stake k rx)) q"
      by blast
    from serves_turn[OF k(2) that(2)] obtain l where "request_rx q' = sdrop l (sdrop k rx)"
      "fl = Return Panic \<or> serves client timer timeout (items_of (stake k rx) @ items_of (stake l (sdrop k rx))) q'"
      by (auto simp: k(1))
    then show ?thesis
      by (metis items_of_append sdrop_add stake_add)
  qed
  have "r = Panic \<or> ?I p'"
    by (rule rust_loop_invariant[OF assms(3)[unfolded process_poll_def], where I = ?I])
      (use assms(1,2) turn in blast)+
  with assms(4) show ?thesis by blast
qed

lemma processed_in_order:
  assumes "process_run client timer timeout (create_request_processing_future rx) r p" and "r \<noteq> Panic"
  shows "\<exists>k. request_rx p = sdrop k rx \<and> serves client timer timeout (items_of (stake k rx)) p"
proof -
  have "r = Panic \<or> (\<exists>k. request_rx p = sdrop k rx \<and> serves client timer timeout (items_of (stake k rx)) p)"
    using assms(1)
  proof (induction rule: process_run.induct)
    case 1
    show ?case
      by (rule disjI2, rule exI[of _ 0]) (simp add: create_request_processing_future_def serves_def)
  next
    case (2 p r p')
    then obtain k where "request_rx p = sdrop k rx" "serves client timer timeout (items_of (stake k rx)) p"
      by auto
    from serves_poll[OF this(2,1) 2(2)] show ?case by blast
  qed
  with assms(2) show ?thesis by blast
qed

text \<open>C22: The processing future serves the requests strictly in the order in which they were handed to it:
  at any moment of its run the answers given so far belong to the first requests of the channel, each
  answer went to the one-shot channel that came with its request and is the outcome of that request's
  own HTTP exchange, and at most the next request is in progress. A request that fails or times out is
  answered like the others and does not stop the loop.\<close>

theorem requests_served_in_order:
  assumes "process_run client timer timeout (create_request_processing_future rx) r p" and "r \<noteq> Panic"
  shows "\<exists>k. request_rx p = sdrop k rx \<and> serves client timer timeout (items_of (stake k rx)) p"
  using processed_in_order[OF assms] .

text \<open>A server that answers at the second poll, and refuses everything but \<open>/rpc\<close>.\<close>

definition demo_http :: "http_request \<Rightarrow> (http_response, string) fut" where
  "demo_http req = Pending (Resolved (Inr
     \<lparr>status = (if req_uri req = ''/rpc'' then 200 else 404), body = Resolved (Inr (req_body req))\<rparr>))"

definition demo_http_handle :: http_handle where
  "demo_http_handle = \<lparr>request_tx = (\<lambda>_. Inr ()), uri = ''/rpc'', handle_id = 1, custom_headers = Map.empty\<rparr>"

definition demo_requests :: "(http_request \<times> completion) receiver" where
  "demo_requests = Inr (Ready (Some (create_request (demo_http_handle\<lparr>uri := ''/x''\<rparr>) [1], 1)))
     ## Inr (Ready (Some (create_request demo_http_handle [2], 2))) ## sconst (Inr NotReady)"

definition no_timer :: "unit \<Rightarrow> string + (unit, string) fut" where
  "no_timer d = Inl ''no timer''"

lemma demo_processing:
  "\<exists>p. process_run demo_http no_timer None (create_request_processing_future demo_requests) (Ret NotReady) p
     \<and> replies p = [(1, Inl (HttpError 404))] \<and> in_flight p \<noteq> None"
proof -
  let ?p0 = "create_request_processing_future demo_requests"
  have 1: "\<exists>p1 p2. process_poll demo_http no_timer None ?p0 = Some (Ret NotReady, p1)
      \<and> process_poll demo_http no_timer None p1 = Some (Ret NotReady, p2)
      \<and> replies p2 = [(1, Inl (HttpError 404))] \<and> in_flight p2 \<noteq> None"
    unfolding process_poll_def create_request_processing_future_def
    by ((subst rust_loop.simps, simp add: process_turn_def demo_requests_def receiver_poll_def process_item_def
        time_limited_new_def demo_http_def create_request_def demo_http_handle_def Let_def)+)
  then show ?thesis using process_run.intros by metis
qed

theorem requests_served_in_order_witness:
  "\<exists>p k. replies p = [(1, Inl (HttpError 404))] \<and> request_rx p = sdrop k demo_requests
     \<and> serves demo_http no_timer None (items_of (stake k demo_requests)) p"
proof -
  from demo_processing obtain p where
    p: "process_run demo_http no_timer None (create_request_processing_future demo_requests) (Ret NotReady) p"
    "replies p = [(1, Inl (HttpError 404))]" by blast
  from requests_served_in_order[OF p(1)] p(2) show ?thesis by auto
qed

text \<open>C33: The time limit. A request under a time limit is settled when its timer is: if the timer runs out
  after at most \<open>n\<close> polls, the request ends within \<open>n\<close> polls, with its own outcome or with
  \<open>RequestTimeout\<close>. And the limit never costs an answer that came in time: if the exchange settles
  after at most \<open>n\<close> polls and the timer has not run out before, the outcome is the exchange's, also when
  both happen in the same poll.\<close>

theorem time_limit:
  assumes "resolves_within n t q"
  shows "(\<exists>r. resolves_within n (time_limited_fut (Limited f t)) r
            \<and> (r = Inl RequestTimeout \<or> resolves_within n f r))
    \<and> (\<forall>m r. resolves_within m f r \<and> (\<forall>k<m. \<forall>q. \<not> resolves_within k t q)
          \<longrightarrow> resolves_within m (time_limited_fut (Limited f t)) r)"
  using time_limited_ends[OF assms] time_limited_wins by blast

theorem time_limit_witness:
  "resolves_within 1 (time_limited_fut (Limited never (Pending (Resolved (Inr ()))))) (Inl RequestTimeout :: http_error + bytes)"
proof -
  have "resolves_within 1 (Pending (Resolved (Inr ())) :: (unit, string) fut) (Inr ())" by simp
  from time_limit[OF this, of "never :: (bytes, http_error) fut"] show ?thesis by auto
qed

text \<open>What is sent is a POST to the handle's address whose body is the payload, byte for byte, with the
  length of the body and the JSON content type as headers, unless the user has set a header of that name,
  which wins; headers set later win over earlier ones, and no other header is touched.\<close>

lemma request_contents:
  "let r = create_request (set_header name v h) (into_bytes s) in
     req_method r = Post \<and> req_uri r = uri h \<and> of_bytes (req_body r) = s
     \<and> req_headers r name = Some v
     \<and> (\<forall>n. n \<noteq> name \<longrightarrow> req_headers r n =
          (case custom_headers h n of
             Some w \<Rightarrow> Some w
           | None \<Rightarrow> if n = ''Content-Type'' then Some Content_type_json
               else if n = ''Content-Length'' then Some (Content_length (of_nat (length s))) else None))"
  by (auto simp: create_request_def set_header_def Let_def map_add_def into_bytes_def[of s, THEN arg_cong[of _ _ length]]
      split: option.split)

lemma request_contents_example:
  "req_headers (create_request (set_header ''Content-Type'' (Custom_header ''text/plain'') demo_http_handle)
     (into_bytes ''{}'')) ''Content-Type'' = Some (Custom_header ''text/plain'')"
  using request_contents[of "''Content-Type''" "Custom_header ''text/plain''" demo_http_handle "''{}''"]
  by (simp add: Let_def)



text \<open>Sending a payload resolves to what the event loop answers for its request, at most as many polls
  later as the one-shot channel takes: the body, the error of the exchange, or an error of its own when
  the event loop has gone before the request was queued or before it was answered.\<close>

lemma send_fut_outcome:
  assumes "resolves_within n rx a"
  shows "resolves_within n (send_fut h bs tx rx)
    (case (request_tx h (create_request h bs, tx), a) of
       (Inl _, _) \<Rightarrow> Inl (TokioCoreError ''Not listening for requests'')
     | (Inr _, Inl _) \<Rightarrow> Inl (TokioCoreError ''Died without returning response'')
     | (Inr _, Inr r) \<Rightarrow> r)"
proof (cases "request_tx h (create_request h bs, tx)")
  case (Inr u)
  have "resolves_within (n + 0) (and_then (map_err (\<lambda>_. TokioCoreError ''Died without returning response'') rx) Resolved)
      (case a of Inl _ \<Rightarrow> Inl (TokioCoreError ''Died without returning response'') | Inr r \<Rightarrow> r)"
    by (rule resolves_and_then[OF resolves_within_map_err[OF assms]]) (auto split: sum.splits)
  with Inr show ?thesis by (simp add: send_fut_def Let_def)
qed (simp add: send_fut_def Let_def)

lemma send_fut_outcome_example:
  "resolves_within 1 (send_fut demo_http_handle [1] 1 (Pending (Resolved (Inr (Inr [2]))))) (Inr [2])"
  using send_fut_outcome[of 1 "Pending (Resolved (Inr (Inr [2])))" "Inr (Inr [2])" demo_http_handle "[1]" 1]
  by (simp add: demo_http_handle_def)

section \<open>Building a transport\<close>

text \<open>
  \<open>HttpTransportBuilder\<close>. The request channel is given by its two halves, a reactor by its handle. What a
  builder leaves running on the event loop is the processing future with the client that was created
  and the configured timeout.
\<close>

record ('handle, 'client, 'd) http_transport_builder =
  client_creator :: "'handle \<Rightarrow> string + 'client"
  timeout_setting :: "'d option"

record ('client, 'd) spawned =
  sp_client :: 'client
  sp_timeout :: "'d option"
  sp_processor :: processor

definition with_client :: "('handle \<Rightarrow> string + 'client) \<Rightarrow> ('handle, 'client, 'd) http_transport_builder" where
  "with_client creator = \<lparr>client_creator = creator, timeout_setting = None\<rparr>"

definition set_timeout ::
  "'d \<Rightarrow> ('handle, 'client, 'd) http_transport_builder \<Rightarrow> ('handle, 'client, 'd) http_transport_builder" where
  "set_timeout duration b = b\<lparr>timeout_setting := Some duration\<rparr>"

definition build_transport :: "core_sender \<Rightarrow> http_transport" where
  "build_transport tx = \<lparr>t_request_tx = tx, t_id = 1\<rparr>"

definition shared ::
  "core_sender \<Rightarrow> (http_request \<times> completion) receiver \<Rightarrow> 'handle \<Rightarrow> ('handle, 'client, 'd) http_transport_builder
     \<Rightarrow> http_error + http_transport \<times> ('client, 'd) spawned" where
  "shared tx rx handle b =
     (case client_creator b handle of
        Inl _ \<Rightarrow> Inl ClientCreatorError
      | Inr client \<Rightarrow>
          Inr (build_transport tx,
               \<lparr>sp_client = client, sp_timeout = timeout_setting b,
                sp_processor = create_request_processing_future rx\<rparr>))"

definition create_standalone_core ::
  "core_sender \<Rightarrow> (http_request \<times> completion) receiver \<Rightarrow> string + 'core \<Rightarrow> ('core \<Rightarrow> 'handle)
     \<Rightarrow> ('handle \<Rightarrow> string + 'client) \<Rightarrow> 'd option
     \<Rightarrow> http_error + 'core \<times> core_sender \<times> ('client, 'd) spawned" where
  "create_standalone_core tx rx new_core handle creator timeout =
     (case new_core of
        Inl _ \<Rightarrow> Inl (TokioCoreError ''Unable to create'')
      | Inr core \<Rightarrow>
          (case creator (handle core) of
             Inl _ \<Rightarrow> Inl ClientCreatorError
           | Inr client \<Rightarrow>
               Inr (core, tx, \<lparr>sp_client = client, sp_timeout = timeout,
                  sp_processor = create_request_processing_future rx\<rparr>)))"

text \<open>\<open>standalone\<close>: what the new thread sends back, and what it goes on to run.\<close>

definition standalone ::
  "core_sender \<Rightarrow> (http_request \<times> completion) receiver \<Rightarrow> string + 'core \<Rightarrow> ('core \<Rightarrow> 'handle)
     \<Rightarrow> ('handle, 'client, 'd) http_transport_builder \<Rightarrow> http_error + http_transport \<times> ('client, 'd) spawned" where
  "standalone tx rx new_core handle b =
     (case create_standalone_core tx rx new_core handle (client_creator b) (timeout_setting b) of
        Inl e \<Rightarrow> Inl e
      | Inr (core, sender, future) \<Rightarrow> Inr (build_transport sender, future))"

text \<open>A transport with its own event loop and one on a shared event loop are the same transport: once the
  core exists, both builders create the client, report \<open>ClientCreatorError\<close> if that fails, and leave
  the same processing future with the last timeout set, or none; without a core, the standalone builder
  reports that it could not create one.\<close>

lemma standalone_is_shared:
  "standalone tx rx (Inr core) handle b = shared tx rx (handle core) b
   \<and> (standalone tx rx (Inl e) handle b = Inl (TokioCoreError ''Unable to create''))
   \<and> (case shared tx rx h (set_timeout d b) of
        Inl err \<Rightarrow> err = ClientCreatorError
      | Inr (t, sp) \<Rightarrow> t_request_tx t = tx \<and> sp_timeout sp = Some d
          \<and> client_creator b h = Inr (sp_client sp) \<and> request_rx (sp_processor sp) = rx)"
  by (simp add: standalone_def shared_def create_standalone_core_def build_transport_def set_timeout_def
      create_request_processing_future_def split: sum.split)

end
