(* ===== verification/Http_Sink.thy ===== *)
theory Http_Sink
  imports Client_Intake Http_Transport
begin

text \<open>
  \<open>http/src/lib.rs\<close>, \<open>impl Transport for HttpHandle\<close>: what the client sees of HTTP is a sink and a stream.
  \<open>io_pair\<close> puts \<open>with\<close>, the sink adaptor of \<open>futures\<close>, in front of a channel of its own and reads the stream
  from the other end of that channel. The adaptor is modelled by what \<open>futures\<close> documents: it takes a payload
  when it is empty, runs \<open>sink_item\<close> on it, polls the future that gives to completion whenever the sink is
  used, and passes the result down; the channel hands out in order what was put into it (\<open>io_queue\<close>).
  Whether the channel has room, and when it is flushed and closed, is the environment's choice.

  Both halves belong to the same client, so this one state is a complete transport: it interprets
  \<open>transport_contract\<close>, \<open>dry_stream\<close>, \<open>transport_source\<close> and \<open>live_client\<close>, and with \<open>transport_invariant\<close> the order in which the
  exchanges are made and answered becomes a property of the client over HTTP.

  Ghosts: \<open>io_taken\<close> the payloads taken, \<open>io_posted\<close> the requests handed to the event loop, \<open>io_settled\<close> the
  outcomes of the exchanges in the order in which they came in, \<open>io_read\<close> what the stream has read.
\<close>

section \<open>The two halves of the transport\<close>

datatype ('a, 'e) with_state = With_empty | With_process "('a, 'e) fut" | With_buffered 'a

type_synonym http_oneshot = "completion \<times> (http_error + bytes, unit) fut"

record http_io =
  io_handle :: http_handle
  io_oneshots :: "http_oneshot stream"
  io_state :: "(bytes, http_error) with_state"
  io_slots :: "(unit + bool) stream"
  io_flush :: "(unit, unit) poll stream"
  io_close :: "(unit, unit) poll stream"
  io_queue :: "bytes list"
  io_taken :: "string list"
  io_posted :: "(http_request \<times> completion) list"
  io_settled :: "(http_error + bytes) list"
  io_read :: "bytes list"

text \<open>\<open>HttpHandle::io_pair\<close>\<close>

definition http_io_pair ::
  "http_handle \<Rightarrow> http_oneshot stream \<Rightarrow> (unit + bool) stream \<Rightarrow> (unit, unit) poll stream
     \<Rightarrow> (unit, unit) poll stream \<Rightarrow> http_io" where
  "http_io_pair h chans slots flush close =
     \<lparr>io_handle = h, io_oneshots = chans, io_state = With_empty, io_slots = slots, io_flush = flush,
      io_close = close, io_queue = [], io_taken = [], io_posted = [], io_settled = [], io_read = []\<rparr>"

text \<open>\<open>sink_map_err\<close>\<close>

definition channel_gone :: http_error where
  "channel_gone = TokioCoreError ''Not listening for requests''"

text \<open>The adaptor: drive the future, then pass its result down. It is ready when it is empty again.\<close>

definition with_drive :: "http_io \<Rightarrow> (unit, http_error) poll \<times> http_io" where
  "with_drive t =
     (case io_state t of
        With_process f \<Rightarrow>
          (case poll_fut f of
             (Inl e, _) \<Rightarrow> (Inl e, t\<lparr>io_state := With_empty, io_settled := io_settled t @ [Inl e]\<rparr>)
           | (Inr NotReady, f') \<Rightarrow> (Inr NotReady, t\<lparr>io_state := With_process f'\<rparr>)
           | (Inr (Ready bs), _) \<Rightarrow>
               (Inr (Ready ()), t\<lparr>io_state := With_buffered bs, io_settled := io_settled t @ [Inr bs]\<rparr>))
      | _ \<Rightarrow> (Inr (Ready ()), t))"

definition with_pass :: "http_io \<Rightarrow> (unit, http_error) poll \<times> http_io" where
  "with_pass t =
     (case io_state t of
        With_buffered bs \<Rightarrow>
          (let t' = t\<lparr>io_slots := stl (io_slots t)\<rparr> in
           case shd (io_slots t) of
             Inl _ \<Rightarrow> (Inl channel_gone, t'\<lparr>io_state := With_empty\<rparr>)
           | Inr False \<Rightarrow> (Inr NotReady, t')
           | Inr True \<Rightarrow> (Inr (Ready ()), t'\<lparr>io_state := With_empty, io_queue := io_queue t @ [bs]\<rparr>))
      | _ \<Rightarrow> (Inr (Ready ()), t))"

definition with_poll :: "http_io \<Rightarrow> (unit, http_error) poll \<times> http_io" where
  "with_poll t =
     (case with_drive t of
        (Inr (Ready _), t') \<Rightarrow> with_pass t'
      | other \<Rightarrow> other)"

definition http_start_send ::
  "(http_error \<Rightarrow> string) \<Rightarrow> string \<Rightarrow> http_io \<Rightarrow> (string + string async_sink) \<times> http_io" where
  "http_start_send show_error p t =
     (case with_poll t of
        (Inl e, t') \<Rightarrow> (Inl (show_error e), t')
      | (Inr NotReady, t') \<Rightarrow> (Inr (Sink_NotReady p), t')
      | (Inr (Ready _), t') \<Rightarrow>
          (let (tx, rx) = shd (io_oneshots t') in
           (Inr Sink_Ready,
            t'\<lparr>io_state := With_process (sink_item (io_handle t') p tx rx),
               io_oneshots := stl (io_oneshots t'), io_taken := io_taken t' @ [p],
               io_posted := io_posted t' @ [(create_request (io_handle t') (into_bytes p), tx)]\<rparr>)))"

definition http_poll_complete :: "(http_error \<Rightarrow> string) \<Rightarrow> http_io \<Rightarrow> (unit, string) poll \<times> http_io" where
  "http_poll_complete show_error t =
     (case with_poll t of
        (Inl e, t') \<Rightarrow> (Inl (show_error e), t')
      | (Inr me_ready, t') \<Rightarrow>
          (let t'' = t'\<lparr>io_flush := stl (io_flush t')\<rparr> in
           case shd (io_flush t') of
             Inl _ \<Rightarrow> (Inl (show_error channel_gone), t'')
           | Inr NotReady \<Rightarrow> (Inr NotReady, t'')
           | Inr (Ready _) \<Rightarrow> (Inr me_ready, t'')))"

definition http_close :: "(http_error \<Rightarrow> string) \<Rightarrow> http_io \<Rightarrow> (unit, string) poll \<times> http_io" where
  "http_close show_error t =
     (case with_poll t of
        (Inl e, t') \<Rightarrow> (Inl (show_error e), t')
      | (Inr NotReady, t') \<Rightarrow> (Inr NotReady, t')
      | (Inr (Ready _), t') \<Rightarrow>
          (case shd (io_close t') of
             Inl _ \<Rightarrow> (Inl (show_error channel_gone), t'\<lparr>io_close := stl (io_close t')\<rparr>)
           | Inr a \<Rightarrow> (Inr a, t'\<lparr>io_close := stl (io_close t')\<rparr>)))"

text \<open>The next answer of the channel's receiving half, which the stream maps.\<close>

definition queue_answer :: "bytes list \<Rightarrow> (bytes option, unit) poll" where
  "queue_answer q = (case q of [] \<Rightarrow> Inr NotReady | bs # _ \<Rightarrow> Inr (Ready (Some bs)))"

definition http_rx_poll :: "(http_error \<Rightarrow> string) \<Rightarrow> http_io \<Rightarrow> (string option, string) poll \<times> http_io" where
  "http_rx_poll show_error t =
     (map_sum show_error (\<lambda>a. a) (fst (stream_poll (queue_answer (io_queue t) ## sconst (Inr NotReady)))),
      t\<lparr>io_queue := tl (io_queue t), io_read := io_read t @ take 1 (io_queue t)\<rparr>)"

definition http_ops :: "(http_error \<Rightarrow> string) \<Rightarrow> http_io transport_ops" where
  "http_ops show_error =
     \<lparr>tx_start_send = http_start_send show_error, tx_poll_complete = http_poll_complete show_error,
      tx_close = http_close show_error, rx_poll = http_rx_poll show_error\<rparr>"

lemma http_ops_simps [simp]:
  "tx_start_send (http_ops sh) = http_start_send sh" "tx_poll_complete (http_ops sh) = http_poll_complete sh"
  "tx_close (http_ops sh) = http_close sh" "rx_poll (http_ops sh) = http_rx_poll sh"
  by (simp_all add: http_ops_def)

section \<open>The contracts of the client\<close>

text \<open>What driving the adaptor leaves alone.\<close>

lemma with_drive_frame:
  "with_drive t = (r, t') \<Longrightarrow> io_taken t' = io_taken t \<and> io_queue t' = io_queue t \<and> io_handle t' = io_handle t
     \<and> io_oneshots t' = io_oneshots t \<and> io_posted t' = io_posted t \<and> io_read t' = io_read t
     \<and> io_slots t' = io_slots t \<and> io_close t' = io_close t"
  by (auto simp: with_drive_def split: with_state.splits prod.splits sum.splits async.splits)

lemma with_pass_frame:
  "with_pass t = (r, t') \<Longrightarrow> io_taken t' = io_taken t \<and> io_handle t' = io_handle t
     \<and> io_oneshots t' = io_oneshots t \<and> io_posted t' = io_posted t \<and> io_read t' = io_read t
     \<and> io_settled t' = io_settled t \<and> io_close t' = io_close t"
  by (auto simp: with_pass_def Let_def split: with_state.splits prod.splits sum.splits bool.splits)

lemma with_poll_frame:
  assumes "with_poll t = (r, t')"
  shows "io_taken t' = io_taken t \<and> io_handle t' = io_handle t \<and> io_oneshots t' = io_oneshots t
     \<and> io_posted t' = io_posted t \<and> io_read t' = io_read t \<and> io_close t' = io_close t"
proof -
  obtain q t1 where d: "with_drive t = (q, t1)" by fastforce
  from with_drive_frame[OF d] with_pass_frame[of t1 r t'] assms d show ?thesis
    by (auto simp: with_poll_def split: sum.splits async.splits)
qed

lemma http_start_send_taken:
  "http_start_send sh p t = (a, t') \<Longrightarrow>
     io_taken t' = (if a = Inr Sink_Ready then io_taken t @ [p] else io_taken t)
     \<and> (\<forall>p'. a = Inr (Sink_NotReady p') \<longrightarrow> p' = p)"
  by (auto simp: http_start_send_def Let_def dest!: with_poll_frame split: prod.splits sum.splits async.splits)

lemma http_taken_kept [simp]:
  "io_taken (snd (http_poll_complete sh t)) = io_taken t" "io_taken (snd (http_close sh t)) = io_taken t"
  "io_taken (snd (http_rx_poll sh t)) = io_taken t"
  by (auto simp: http_poll_complete_def http_close_def http_rx_poll_def Let_def dest!: with_poll_frame
      split: prod.splits sum.splits async.splits)

interpretation http: transport_contract "http_ops show_error" io_taken for show_error
  by unfold_locales (auto dest: http_start_send_taken)

text \<open>The stream runs dry because it only ever holds what has been put into the channel.\<close>

lemma http_rx_item:
  "http_rx_poll sh t = (Inr (Ready (Some s)), t') \<Longrightarrow> \<exists>bs. io_queue t = bs # io_queue t' \<and> from_utf8 bs = Some s"
  by (cases "io_queue t")
    (auto simp: http_rx_poll_def stream_poll_def queue_answer_def split: option.splits)

interpretation http_stream: dry_stream "rx_poll (http_ops show_error)" "\<lambda>_. True" "\<lambda>t. length (io_queue t)"
  for show_error
proof unfold_locales
  fix s s' :: http_io and r and show_error :: "http_error \<Rightarrow> string"
  assume "rx_poll (http_ops show_error) s = (r, s')"
  then show "True \<and> length (io_queue s') \<le> length (io_queue s)" by (auto simp: http_rx_poll_def)
next
  fix s s' :: http_io and i and show_error :: "http_error \<Rightarrow> string"
  assume "rx_poll (http_ops show_error) s = (Inr (Ready (Some i)), s')"
  then show "length (io_queue s') < length (io_queue s)" by (auto dest: http_rx_item)
qed

text \<open>The stream hands out the bodies that are UTF-8, in the order in which they were put into the channel.\<close>

definition http_heard :: "http_io \<Rightarrow> http_io \<Rightarrow> string list \<Rightarrow> bool" where
  "http_heard t0 t ps \<longleftrightarrow> (\<exists>bs. io_read t = io_read t0 @ bs \<and> ps = List.map_filter from_utf8 bs)"

interpretation http_source: transport_source "http_ops show_error" http_heard for show_error
proof unfold_locales
  fix t0 t t' :: http_io and ps a p and show_error :: "http_error \<Rightarrow> string"
  assume h: "http_heard t0 t ps"
  have "io_read (snd (http_start_send show_error p t)) = io_read t"
    by (auto simp: http_start_send_def Let_def dest!: with_poll_frame split: prod.splits sum.splits async.splits)
  with h show "http_heard t0 (snd (tx_start_send (http_ops show_error) p t)) ps" by (simp add: http_heard_def)
  have "io_read (snd (http_poll_complete show_error t)) = io_read t" "io_read (snd (http_close show_error t)) = io_read t"
    by (auto simp: http_poll_complete_def http_close_def Let_def dest!: with_poll_frame
        split: prod.splits sum.splits async.splits)
  with h show "http_heard t0 (snd (tx_poll_complete (http_ops show_error) t)) ps"
    "http_heard t0 (snd (tx_close (http_ops show_error) t)) ps" by (simp_all add: http_heard_def)
  assume rx: "rx_poll (http_ops show_error) t = (a, t')"
  obtain bs where bs: "io_read t = io_read t0 @ bs" "ps = List.map_filter from_utf8 bs"
    using h by (auto simp: http_heard_def)
  from rx have "io_read t' = io_read t0 @ (bs @ take 1 (io_queue t))" using bs(1) by (auto simp: http_rx_poll_def)
  moreover have "arrived a = List.map_filter from_utf8 (take 1 (io_queue t))"
    using rx by (cases "io_queue t")
      (auto simp: http_rx_poll_def stream_poll_def queue_answer_def List.map_filter_simps split: option.splits)
  then have "ps @ arrived a = List.map_filter from_utf8 (bs @ take 1 (io_queue t))"
    using bs(2) by (simp add: List.map_filter_def)
  ultimately show "http_heard t0 t' (ps @ arrived a)" unfolding http_heard_def by blast
qed (simp add: http_heard_def List.map_filter_simps)

interpretation http_client: live_client server_handler_ops server_ok "http_ops show_error" "\<lambda>_. True"
  "\<lambda>t. length (io_queue t)" for show_error
  by unfold_locales simp_all

section \<open>One exchange at a time\<close>

text \<open>\<open>f\<close> resolves to \<open>r\<close> sooner or later; \<open>f\<close> is what is left of \<open>g\<close>.\<close>

definition settles_to :: "('a, 'e) fut \<Rightarrow> 'e + 'a \<Rightarrow> bool" where
  "settles_to f r \<longleftrightarrow> (\<exists>n. resolves_within n f r)"

definition rest_of :: "('a, 'e) fut \<Rightarrow> ('a, 'e) fut \<Rightarrow> bool" where
  "rest_of f g \<longleftrightarrow> (\<forall>r. settles_to f r \<longrightarrow> settles_to g r)"

lemma settles_to_simps [simp]:
  "settles_to (Resolved r') r \<longleftrightarrow> r' = r" "settles_to (Pending f) r \<longleftrightarrow> settles_to f r"
  by (auto simp: settles_to_def)

lemma rest_of_refl [simp]: "rest_of f f"
  by (simp add: rest_of_def)

definition successes :: "('e + 'a) list \<Rightarrow> 'a list" where
  "successes rs = concat (map (\<lambda>r. case r of Inl _ \<Rightarrow> [] | Inr a \<Rightarrow> [a]) rs)"

lemma successes_simps [simp]:
  "successes [] = []" "successes (rs @ [Inl e]) = successes rs" "successes (rs @ [Inr a]) = successes rs @ [a]"
  by (simp_all add: successes_def)

text \<open>The exchange of the \<open>k\<close>th payload: its request on its own one-shot channel.\<close>

definition exchange :: "http_handle \<Rightarrow> http_oneshot stream \<Rightarrow> string list \<Rightarrow> nat \<Rightarrow> (bytes, http_error) fut" where
  "exchange h chans ps k = sink_item h (ps ! k) (fst (snth chans k)) (snd (snth chans k))"

definition in_hand :: "http_io \<Rightarrow> bytes list" where
  "in_hand t = (case io_state t of With_buffered bs \<Rightarrow> [bs] | _ \<Rightarrow> [])"

definition in_progress :: "http_io \<Rightarrow> nat" where
  "in_progress t = (case io_state t of With_process _ \<Rightarrow> 1 | _ \<Rightarrow> 0)"

text \<open>The requests of the payloads taken so far, each with the one-shot channel it is answered on.\<close>

definition requests_for :: "http_handle \<Rightarrow> http_oneshot stream \<Rightarrow> string list \<Rightarrow> (http_request \<times> completion) list" where
  "requests_for h chans ps =
     map (\<lambda>k. (create_request h (into_bytes (ps ! k)), fst (snth chans k))) [0..<length ps]"

definition exchanges_ok :: "http_handle \<Rightarrow> http_oneshot stream \<Rightarrow> http_io \<Rightarrow> bool" where
  "exchanges_ok h chans t \<longleftrightarrow>
     io_handle t = h \<and> io_oneshots t = sdrop (length (io_taken t)) chans \<and> Inl () \<notin> sset (io_slots t)
     \<and> io_posted t = requests_for h chans (io_taken t)
     \<and> length (io_taken t) = length (io_settled t) + in_progress t
     \<and> (\<forall>k<length (io_settled t). settles_to (exchange h chans (io_taken t) k) (io_settled t ! k))
     \<and> (\<forall>f. io_state t = With_process f \<longrightarrow> rest_of f (exchange h chans (io_taken t) (length (io_settled t))))
     \<and> successes (io_settled t) = io_read t @ io_queue t @ in_hand t"

lemma exchange_append [simp]: "k < length ps \<Longrightarrow> exchange h chans (ps @ qs) k = exchange h chans ps k"
  by (simp add: exchange_def nth_append)

lemma with_drive_ok:
  assumes "exchanges_ok h chans t" "with_drive t = (r, t')"
  shows "exchanges_ok h chans t' \<and> (\<forall>a. r = Inr (Ready a) \<longrightarrow> in_progress t' = 0)"
proof (cases "io_state t")
  case (With_process f)
  show ?thesis
  proof (cases f)
    case (Pending g)
    with assms With_process show ?thesis
      by (auto simp: with_drive_def exchanges_ok_def in_progress_def in_hand_def rest_of_def)
  next
    case (Resolved q)
    with assms(1) With_process have "settles_to (exchange h chans (io_taken t) (length (io_settled t))) q"
      by (simp add: exchanges_ok_def rest_of_def)
    with assms With_process Resolved show ?thesis
      by (cases q)
        (auto simp: with_drive_def exchanges_ok_def in_progress_def in_hand_def nth_append less_Suc_eq)
  qed
qed (use assms in \<open>auto simp: with_drive_def in_progress_def\<close>)

lemma with_pass_ok:
  assumes "exchanges_ok h chans t" "with_pass t = (r, t')" "in_progress t = 0"
  shows "exchanges_ok h chans t' \<and> (\<forall>a. r = Inr (Ready a) \<longrightarrow> io_state t' = With_empty)"
proof (cases "io_state t")
  case (With_buffered bs)
  have slots: "Inl () \<notin> sset (stl (io_slots t))" "shd (io_slots t) \<noteq> Inl ()"
    using assms(1) shd_sset[of "io_slots t"] stl_sset[of "Inl ()" "io_slots t"] by (auto simp: exchanges_ok_def)
  then obtain b where "shd (io_slots t) = Inr b" by (cases "shd (io_slots t)") auto
  with assms With_buffered slots show ?thesis
    by (auto simp: with_pass_def exchanges_ok_def in_progress_def in_hand_def Let_def split: bool.splits)
qed (use assms in \<open>auto simp: with_pass_def in_progress_def\<close>)

lemma with_poll_ok:
  assumes "exchanges_ok h chans t" "with_poll t = (r, t')"
  shows "exchanges_ok h chans t' \<and> (\<forall>a. r = Inr (Ready a) \<longrightarrow> io_state t' = With_empty)"
proof -
  obtain q t1 where d: "with_drive t = (q, t1)" by fastforce
  from with_drive_ok[OF assms(1) d] with_pass_ok[of h chans t1 r t'] assms(2) d show ?thesis
    by (auto simp: with_poll_def split: sum.splits async.splits)
qed

lemma http_start_send_ok:
  assumes "exchanges_ok h chans t"
  shows "exchanges_ok h chans (snd (http_start_send sh p t))"
proof -
  obtain r t' where w: "with_poll t = (r, t')" by fastforce
  note ok = with_poll_ok[OF assms w]
  show ?thesis
  proof (cases "\<exists>a. r = Inr (Ready a)")
    case True
    let ?n = "length (io_taken t')"
    from ok True have t': "exchanges_ok h chans t'" "io_state t' = With_empty" by auto
    then have n: "length (io_settled t') = ?n" "io_oneshots t' = sdrop ?n chans" "io_handle t' = h"
      by (simp_all add: exchanges_ok_def in_progress_def)
    have req: "requests_for h chans (io_taken t' @ [p]) =
        requests_for h chans (io_taken t') @ [(create_request h (into_bytes p), fst (snth chans ?n))]"
      by (simp add: requests_for_def nth_append cong: map_cong)
    have new: "exchange h chans (io_taken t' @ [p]) ?n = sink_item h p (fst (snth chans ?n)) (snd (snth chans ?n))"
      by (simp add: exchange_def)
    let ?t = "t'\<lparr>io_state := With_process (sink_item h p (fst (snth chans ?n)) (snd (snth chans ?n))),
        io_oneshots := sdrop (Suc ?n) chans, io_taken := io_taken t' @ [p],
        io_posted := io_posted t' @ [(create_request h (into_bytes p), fst (snth chans ?n))]\<rparr>"
    have "snd (http_start_send sh p t) = ?t"
      using True w n(2,3) by (auto simp: http_start_send_def split_beta)
    moreover have "exchanges_ok h chans ?t"
      using t' n(1) new req by (simp add: exchanges_ok_def in_progress_def in_hand_def)
    ultimately show ?thesis by simp
  next
    case False
    with ok w show ?thesis by (auto simp: http_start_send_def split: sum.splits async.splits)
  qed
qed

lemma exchanges_ok_frame [simp]:
  "exchanges_ok h chans (t\<lparr>io_flush := fl\<rparr>) = exchanges_ok h chans t"
  "exchanges_ok h chans (t\<lparr>io_close := cl\<rparr>) = exchanges_ok h chans t"
  by (simp_all add: exchanges_ok_def in_progress_def in_hand_def)

lemma http_other_ok:
  assumes "exchanges_ok h chans t"
  shows "exchanges_ok h chans (snd (http_poll_complete sh t))" "exchanges_ok h chans (snd (http_close sh t))"
    and "exchanges_ok h chans (snd (http_rx_poll sh t))"
proof -
  obtain r t' where w: "with_poll t = (r, t')" by fastforce
  with with_poll_ok[OF assms w]
  show "exchanges_ok h chans (snd (http_poll_complete sh t))" "exchanges_ok h chans (snd (http_close sh t))"
    by (auto simp: http_poll_complete_def http_close_def Let_def split: sum.splits async.splits)
  show "exchanges_ok h chans (snd (http_rx_poll sh t))"
    using assms by (cases "io_queue t") (auto simp: http_rx_poll_def exchanges_ok_def in_progress_def in_hand_def)
qed

interpretation http_exchanges: transport_invariant "http_ops show_error" "exchanges_ok h chans" for show_error h chans
  by unfold_locales (simp_all add: http_start_send_ok http_other_ok)

lemma http_io_pair_ok [simp]:
  "Inl () \<notin> sset slots \<Longrightarrow> exchanges_ok h chans (http_io_pair h chans slots flush close)"
  by (simp add: exchanges_ok_def http_io_pair_def in_progress_def in_hand_def requests_for_def)

end
