(* ===== verification/Http_Client.thy ===== *)
theory Http_Client
  imports Http_Sink
begin

text \<open>
  The client over HTTP, the composition of \<open>core/src/lib.rs\<close> and \<open>http/src/lib.rs\<close>: the payloads of the
  session become requests one after the other and their bodies come back in that order; a single failed
  exchange, or a body that is not a JSON-RPC message, stops the client with every call that waits.
\<close>

section \<open>An example\<close>

text \<open>The call \<open>add\<close> of the example run, over HTTP: the event loop answers \<open>true\<close> at the second poll.\<close>

definition idle_oneshots :: "http_oneshot stream" where
  "idle_oneshots = smap (\<lambda>n. (n, never)) (fromN 2)"

definition demo_oneshots :: "http_oneshot stream" where
  "demo_oneshots = (1, Pending (Resolved (Inr (Inr (into_bytes ''true''))))) ## idle_oneshots"

definition demo_io :: http_io where
  "demo_io = http_io_pair demo_http_handle demo_oneshots (sconst (Inr True)) (sconst (Inr (Ready ())))
     (sconst (Inr (Ready ())))"

definition http_demo :: "(http_io, server) client" where
  "http_demo = new_with_server demo_calls (sconst (Inr NotReady)) (sconst (\<lambda>_. never)) demo_io idle_server"

definition error_text :: "http_error \<Rightarrow> string" where
  "error_text e = ''http error''"

lemmas http_defs = http_start_send_def http_poll_complete_def http_close_def http_rx_poll_def with_poll_def
  with_drive_def with_pass_def queue_answer_def stream_poll_def sink_item_def send_fut_def create_request_def
  demo_io_def http_io_pair_def demo_http_handle_def demo_oneshots_def channel_gone_def

definition http_demo1 :: "(http_io, server) client" where
  "http_demo1 = http_demo
     \<lparr>outgoing_payload_rx := \<lparr>strong = sconst (Inr NotReady), weak = sconst (Inr NotReady),
        use_strong = False, weak_done = False\<rparr>,
      id_generator := \<lparr>next_id = 2\<rparr>, pending_client_requests := [Id_Num 1 \<mapsto> 7],
      transport := demo_io\<lparr>io_oneshots := idle_oneshots,
        io_state := With_process (Resolved (Inr (into_bytes ''true''))), io_taken := [''add''],
        io_posted := [(create_request demo_http_handle (into_bytes ''add''), 1)]\<rparr>,
      history := [Sent demo_call]\<rparr>"

definition http_demo2 :: "(http_io, server) client" where
  "http_demo2 = http_demo1
     \<lparr>outgoing_payload_rx := \<lparr>strong = sconst (Inr NotReady), weak = sconst (Inr NotReady),
        use_strong = True, weak_done = False\<rparr>,
      transport := (transport http_demo1)\<lparr>io_state := With_empty, io_queue := [into_bytes ''true''],
        io_settled := [Inr (into_bytes ''true'')]\<rparr>\<rparr>"

lemma http_demo_poll1: "client_poll demo_serde (http_ops error_text) server_handler_ops http_demo = Some (Ret NotReady, http_demo1)"
  by (simp add: http_demo_def http_demo1_def demo_defs poll_defs http_defs,
      (subst rust_loop.simps, simp add: demo_defs poll_defs http_defs)+)

lemma http_demo_poll2: "client_poll demo_serde (http_ops error_text) server_handler_ops http_demo1 = Some (Ret NotReady, http_demo2)"
  by (simp add: http_demo2_def http_demo_def http_demo1_def demo_defs poll_defs http_defs,
      (subst rust_loop.simps, simp add: demo_defs poll_defs http_defs)+)

lemma http_demo_run:
  "client_run demo_serde (http_ops error_text) server_handler_ops http_demo (Ret NotReady) http_demo1"
  "client_run demo_serde (http_ops error_text) server_handler_ops http_demo (Ret NotReady) http_demo2"
  using client_run.run_poll http_demo_poll1 http_demo_poll2 client_run.run_start by metis+

section \<open>The exchanges of a run\<close>

lemma http_run_exchanges:
  assumes "client_run sd (http_ops show_error) S
      (new_with_server rx1 rx2 rtx (http_io_pair h chans slots flush close) s) r c"
    and "Inl () \<notin> sset slots"
  shows "exchanges_ok h chans (transport c)"
  using http_exchanges.client_run_kept[OF assms(1)] assms(2) by (simp add: new_with_server_def)

text \<open>C11: Over HTTP the payloads of the session become requests one at a time, in their order: what has been
  handed to the event loop is one POST request for each payload taken, with its own one-shot channel, and
  these payloads begin the session's payloads; all exchanges but the last one have settled, the \<open>k\<close>th
  outcome is the outcome of the \<open>k\<close>th payload's exchange, and the bodies that the client has read,
  followed by those still in the channel and the one that waits for room, are the bodies of the
  successful exchanges, in that order and none lost.\<close>

theorem http_exchanges_in_order:
  assumes "client_run sd (http_ops show_error) S
      (new_with_server rx1 rx2 rtx (http_io_pair h chans slots flush close) s) r c"
    and "Inl () \<notin> sset slots" and "r \<noteq> Panic"
  shows "let t = transport c; n = length (io_settled t) in
    io_posted t = requests_for h chans (io_taken t)
    \<and> (\<exists>unsent. ses_wire (session_of sd (history c)) = io_taken t @ unsent)
    \<and> n \<le> length (io_taken t) \<and> length (io_taken t) \<le> Suc n
    \<and> (\<forall>k<n. settles_to (exchange h chans (io_taken t) k) (io_settled t ! k))
    \<and> io_read t @ io_queue t @ in_hand t = successes (io_settled t)"
proof -
  have "io_taken (http_io_pair h chans slots flush close) = []" by (simp add: http_io_pair_def)
  from run_of_new_implements[OF http.transport_contract_axioms this assms(1,3)] obtain lost where
    "implements sd io_taken lost c" .
  then have "\<exists>unsent. ses_wire (session_of sd (history c)) = io_taken (transport c) @ unsent"
    by (auto simp: implements_def Let_def)
  with http_run_exchanges[OF assms(1,2)] show ?thesis
    by (auto simp: exchanges_ok_def Let_def in_progress_def split: with_state.splits)
qed

theorem http_exchanges_in_order_witness:
  "io_posted (transport http_demo2) = requests_for demo_http_handle demo_oneshots [''add'']
   \<and> settles_to (exchange demo_http_handle demo_oneshots [''add''] 0) (Inr (into_bytes ''true''))
   \<and> io_read (transport http_demo2) @ [into_bytes ''true''] = successes (io_settled (transport http_demo2))"
proof -
  have slots: "Inl () \<notin> sset (sconst (Inr True) :: (unit + bool) stream)" by simp
  have t: "io_taken (transport http_demo2) = [''add'']" "io_settled (transport http_demo2) = [Inr (into_bytes ''true'')]"
    "io_queue (transport http_demo2) = [into_bytes ''true'']" "in_hand (transport http_demo2) = []"
    by (simp_all add: http_demo2_def http_demo1_def http_demo_def demo_defs in_hand_def)
  from http_exchanges_in_order[OF http_demo_run(2)[unfolded http_demo_def demo_io_def] slots]
  show ?thesis by (simp add: Let_def t)
qed

section \<open>From the payload to the server's body and back\<close>

lemma settles_to_map_err:
  "settles_to (map_err g f) r \<Longrightarrow> \<exists>s. settles_to f s \<and> r = map_sum g (\<lambda>a. a) s"
proof -
  have "resolves_within n (map_err g f) r \<Longrightarrow> \<exists>s. resolves_within n f s \<and> r = map_sum g (\<lambda>a. a) s" for n
  proof (induction n arbitrary: f)
    case 0
    then show ?case by (cases f) auto
  next
    case (Suc n)
    then show ?case by (cases f) auto
  qed
  then show "settles_to (map_err g f) r \<Longrightarrow> ?thesis" unfolding settles_to_def by blast
qed

lemma settles_to_and_then:
  assumes "settles_to (and_then f k) r"
  shows "(\<exists>e. settles_to f (Inl e) \<and> r = Inl e) \<or> (\<exists>a. settles_to f (Inr a) \<and> settles_to (k a) r)"
proof -
  have "(\<exists>e. settles_to f (Inl e) \<and> r = Inl e) \<or> (\<exists>a. settles_to f (Inr a) \<and> settles_to (k a) r)"
    if "resolves_within n (and_then f k) r" for n
    using that
  proof (induction n arbitrary: f)
    case 0
    then show ?case
      by (cases f; cases "case f of Resolved q \<Rightarrow> q")
        (auto simp: settles_to_def intro: exI[of _ 0])
  next
    case (Suc n)
    show ?case
    proof (cases f)
      case (Pending g)
      with Suc show ?thesis by simp
    next
      case (Resolved q)
      show ?thesis
      proof (cases q)
        case (Inr b)
        with Resolved Suc.prems have "resolves_within (Suc n) (k b) r" by simp
        with Resolved Inr show ?thesis unfolding settles_to_def by (metis resolves_within_Resolved)
      qed (use Resolved Suc.prems in simp)
    qed
  qed
  with assms show ?thesis unfolding settles_to_def by blast
qed

lemma exchange_outcome:
  assumes "settles_to (exchange h chans ps k) r"
  shows "r \<in> {Inl (TokioCoreError ''Not listening for requests''), Inl (TokioCoreError ''Died without returning response'')}
    \<or> settles_to (snd (snth chans k)) (Inr r)"
proof (cases "request_tx h (create_request h (into_bytes (ps ! k)), fst (snth chans k))")
  case (Inl u)
  with assms show ?thesis by (simp add: exchange_def sink_item_def send_fut_def Let_def)
next
  case (Inr u)
  with assms have "settles_to (and_then (map_err (\<lambda>_. TokioCoreError ''Died without returning response'')
      (snd (snth chans k))) Resolved) r"
    by (simp add: exchange_def sink_item_def send_fut_def Let_def)
  then show ?thesis
    by (auto dest!: settles_to_and_then settles_to_map_err simp: map_sum_def split: sum.splits)
qed

text \<open>
  The one-shot channels between the handle and the event loop, as \<open>futures\<close> documents them: each is its own,
  and delivers only what was sent on it. The request channel delivers in order.
\<close>

definition answers_delivered :: "http_oneshot stream \<Rightarrow> (completion \<times> (http_error + bytes)) list \<Rightarrow> bool" where
  "answers_delivered chans sent \<longleftrightarrow> inj (\<lambda>k. fst (snth chans k))
     \<and> (\<forall>k r. settles_to (snd (snth chans k)) (Inr r) \<longrightarrow> (fst (snth chans k), r) \<in> set sent)"

lemma list_all2_snd_mem:
  "list_all2 P xs ys \<Longrightarrow> y \<in> set ys \<Longrightarrow> \<exists>x \<in> set xs. P x y"
  by (induction rule: list_all2_induct) auto

text \<open>C12: The body that answers a payload is the server's answer to that payload. When the processing future
  runs on the other end of the request channel, every exchange of a client's run has ended with the
  outcome of sending the POST request for that very payload through Hyper under the time limit (its body,
  a bad status, a timeout or an error of Hyper), or with the error that the event loop was gone.\<close>

theorem http_answer_matches_payload:
  assumes "client_run sd (http_ops show_error) S
      (new_with_server rx1 rx2 rtx (http_io_pair h chans slots flush close) s) r c"
    and "Inl () \<notin> sset slots"
    and "process_run client timer timeout (create_request_processing_future rx) q p" and "q \<noteq> Panic"
    and "delivers_in_order rx (io_posted (transport c))" and "answers_delivered chans (replies p)"
    and "k < length (io_settled (transport c))"
  shows "io_settled (transport c) ! k \<in>
      {Inl (TokioCoreError ''Not listening for requests''), Inl (TokioCoreError ''Died without returning response'')}
    \<or> item_answer client timer timeout (create_request h (into_bytes (io_taken (transport c) ! k)))
         (io_settled (transport c) ! k)"
proof -
  let ?t = "transport c" and ?r = "io_settled (transport c) ! k"
  note ex = http_run_exchanges[OF assms(1,2)]
  from ex assms(7) have settled: "settles_to (exchange h chans (io_taken ?t) k) ?r"
    and posted: "io_posted ?t = requests_for h chans (io_taken ?t)"
    by (simp_all add: exchanges_ok_def)
  have "item_answer client timer timeout (create_request h (into_bytes (io_taken ?t ! k))) ?r"
    if delivered: "settles_to (snd (snth chans k)) (Inr ?r)"
  proof -
    from assms(6) delivered have "(fst (snth chans k), ?r) \<in> set (replies p)" by (simp add: answers_delivered_def)
    moreover from processed_in_order[OF assms(3,4)] obtain l where
      "serves client timer timeout (items_of (stake l rx)) p" by blast
    then obtain served where served: "set served \<subseteq> set (items_of (stake l rx))"
      "list_all2 (\<lambda>(request, tx) (tx', r). tx' = tx \<and> item_answer client timer timeout request r) served (replies p)"
      unfolding serves_def by fastforce
    ultimately obtain req where req: "(req, fst (snth chans k)) \<in> set (items_of (stake l rx))"
      "item_answer client timer timeout req ?r"
      by (auto dest!: list_all2_snd_mem[OF served(2)])
    from assms(5) obtain m where "items_of (stake l rx) = take m (io_posted ?t)"
      using delivers_in_orderD by blast
    with req(1) have "(req, fst (snth chans k)) \<in> set (io_posted ?t)" by (metis in_set_takeD)
    with posted obtain j where "req = create_request h (into_bytes (io_taken ?t ! j))"
      "fst (snth chans k) = fst (snth chans j)" by (auto simp: requests_for_def)
    moreover from this(2) assms(6) have "j = k" by (auto simp: answers_delivered_def dest: injD)
    ultimately show ?thesis using req(2) by simp
  qed
  with exchange_outcome[OF settled] show ?thesis by blast
qed

text \<open>The event loop of the example: the server answers every request with \<open>true\<close>.\<close>

definition true_http :: "http_request \<Rightarrow> (http_response, string) fut" where
  "true_http req = Pending (Resolved (Inr \<lparr>status = 200, body = Resolved (Inr (into_bytes ''true''))\<rparr>))"

definition demo_queue :: "(http_request \<times> completion) receiver" where
  "demo_queue = Inr (Ready (Some (create_request demo_http_handle (into_bytes ''add''), 1))) ## sconst (Inr NotReady)"

lemma demo_answered:
  "\<exists>p. process_run true_http no_timer None (create_request_processing_future demo_queue) (Ret NotReady) p
     \<and> replies p = [(1, Inr (into_bytes ''true''))]"
proof -
  have "\<exists>p1 p2. process_poll true_http no_timer None (create_request_processing_future demo_queue) = Some (Ret NotReady, p1)
      \<and> process_poll true_http no_timer None p1 = Some (Ret NotReady, p2)
      \<and> replies p2 = [(1, Inr (into_bytes ''true''))]"
    unfolding process_poll_def create_request_processing_future_def
    by ((subst rust_loop.simps, simp add: process_turn_def demo_queue_def receiver_poll_def process_item_def
        time_limited_new_def true_http_def Let_def)+)
  then show ?thesis using process_run.intros by metis
qed

lemma demo_channels:
  "delivers_in_order demo_queue (io_posted (transport http_demo2))"
  "answers_delivered demo_oneshots [(1, Inr (into_bytes ''true''))]"
proof -
  show "delivers_in_order demo_queue (io_posted (transport http_demo2))"
    by (simp add: demo_queue_def http_demo2_def http_demo1_def delivers_one)
  have name: "fst (snth demo_oneshots k) = Suc k" for k
    by (cases k) (simp_all add: demo_oneshots_def idle_oneshots_def)
  have quiet: "\<not> settles_to (never :: (http_error + bytes, unit) fut) r" for r
    by (simp add: settles_to_def)
  have "r = Inr (into_bytes ''true'') \<and> k = 0" if "settles_to (snd (snth demo_oneshots k)) (Inr r)" for k r
    using that quiet by (cases k) (auto simp: demo_oneshots_def idle_oneshots_def)
  with name show "answers_delivered demo_oneshots [(1, Inr (into_bytes ''true''))]"
    by (fastforce simp: answers_delivered_def inj_def)
qed

theorem http_answer_matches_payload_witness:
  "item_answer true_http no_timer None (create_request demo_http_handle (into_bytes ''add'')) (Inr (into_bytes ''true''))"
proof -
  have slots: "Inl () \<notin> sset (sconst (Inr True) :: (unit + bool) stream)" by simp
  have t: "io_taken (transport http_demo2) = [''add'']" "io_settled (transport http_demo2) = [Inr (into_bytes ''true'')]"
    by (simp_all add: http_demo2_def http_demo1_def http_demo_def demo_defs)
  from demo_answered obtain p where p: "process_run true_http no_timer None
      (create_request_processing_future demo_queue) (Ret NotReady) p" "replies p = [(1, Inr (into_bytes ''true''))]"
    by blast
  from http_answer_matches_payload[OF http_demo_run(2)[unfolded http_demo_def demo_io_def] slots p(1) _
      demo_channels(1), of 0] demo_channels(2) p(2)
  show ?thesis by (simp add: t)
qed

section \<open>What stops a client over HTTP\<close>

text \<open>One failed exchange stops the whole client: when the exchange in progress ends with an error (a
  request that timed out, a status other than 200, a body that cannot be read), the poll that finds
  out begins the shutdown with \<open>TransportError\<close>, which becomes the client's result as soon as the transport
  is closed; every call that waits stays unanswered, its own exchange being the failed one or not.\<close>

lemma http_failure_stops_client:
  assumes "\<not> should_shut_down c" and "pending_payload c = None"
    and "sh_poll S (server_handler c) = Some (Ret NotReady, s)"
    and "select_poll receiver_poll receiver_poll (outgoing_payload_rx c) = (Inr NotReady, q)"
    and "io_queue (transport c) = []" and "io_state (transport c) = With_process f" and "fst (poll_fut f) = Inl e"
  shows "\<exists>r c'. client_poll sd (http_ops show_error) S c = Some (r, c')
    \<and> (r = Raise TransportError \<or> r = Ret NotReady \<and> fatal_error c' = Some TransportError)
    \<and> io_settled (transport c') = io_settled (transport c) @ [Inl e]
    \<and> pending_client_requests c' = pending_client_requests c \<and> completions c' = completions c"
proof -
  let ?T = "http_ops show_error" and ?t = "transport c"
  let ?c1 = "c\<lparr>server_handler := s, shutting_down := False\<rparr>"
  let ?t' = "?t\<lparr>io_state := With_empty, io_settled := io_settled ?t @ [Inl e]\<rparr>"
  let ?c3 = "?c1\<lparr>outgoing_payload_rx := q, transport := ?t', fatal_error := Some TransportError\<rparr>"
  from assms(1) have ok: "fatal_error c = None" "\<not> shutting_down c" by (simp_all add: should_shut_down_def)
  have idle: "http_rx_poll show_error t = (Inr NotReady, t)" if "io_queue t = []" for t
    using that by (simp add: http_rx_poll_def queue_answer_def stream_poll_def)
  have "poll_transport_rx sd ?T S ?c1 = Some (Ret (), ?c1)"
    unfolding poll_transport_rx_def by (rule rust_loop_Return) (simp add: transport_rx_turn_def idle assms(5))
  moreover have "poll_outgoing_messages sd ?T ?c1 = Some (Ret (), ?c1\<lparr>outgoing_payload_rx := q\<rparr>)"
    unfolding poll_outgoing_messages_def by (rule rust_loop_Return) (simp add: outgoing_turn_def assms(2,4))
  moreover have "tx_poll_complete ?T ?t = (Inl (show_error e), ?t')"
    using assms(6,7) by (cases "poll_fut f") (simp add: http_poll_complete_def with_poll_def with_drive_def)
  ultimately have "handle_messages sd ?T S c = Some (Raise TransportError,
      ?c1\<lparr>outgoing_payload_rx := q, transport := ?t'\<rparr>)"
    using ok assms(2,3) by (simp add: handle_messages_def resend_pending_def poll_server_def poll_transport_tx_def)
  then have "client_poll sd ?T S c = handle_shutdown sd ?T S ?c3"
    using assms(1) by (simp add: client_poll_def)
  moreover have "poll_transport_rx sd ?T S ?c3 = Some (Ret (), ?c3)"
    unfolding poll_transport_rx_def by (rule rust_loop_Return) (simp add: transport_rx_turn_def idle assms(5))
  moreover obtain a where "tx_close ?T ?t' = (a, ?t'\<lparr>io_close := stl (io_close ?t)\<rparr>)"
    by (cases "shd (io_close ?t)") (auto simp: http_close_def with_poll_def with_drive_def with_pass_def)
  ultimately show ?thesis
    by (cases a) (auto simp: handle_shutdown_def split: async.split)
qed

text \<open>Here the request times out while the call waits.\<close>

definition timed_out :: "(http_io, server) client" where
  "timed_out = http_demo1\<lparr>transport := (transport http_demo1)\<lparr>io_state := With_process (Resolved (Inl RequestTimeout))\<rparr>\<rparr>"

lemma http_failure_stops_client_example:
  "\<exists>r c'. client_poll demo_serde (http_ops error_text) server_handler_ops timed_out = Some (r, c')
    \<and> (r = Raise TransportError \<or> r = Ret NotReady \<and> fatal_error c' = Some TransportError)
    \<and> pending_client_requests c' = [Id_Num 1 \<mapsto> 7] \<and> completions c' = []"
  using http_failure_stops_client[of timed_out server_handler_ops idle_server
      "\<lparr>strong = sconst (Inr NotReady), weak = sconst (Inr NotReady), use_strong = True, weak_done = False\<rparr>"
      "Resolved (Inl RequestTimeout)" RequestTimeout demo_serde error_text]
  by (simp add: timed_out_def http_demo1_def http_demo_def demo_defs http_io_pair_def demo_io_def
      should_shut_down_def server_handler_ops_def select_poll_eq receiver_poll_def) blast

text \<open>C29: A response without a body stops the whole client. The sink hands every body to the stream, also the one that answers
  a notification, for which JSON-RPC has no response: if it is empty, it is no JSON-RPC message, and the
  client, with any number of calls waiting, can only end with \<open>DeserializeError\<close>.\<close>

theorem empty_body_stops_client:
  assumes "\<not> should_shut_down c" and "pending_payload c = None" and "queue_ok (outgoing_payload_rx c)"
    and "server_poll (server_handler c) = Some (Ret NotReady, s)"
    and "io_queue (transport c) = [] # bodies"
    and "from_str_output sd [] = None" and "from_str_request sd [] = None"
  shows "\<exists>r c'. client_poll sd (http_ops show_error) server_handler_ops c = Some (r, c')
    \<and> (r = Raise DeserializeError \<or> r = Ret NotReady \<and> fatal_error c' = Some DeserializeError)"
proof -
  let ?T = "http_ops show_error" and ?t = "transport c" and ?S = server_handler_ops
  let ?t' = "?t\<lparr>io_queue := bodies, io_read := io_read ?t @ [[]]\<rparr>"
  let ?c1 = "c\<lparr>server_handler := s, shutting_down := False\<rparr>"
  let ?c2 = "?c1\<lparr>transport := ?t', fatal_error := Some DeserializeError\<rparr>"
  from assms(1) have ok: "fatal_error c = None" "\<not> shutting_down c" by (simp_all add: should_shut_down_def)
  have "poll_transport_rx sd ?T ?S ?c1 = Some (Raise DeserializeError, ?c1\<lparr>transport := ?t'\<rparr>)"
    unfolding poll_transport_rx_def
    by (rule rust_loop_Return)
      (simp add: transport_rx_turn_def http_rx_poll_def assms(5-7) queue_answer_def stream_poll_def from_utf8_def
        of_bytes_def handle_transport_rx_payload_def parse_incoming_def)
  then have "handle_messages sd ?T ?S c = Some (Raise DeserializeError, ?c1\<lparr>transport := ?t'\<rparr>)"
    using ok assms(2,4) by (simp add: handle_messages_def resend_pending_def poll_server_def server_handler_ops_def)
  then have poll: "client_poll sd ?T ?S c = handle_shutdown sd ?T ?S ?c2"
    using assms(1) by (simp add: client_poll_def)
  have "http_client.stopping ?c2" using assms(3) by (simp add: http_client.stopping_def)
  from http_client.handle_shutdown_returns[OF this] obtain r c' where
    "handle_shutdown sd ?T ?S ?c2 = Some (r, c')" "r \<noteq> Panic" by (rule succeedsE) blast
  with handle_shutdown_intake[OF this(1)] poll show ?thesis
    by (cases r rule: answer_cases) auto
qed

theorem empty_body_stops_client_witness:
  "\<exists>r c'. client_poll demo_serde (http_ops error_text) server_handler_ops
      (http_demo2\<lparr>transport := (transport http_demo2)\<lparr>io_queue := [[]]\<rparr>\<rparr>) = Some (r, c')
    \<and> (r = Raise DeserializeError \<or> r = Ret NotReady \<and> fatal_error c' = Some DeserializeError)"
  by (rule empty_body_stops_client[of _ idle_server "[]"])
    (simp_all add: http_demo2_def http_demo1_def http_demo_def demo_defs should_shut_down_def queue_ok_def is_item_def)

end
