(* ===== verification/Http_Call.thy ===== *)
theory Http_Call
  imports Http_Client Call_Life
begin

text \<open>
  A call over HTTP from end to end: its payload, the POST request, the body of the answer, the response with
  its id, the future the user holds. What the halves of the client show separately is put together by an
  invariant of the runs (\<open>http_causal\<close>): what has come in by the time of an event answers payloads that were
  sent before it.
\<close>

section \<open>Responses in the exchanges\<close>

definition body_reply :: "serde \<Rightarrow> bytes \<Rightarrow> rpc_output option" where
  "body_reply sd bs = (case from_utf8 bs of None \<Rightarrow> None | Some s \<Rightarrow> response_of sd s)"

definition reply_in :: "serde \<Rightarrow> http_error + bytes \<Rightarrow> rpc_output option" where
  "reply_in sd r = (case r of Inl _ \<Rightarrow> None | Inr bs \<Rightarrow> body_reply sd bs)"

abbreviation replies_in :: "serde \<Rightarrow> (http_error + bytes) list \<Rightarrow> rpc_output list" where
  "replies_in sd rs \<equiv> List.map_filter (reply_in sd) rs"

lemma reply_in_simps [simp]: "reply_in sd (Inl e) = None" "reply_in sd (Inr bs) = body_reply sd bs"
  by (simp_all add: reply_in_def)

declare map_filter_append [simp]

lemma set_map_filter: "y \<in> set (List.map_filter f xs) \<longleftrightarrow> (\<exists>x \<in> set xs. f x = Some y)"
  by (force simp: List.map_filter_def)

lemma successes_append: "successes (rs @ rs') = successes rs @ successes rs'"
  by (simp add: successes_def)

lemma replies_successes: "replies_in sd rs = List.map_filter (body_reply sd) (successes rs)"
proof (induction rs)
  case (Cons r rs)
  have "successes (r # rs) = successes [r] @ successes rs" by (simp add: successes_def)
  with Cons show ?case
    by (cases r) (simp_all add: List.map_filter_simps successes_def split: option.split)
qed (simp add: List.map_filter_simps)

lemma responses_read:
  "List.map_filter (response_of sd) (List.map_filter from_utf8 bs) = List.map_filter (body_reply sd) bs"
  by (induction bs) (auto simp: List.map_filter_simps body_reply_def split: option.splits)

section \<open>Nothing comes in before it was asked for\<close>

abbreviation payloads :: "serde \<Rightarrow> session_event list \<Rightarrow> string list" where
  "payloads sd evs \<equiv> ses_wire (session_of sd evs)"

text \<open>
  The number of payloads behind the client: taken by the transport or waiting for it. At every event, the
  responses obtained so far come from the exchanges of the payloads sent so far.
\<close>

definition behind :: "(http_io, 's) client \<Rightarrow> nat" where
  "behind c = length (io_taken (transport c)) + (if pending_payload c = None then 0 else 1)"

definition http_causal :: "serde \<Rightarrow> (http_io, 's) client \<Rightarrow> bool" where
  "http_causal sd c \<longleftrightarrow>
     ses_ids (session_of sd (history c)) = id_generator c
     \<and> behind c \<le> length (payloads sd (history c))
     \<and> (\<forall>evs evs'. history c = evs @ evs' \<longrightarrow>
          prefix (got_outputs evs) (replies_in sd (take (length (payloads sd evs)) (io_settled (transport c)))))"

lemma prefix_replies:
  assumes "prefix rs rs'" "n \<le> n'"
  shows "prefix (replies_in sd (take n rs)) (replies_in sd (take n' rs'))"
proof -
  have "prefix (take n rs) (take n' rs')"
  proof (rule prefix_length_prefix[of _ rs'])
    show "prefix (take n rs) rs'" using take_is_prefix assms(1) prefix_order.order_trans by blast
    show "length (take n rs) \<le> length (take n' rs')"
      using assms(2) prefix_length_le[OF assms(1)] by (auto simp: min_def)
  qed (rule take_is_prefix)
  then show ?thesis by (auto simp: prefix_def)
qed

lemma http_causal_step:
  assumes "http_causal sd c" and "history c' = history c" and "id_generator c' = id_generator c"
    and "prefix (io_settled (transport c)) (io_settled (transport c'))" and "behind c' \<le> behind c"
  shows "http_causal sd c'"
proof -
  from assms(1) have c: "ses_ids (session_of sd (history c)) = id_generator c"
    "behind c \<le> length (payloads sd (history c))"
    "prefix (got_outputs evs) (replies_in sd (take (length (payloads sd evs)) (io_settled (transport c))))"
    if "history c = evs @ evs'" for evs evs'
    using that unfolding http_causal_def by blast+
  from c(3) have "prefix (got_outputs evs) (replies_in sd (take (length (payloads sd evs)) (io_settled (transport c'))))"
    if "history c = evs @ evs'" for evs evs'
    using that prefix_replies[OF assms(4) order_refl] prefix_order.order_trans by blast
  with c(1,2)[of "history c" "[]"] assms(2,3,5) show ?thesis unfolding http_causal_def by simp
qed

text \<open>What the transport's operations do to the outcomes: they only add to them.\<close>

lemma with_poll_settled: "with_poll t = (r, t') \<Longrightarrow> prefix (io_settled t) (io_settled t')"
proof -
  assume w: "with_poll t = (r, t')"
  obtain q t1 where d: "with_drive t = (q, t1)" by fastforce
  have "prefix (io_settled t) (io_settled t1)"
    using d by (auto simp: with_drive_def split: with_state.splits prod.splits sum.splits async.splits)
  with w d with_pass_frame[of t1 r t'] show ?thesis by (auto simp: with_poll_def split: sum.splits async.splits)
qed

lemma http_settled:
  "prefix (io_settled t) (io_settled (snd (http_start_send sh p t)))"
  "prefix (io_settled t) (io_settled (snd (http_poll_complete sh t)))"
  "prefix (io_settled t) (io_settled (snd (http_close sh t)))"
  "io_settled (snd (http_rx_poll sh t)) = io_settled t"
  by (auto simp: http_start_send_def http_poll_complete_def http_close_def http_rx_poll_def Let_def
      dest!: with_poll_settled split: prod.splits sum.splits async.splits)

lemma send_payload_causal:
  assumes "send_payload (http_ops sh) p c = (r, c')" "pending_payload c = None"
  shows "prefix (io_settled (transport c)) (io_settled (transport c')) \<and> behind c' \<le> Suc (behind c)
    \<and> history c' = history c \<and> id_generator c' = id_generator c"
proof -
  obtain a t where a: "http_start_send sh p (transport c) = (a, t)" by fastforce
  with http_settled(1)[of "transport c" sh p] http_start_send_taken[OF a] assms show ?thesis
    by (auto simp: send_payload_def behind_def split: if_splits sum.splits async_sink.splits)
qed

lemma http_causal_event:
  assumes "http_causal sd c" and "history c' = history c @ [ev]"
    and "ses_ids (session_of sd (history c')) = id_generator c'"
    and "behind c' \<le> length (payloads sd (history c'))"
    and "prefix (io_settled (transport c)) (io_settled (transport c'))"
    and "prefix (got_outputs (history c'))
      (replies_in sd (take (length (payloads sd (history c'))) (io_settled (transport c'))))"
  shows "http_causal sd c'"
proof -
  have "prefix (got_outputs evs) (replies_in sd (take (length (payloads sd evs)) (io_settled (transport c'))))"
    if "history c' = evs @ evs'" for evs evs'
  proof (cases evs' rule: rev_cases)
    case Nil
    with that assms(6) show ?thesis by simp
  next
    case (snoc evs'' ev')
    with that assms(2) have "history c = evs @ evs''" by simp
    with assms(1) have "prefix (got_outputs evs) (replies_in sd (take (length (payloads sd evs)) (io_settled (transport c))))"
      unfolding http_causal_def by blast
    with prefix_replies[OF assms(5) order_refl] show ?thesis using prefix_order.order_trans by blast
  qed
  with assms(3,4) show ?thesis unfolding http_causal_def by blast
qed

lemma handle_client_payload_causal:
  assumes "http_causal sd c" "pending_payload c = None" "handle_client_payload sd (http_ops sh) m c = (r, c')"
  shows "http_causal sd c'"
proof -
  from assms(1) have c: "ses_ids (session_of sd (history c)) = id_generator c" "behind c \<le> length (payloads sd (history c))"
    "prefix (got_outputs (history c)) (replies_in sd (take (length (payloads sd (history c))) (io_settled (transport c))))"
    by (simp_all add: http_causal_def)
  have hist: "history c' = history c @ [Sent m]" using handle_client_payload_frame[OF assms(3)] by simp
  have new: "ses_ids (session_of sd (history c')) = id_generator c'
      \<and> (\<exists>zs. payloads sd (history c') = payloads sd (history c) @ zs \<and> behind c' \<le> behind c + length zs)
      \<and> prefix (io_settled (transport c)) (io_settled (transport c'))"
    using assms(2,3) c(1) unfolding hist session_of_snoc
    by (cases m)
      (auto simp: Let_def ses_send_def ses_complete_def record_event_def complete_def add_new_call_def id_next_def
        behind_def dest!: send_payload_causal split: sum.splits option.splits)
  then obtain zs where zs: "payloads sd (history c') = payloads sd (history c) @ zs" "behind c' \<le> behind c + length zs"
    by blast
  show ?thesis
  proof (rule http_causal_event[OF assms(1) hist])
    have "prefix (got_outputs (history c)) (replies_in sd (take (length (payloads sd (history c'))) (io_settled (transport c'))))"
      by (rule prefix_order.order_trans[OF c(3)], rule prefix_replies) (use new zs(1) in simp_all)
    then show "prefix (got_outputs (history c')) (replies_in sd (take (length (payloads sd (history c'))) (io_settled (transport c'))))"
      by (simp add: hist)
  qed (use new zs c(2) in simp_all)
qed

lemma outgoing_turn_causal:
  assumes "http_causal sd c" "outgoing_turn sd (http_ops sh) c = (f, c')"
  shows "http_causal sd c'"
  using assms(2)
proof (rule outgoing_turnE)
  fix m q r
  assume "pending_payload c = None" "handle_client_payload sd (http_ops sh) m (c\<lparr>outgoing_payload_rx := q\<rparr>) = (r, c')"
  moreover have "http_causal sd (c\<lparr>outgoing_payload_rx := q\<rparr>)"
    by (rule http_causal_step[OF assms(1)]) (simp_all add: behind_def)
  ultimately show ?thesis using handle_client_payload_causal by fastforce
qed (use assms(1) in \<open>auto intro!: http_causal_step[OF assms(1)] simp: behind_def\<close>)

lemma resend_pending_causal:
  assumes "http_causal sd c" "resend_pending (http_ops sh) c = (r, c')"
  shows "http_causal sd c'"
proof (cases "pending_payload c")
  case (Some p)
  with assms(2) have "send_payload (http_ops sh) p (c\<lparr>pending_payload := None\<rparr>) = (r, c')"
    by (simp add: resend_pending_def)
  from send_payload_causal[OF this] Some show ?thesis
    by (intro http_causal_step[OF assms(1)]) (simp_all add: behind_def)
qed (use assms in \<open>simp add: resend_pending_def\<close>)

lemma poll_transport_tx_causal:
  assumes "http_causal sd c" "poll_transport_tx (http_ops sh) c = (r, c')"
  shows "http_causal sd c'"
proof -
  obtain a t where a: "http_poll_complete sh (transport c) = (a, t)" by fastforce
  with http_settled(2)[of "transport c" sh] http_taken_kept(1)[of sh "transport c"] assms(2) show ?thesis
    by (intro http_causal_step[OF assms(1)])
      (auto simp: poll_transport_tx_def behind_def split: if_splits sum.splits)
qed

lemma transport_rx_turn_causal:
  assumes "http_causal sd c" "transport_rx_turn sd (http_ops sh) S c = (f, c')"
    and "exchanges_ok h chans (transport c')" "intake sd S http_heard t0 s0 c'" "io_read t0 = []"
  shows "http_causal sd c'"
  using assms(2)
proof (rule transport_rx_turnE)
  fix p t r
  assume rx: "rx_poll (http_ops sh) (transport c) = (Inr (Ready (Some p)), t)"
    and h: "handle_transport_rx_payload sd S p (c\<lparr>transport := t\<rparr>) = (r, c')"
  from rx http_settled(4)[of sh "transport c"] http_taken_kept(3)[of sh "transport c"]
  have t: "io_settled t = io_settled (transport c)" "io_taken t = io_taken (transport c)" by simp_all
  from handle_transport_rx_payload_frame[OF h] t have same: "behind c' = behind c"
    "io_settled (transport c') = io_settled (transport c)" by (simp_all add: behind_def)
  show ?thesis
  proof (cases "\<exists>out. parse_incoming sd p = Some (Incoming_Response out)")
    case False
    with h have "history c' = history c" "id_generator c' = id_generator c"
      by (auto simp: handle_transport_rx_payload_def split: option.splits incoming_message.splits prod.splits)
    with same show ?thesis by (intro http_causal_step[OF assms(1)]) simp_all
  next
    case True
    then obtain out where out: "handle_response out (c\<lparr>transport := t\<rparr>) = (r, c')"
      using h by (auto simp: handle_transport_rx_payload_def)
    from handle_response_history[OF out] have hist: "history c' = history c @ [Got out]" by simp
    have ids: "id_generator c' = id_generator c"
      using out by (auto simp: handle_response_def Let_def record_event_def complete_def split: if_splits option.splits)
    have ses: "ses_ids (session_of sd (history c')) = ses_ids (session_of sd (history c))"
      "payloads sd (history c') = payloads sd (history c)"
      unfolding hist session_of_snoc by (simp_all add: ses_complete_def split: option.split)
    from assms(1) have c: "ses_ids (session_of sd (history c)) = id_generator c" "behind c \<le> length (payloads sd (history c))"
      by (simp_all add: http_causal_def)
    have settled: "take (length (payloads sd (history c'))) (io_settled (transport c')) = io_settled (transport c')"
      using assms(3) c(2) same ses(2) by (simp add: exchanges_ok_def behind_def)
    from assms(4,5) have "got_outputs (history c') = List.map_filter (body_reply sd) (io_read (transport c'))"
      by (auto simp: intake_def http_heard_def responses_read)
    moreover have "successes (io_settled (transport c')) = io_read (transport c') @ io_queue (transport c') @ in_hand (transport c')"
      using assms(3) by (simp add: exchanges_ok_def)
    ultimately have "prefix (got_outputs (history c')) (replies_in sd (io_settled (transport c')))"
      by (simp add: replies_successes)
    with settled ses c ids same show ?thesis
      by (intro http_causal_event[OF assms(1) hist]) simp_all
  qed
next
  fix a t assume "rx_poll (http_ops sh) (transport c) = (a, t)" "c' = c\<lparr>transport := t\<rparr>"
  moreover from this http_settled(4)[of sh "transport c"] http_taken_kept(3)[of sh "transport c"]
  have "io_settled t = io_settled (transport c)" "io_taken t = io_taken (transport c)"
    by (metis http_ops_simps(4) snd_conv)+
  ultimately show ?thesis by (intro http_causal_step[OF assms(1)]) (simp_all add: behind_def)
qed

text \<open>The invariants of a run over HTTP, together.\<close>

definition http_run_ok ::
  "serde \<Rightarrow> 's server_ops \<Rightarrow> http_handle \<Rightarrow> http_oneshot stream \<Rightarrow> 's \<Rightarrow> (http_io, 's) client \<Rightarrow> bool" where
  "http_run_ok sd S h chans s0 c \<longleftrightarrow> exchanges_ok h chans (transport c) \<and> http_causal sd c
     \<and> (\<exists>t0. io_read t0 = [] \<and> intake sd S http_heard t0 s0 c)"

interpretation http_runs: client_invariant sd "http_ops show_error" S "http_run_ok sd S h chans s0"
  for sd show_error S h chans s0
proof unfold_locales
  fix c b e and show_error :: "http_error \<Rightarrow> string" assume c: "http_run_ok sd S h chans s0 c"
  then obtain t0 where t0: "io_read t0 = []" "intake sd S http_heard t0 s0 c" and
    ex: "exchanges_ok h chans (transport c)" and ca: "http_causal sd c" unfolding http_run_ok_def by blast
  note keeps = http_source.intake.shutting_down_keeps[OF t0(2)] http_source.intake.fatal_error_keeps[OF t0(2)]
    http_source.intake.close_keeps[OF t0(2)] http_exchanges.close_inv[OF ex]
  show "http_run_ok sd S h chans s0 (c\<lparr>shutting_down := b\<rparr>)" "http_run_ok sd S h chans s0 (c\<lparr>fatal_error := e\<rparr>)"
    using keeps t0(1) ex unfolding http_run_ok_def
    by (auto intro!: http_causal_step[OF ca] simp: behind_def)
  have "http_causal sd (c\<lparr>transport := snd (tx_close (http_ops show_error) (transport c))\<rparr>)"
    using http_settled(3)[of "transport c"] by (intro http_causal_step[OF ca]) (simp_all add: behind_def)
  with keeps t0(1) show "http_run_ok sd S h chans s0 (c\<lparr>transport := snd (tx_close (http_ops show_error) (transport c))\<rparr>)"
    unfolding http_run_ok_def by auto
next
  fix c c' f r and show_error :: "http_error \<Rightarrow> string" assume c: "http_run_ok sd S h chans s0 c"
  then obtain t0 where t0: "io_read t0 = []" "intake sd S http_heard t0 s0 c" and
    ex: "exchanges_ok h chans (transport c)" and ca: "http_causal sd c" unfolding http_run_ok_def by blast
  show "http_run_ok sd S h chans s0 c'" if "outgoing_turn sd (http_ops show_error) c = (f, c')"
    unfolding http_run_ok_def
    using http_exchanges.outgoing_turn_kept[OF ex that] http_source.outgoing_turn_intake[OF t0(2) that]
      outgoing_turn_causal[OF ca that] t0(1) by blast
  show "http_run_ok sd S h chans s0 c'" if "transport_rx_turn sd (http_ops show_error) S c = (f, c')"
    unfolding http_run_ok_def
    using http_exchanges.transport_rx_turn_kept[OF ex that] http_source.transport_rx_turn_intake[OF t0(2) that]
      transport_rx_turn_causal[OF ca that] t0(1) by blast
  show "http_run_ok sd S h chans s0 c'" if "resend_pending (http_ops show_error) c = (r, c')"
    unfolding http_run_ok_def
    using http_exchanges.resend_pending_kept[OF ex that] http_source.resend_pending_intake[OF t0(2) that]
      resend_pending_causal[OF ca that] t0(1) by blast
  show "http_run_ok sd S h chans s0 c'" if "poll_transport_tx (http_ops show_error) c = (r, c')"
    unfolding http_run_ok_def
    using http_exchanges.poll_transport_tx_kept[OF ex that] http_source.poll_transport_tx_intake[OF t0(2) that]
      poll_transport_tx_causal[OF ca that] t0(1) by blast
  show "http_run_ok sd S h chans s0 c'" if p: "poll_server S c = Some (r, c')"
  proof -
    have "id_generator c' = id_generator c"
      using p by (auto simp: poll_server_def split: if_splits option.splits prod.splits outcome.splits async.splits)
    with poll_server_frame[OF p] have "http_causal sd c'"
      by (intro http_causal_step[OF ca]) (simp_all add: behind_def)
    with http_source.poll_server_intake[OF t0(2) p] poll_server_frame[OF p] ex t0(1) show ?thesis
      unfolding http_run_ok_def by auto
  qed
qed

lemma http_run_of_new:
  assumes "client_run sd (http_ops show_error) S
      (new_with_server rx1 rx2 rtx (http_io_pair h chans slots flush close) s) r c"
    and "Inl () \<notin> sset slots"
  shows "http_run_ok sd S h chans s c"
proof (rule http_runs.client_run_inv[OF assms(1)])
  let ?t = "http_io_pair h chans slots flush close"
  let ?c = "new_with_server rx1 rx2 rtx ?t s"
  have "intake sd S http_heard ?t s ?c"
    by (rule http_source.client_run_intake[OF client_run.run_start])
  moreover have "http_causal sd ?c"
    by (simp add: http_causal_def new_with_server_def session_of_def session_new_def behind_def http_io_pair_def)
  ultimately show "http_run_ok sd S h chans s ?c"
    using assms(2) unfolding http_run_ok_def
    by (auto simp: new_with_server_def intro!: exI[of _ ?t]) (simp_all add: http_io_pair_def)
qed

section \<open>A call and the answer to its own request\<close>

lemma first_answer_unique:
  "Got out \<in> set evs \<Longrightarrow> jsonrpc out = Some V2 \<Longrightarrow> \<forall>out'. Got out' \<in> set evs \<longrightarrow> output_id out' = output_id out \<longrightarrow> out' = out
     \<Longrightarrow> first_answer (output_id out) evs = Some out"
proof (induction evs)
  case (Cons ev evs)
  show ?case
  proof (cases "ev = Got out")
    case False
    with Cons have "first_answer (output_id out) evs = Some out" by simp
    with False Cons.prems(3) show ?thesis by (cases ev) auto
  qed (use Cons.prems(2) in simp)
qed simp

text \<open>The \<open>k\<close>th exchange has answered with \<open>out\<close>, and no other exchange with its id; the client has read the body.\<close>

definition answered_in :: "serde \<Rightarrow> http_io \<Rightarrow> nat \<Rightarrow> rpc_output \<Rightarrow> bool" where
  "answered_in sd t k out \<longleftrightarrow> k < length (io_settled t) \<and> reply_in sd (io_settled t ! k) = Some out
     \<and> (\<forall>j<length (io_settled t). \<forall>out'. reply_in sd (io_settled t ! j) = Some out' \<longrightarrow> output_id out' = output_id out \<longrightarrow> j = k)
     \<and> length (successes (take (Suc k) (io_settled t))) \<le> length (io_read t)"

lemma answered_first:
  assumes "http_run_ok sd S h chans s c" and "history c = evs @ Sent m # evs'"
    and "answered_in sd (transport c) (length (payloads sd evs)) out" and "jsonrpc out = Some V2"
  shows "first_answer (output_id out) evs' = Some out"
proof -
  let ?t = "transport c" and ?k = "length (payloads sd evs)"
  let ?settled = "io_settled ?t"
  from assms(1) obtain t0 where ok: "exchanges_ok h chans ?t" "http_causal sd c" "io_read t0 = []"
    "intake sd S http_heard t0 s c" unfolding http_run_ok_def by blast
  from assms(3) have k: "?k < length ?settled" "reply_in sd (?settled ! ?k) = Some out"
    and only: "\<And>j out'. j < length ?settled \<Longrightarrow> reply_in sd (?settled ! j) = Some out' \<Longrightarrow>
        output_id out' = output_id out \<Longrightarrow> j = ?k"
    and read: "length (successes (take (Suc ?k) ?settled)) \<le> length (io_read ?t)"
    unfolding answered_in_def by blast+
  from ok(3,4) have got: "got_outputs (history c) = List.map_filter (body_reply sd) (io_read ?t)"
    by (auto simp: intake_def http_heard_def responses_read)
  from ok(1) have succ: "successes ?settled = io_read ?t @ io_queue ?t @ in_hand ?t" by (simp add: exchanges_ok_def)
  have unique: "out' = out" if "out' \<in> set (got_outputs (history c))" "output_id out' = output_id out" for out'
  proof -
    from that(1) have "out' \<in> set (replies_in sd ?settled)"
      by (simp add: got replies_successes succ)
    then obtain x where "x \<in> set ?settled" "reply_in sd x = Some out'" unfolding set_map_filter by blast
    then obtain j where j: "j < length ?settled" "reply_in sd (?settled ! j) = Some out'"
      unfolding in_set_conv_nth by blast
    from only[OF this that(2)] j(2) k(2) show ?thesis by simp
  qed
  have "prefix (successes (take (Suc ?k) ?settled)) (successes ?settled)"
    using successes_append[of "take (Suc ?k) ?settled" "drop (Suc ?k) ?settled"] by (metis append_take_drop_id prefixI)
  moreover have "prefix (io_read ?t) (successes ?settled)" by (simp add: succ)
  ultimately have "prefix (successes (take (Suc ?k) ?settled)) (io_read ?t)" using read prefix_length_prefix by blast
  moreover have "out \<in> set (replies_in sd (take (Suc ?k) ?settled))"
    using k by (auto simp: take_Suc_conv_app_nth)
  ultimately have here: "out \<in> set (got_outputs (history c))"
    unfolding got replies_successes by (auto simp: prefix_def)
  have "prefix (got_outputs evs) (replies_in sd (take ?k ?settled))"
    using ok(2) assms(2) unfolding http_causal_def by blast
  moreover have "out \<notin> set (replies_in sd (take ?k ?settled))"
  proof
    assume "out \<in> set (replies_in sd (take ?k ?settled))"
    then obtain x where "x \<in> set (take ?k ?settled)" "reply_in sd x = Some out" unfolding set_map_filter by blast
    then obtain j where "j < ?k" "reply_in sd (?settled ! j) = Some out" using k(1) by (auto simp: in_set_conv_nth)
    with only[of j out] k(1) show False by simp
  qed
  ultimately have "out \<notin> set (got_outputs evs)" by (auto simp: prefix_def)
  then have before: "Got out \<notin> set evs" by (simp add: mem_got_outputs)
  with here assms(2) have "Got out \<in> set evs'" by (auto simp: mem_got_outputs)
  moreover have "\<forall>out'. Got out' \<in> set evs' \<longrightarrow> output_id out' = output_id out \<longrightarrow> out' = out"
    using unique assms(2) by (simp add: mem_got_outputs)
  ultimately show ?thesis using assms(4) by (intro first_answer_unique)
qed

lemma payloads_grow: "prefix (payloads sd evs) (payloads sd (evs @ evs'))"
proof (induction evs' rule: rev_induct)
  case (snoc ev evs')
  have "prefix (ses_wire s) (ses_wire (session_step sd ev s))" for s
  proof (cases ev)
    case (Sent m)
    then show ?thesis
      by (cases m) (auto simp: Let_def ses_send_def ses_complete_def split: sum.split option.split)
  qed (auto simp: ses_complete_def split: option.split)
  with snoc show ?case
    unfolding append_assoc[symmetric] session_of_snoc using prefix_order.order_trans by blast
qed simp

lemma payload_of_call:
  assumes "serialize_method_request sd (call_id evs) mname ps = Inr p"
  shows "prefix (payloads sd evs @ [p]) (payloads sd (evs @ Sent (Msg_RpcCall mname ps tx) # evs'))"
proof -
  have "payloads sd (evs @ [Sent (Msg_RpcCall mname ps tx)]) = payloads sd evs @ [p]"
    using assms unfolding session_of_snoc by (simp add: Let_def session_next_id call_id_def ses_send_def)
  with payloads_grow[of sd "evs @ [Sent (Msg_RpcCall mname ps tx)]" evs'] show ?thesis by simp
qed

text \<open>C3: Over HTTP a call gets the answer to its own request. Take a call that the client has accepted in a run,
  and count the payloads before it, \<open>k\<close>. The \<open>k\<close>th payload the transport has taken is the call's, and the
  \<open>k\<close>th outcome comes from the POST request with it; if that brought a body with a response under the id of
  the call, no other body carries this id, and the client has read it, then the future that the user
  holds resolves to the result in this very body, deserialized, whatever else was sent and received.\<close>

theorem http_call_answered:
  assumes "client_run sd (http_ops show_error) S
      (new_with_server rx1 rx2 rtx (http_io_pair h chans slots flush close) s) r c"
    and "Inl () \<notin> sset slots" and "r \<noteq> Panic"
    and "history c = evs @ Sent (Msg_RpcCall mname ps tx) # evs'"
    and "calls_made (history c) \<le> 2 ^ 64 - 2" and "distinct (tokens (history c))"
    and "serialize_parameters to_value v = Inr ps" and "serialize_method_request sd (call_id evs) mname ps = Inr p"
    and "resolves_within n (client_handle_tx user (Msg_RpcCall mname ps tx)) (Inr ())"
    and "completion_delivered (completions c) tx m rx"
    and "answered_in sd (transport c) (length (payloads sd evs)) out"
    and "jsonrpc out = Some V2" and "output_id out = call_id evs"
  shows "let t = transport c; k = length (payloads sd evs) in
    io_taken t ! k = p \<and> settles_to (exchange h chans (io_taken t) k) (io_settled t ! k)
    \<and> resolves_within (n + m) (call_method to_value from_value user mname v tx rx)
        (call_outcome from_value (Inr ()) (Inr (output_result out)))"
proof -
  let ?t = "transport c" and ?k = "length (payloads sd evs)"
  have new: "io_taken (http_io_pair h chans slots flush close) = []" by (simp add: http_io_pair_def)
  note ok = http_run_of_new[OF assms(1,2)]
  from answered_first[OF ok assms(4,11,12)] assms(13) have first: "first_answer (call_id evs) evs' = Some out" by simp
  from call_settles[OF http.transport_contract_axioms new assms(1,3-7,9,10), of from_value] assms(8) first
  have "resolves_within (n + m) (call_method to_value from_value user mname v tx rx)
        (call_outcome from_value (Inr ()) (Inr (output_result out)))" by simp
  moreover have k: "?k < length (io_settled ?t)" using assms(11) by (simp add: answered_in_def)
  with ok have "settles_to (exchange h chans (io_taken ?t) ?k) (io_settled ?t ! ?k)" "?k < length (io_taken ?t)"
    by (simp_all add: http_run_ok_def exchanges_ok_def)
  moreover have "io_taken ?t ! ?k = p"
  proof -
    obtain lost where "implements sd io_taken lost c"
      by (rule run_of_new_implements[OF http.transport_contract_axioms new assms(1,3)])
    then obtain unsent where wire: "payloads sd (history c) = io_taken ?t @ unsent" by (auto simp: implements_def Let_def)
    from payload_of_call[OF assms(8)] obtain more where "payloads sd (history c) = payloads sd evs @ p # more"
      unfolding assms(4) by (auto simp: prefix_def)
    then have "payloads sd (history c) ! ?k = p" by simp
    with wire calculation(3) show ?thesis by (simp add: nth_append)
  qed
  ultimately show ?thesis by (simp add: Let_def)
qed

text \<open>The example once more: the third poll reads the body, and the call gets its result.\<close>

definition http_demo3 :: "(http_io, server) client" where
  "http_demo3 = http_demo2
     \<lparr>outgoing_payload_rx := \<lparr>strong = sconst (Inr NotReady), weak = sconst (Inr NotReady),
        use_strong = False, weak_done = False\<rparr>,
      pending_client_requests := Map.empty,
      transport := (transport http_demo2)\<lparr>io_queue := [], io_read := [into_bytes ''true'']\<rparr>,
      completions := [(7, Call_result (Inr (JBool True)))],
      history := [Sent demo_call, Got (Output_Success (Some V2) (JBool True) (Id_Num 1))]\<rparr>"

lemma true_utf8: "from_utf8 (into_bytes ''true'') = Some ''true''"
  by code_simp

lemma http_demo_poll3: "client_poll demo_serde (http_ops error_text) server_handler_ops http_demo2 = Some (Ret NotReady, http_demo3)"
  by (simp add: http_demo3_def http_demo2_def http_demo1_def http_demo_def demo_defs poll_defs http_defs true_utf8,
      (subst rust_loop.simps, simp add: demo_defs poll_defs http_defs true_utf8)+)

theorem http_call_answered_witness:
  "resolves_within 2 (call_method params_value bool_value demo_handle ''add'' None 7
      (Pending (Resolved (Inr (Inr (JBool True)))))) (Inr True)"
proof -
  let ?out = "Output_Success (Some V2) (JBool True) (Id_Num 1)"
  note run = client_run.run_poll[OF http_demo_run(2) http_demo_poll3, unfolded http_demo_def demo_io_def]
  have slots: "Inl () \<notin> sset (sconst (Inr True) :: (unit + bool) stream)" by simp
  have h: "history http_demo3 = [] @ Sent (Msg_RpcCall ''add'' None 7) # [Got ?out]"
    and c: "calls_made (history http_demo3) \<le> 2 ^ 64 - 2" "distinct (tokens (history http_demo3))"
    by (simp_all add: http_demo3_def demo_call_def tokens_def List.map_filter_def)
  have p: "serialize_parameters params_value None = Inr None"
    and s: "serialize_method_request demo_serde (call_id []) ''add'' None = Inr ''add''"
    and i: "call_id [] = Id_Num 1"
    by (simp_all add: serialize_parameters_def serialize_method_request_def demo_serde_def call_id_def)
  have tx: "resolves_within 1 (client_handle_tx demo_handle (Msg_RpcCall ''add'' None 7)) (Inr ())"
    by (simp add: demo_handle_def)
  have rx: "completion_delivered (completions http_demo3) 7 1 (Pending (Resolved (Inr (Inr (JBool True)))))"
    by (auto simp: completion_delivered_def http_demo3_def)
  have settled: "io_settled (transport http_demo3) = [Inr (into_bytes ''true'')]"
    "io_read (transport http_demo3) = [into_bytes ''true'']"
    by (simp_all add: http_demo3_def http_demo2_def http_demo1_def)
  have "body_reply demo_serde (into_bytes ''true'') = Some ?out"
    by (simp add: body_reply_def true_utf8 response_of_def parse_incoming_def demo_serde_def)
  then have answer: "answered_in demo_serde (transport http_demo3) (length (payloads demo_serde [])) ?out"
    by (simp add: answered_in_def settled session_of_def session_new_def successes_def)
  from http_call_answered[OF run slots _ h c p s tx rx answer, of bool_value] i
  have "resolves_within (1 + 1) (call_method params_value bool_value demo_handle ''add'' None 7
      (Pending (Resolved (Inr (Inr (JBool True)))))) (Inr True)"
    by (simp add: Let_def del: resolves_within.simps)
  then show ?thesis by (simp only: one_add_one)
qed

end
