(* ===== verification/Client_Creator.thy ===== *)
theory Client_Creator
  imports Http_Transport
begin

text \<open>
  \<open>http/src/client_creator.rs\<close> and the two constructors of \<open>HttpTransport\<close>: how the Hyper client comes to be
  that the processing future sends its requests with. A \<open>ClientCreator\<close> is its method \<open>create\<close>, a function from
  the handle of an event loop to a client or an error; Hyper's own constructors are arguments.
\<close>

type_synonym ('handle, 'client) client_creator = "'handle \<Rightarrow> string + 'client"

text \<open>\<open>impl ClientCreator for DefaultClient\<close>, for closures, and for \<open>DefaultTlsClient\<close>.\<close>

definition default_client_create :: "('handle \<Rightarrow> 'client) \<Rightarrow> ('handle, 'client) client_creator" where
  "default_client_create hyper_new handle = Inr (hyper_new handle)"

definition closure_create :: "('handle \<Rightarrow> string + 'client) \<Rightarrow> ('handle, 'client) client_creator" where
  "closure_create f handle = f handle"

definition dns_threads :: nat where
  "dns_threads = 2"

definition default_tls_client_create ::
  "(nat \<Rightarrow> 'handle \<Rightarrow> string + 'conn) \<Rightarrow> ('conn \<Rightarrow> 'handle \<Rightarrow> 'client) \<Rightarrow> ('handle, 'client) client_creator" where
  "default_tls_client_create https_connector build handle =
     (case https_connector dns_threads handle of
        Inl e \<Rightarrow> Inl e
      | Inr connector \<Rightarrow> Inr (build connector handle))"

text \<open>\<open>HttpTransport::new\<close> and \<open>HttpTransport::with_tls\<close>\<close>

definition http_transport_new :: "('handle \<Rightarrow> 'client) \<Rightarrow> ('handle, 'client, 'd) http_transport_builder" where
  "http_transport_new hyper_new = with_client (default_client_create hyper_new)"

definition http_transport_with_tls ::
  "(nat \<Rightarrow> 'handle \<Rightarrow> string + 'conn) \<Rightarrow> ('conn \<Rightarrow> 'handle \<Rightarrow> 'client) \<Rightarrow> ('handle, 'client, 'd) http_transport_builder" where
  "http_transport_with_tls https_connector build = with_client (default_tls_client_create https_connector build)"

section \<open>Setting up a transport\<close>

text \<open>What a builder leaves running: the client of this event loop's handle, and the last timeout that was set.\<close>

definition runs :: "('client, 'd) spawned \<Rightarrow> 'client \<Rightarrow> 'd option \<Rightarrow> (http_request \<times> completion) receiver \<Rightarrow> bool" where
  "runs sp client timeout rx \<longleftrightarrow> sp_client sp = client \<and> sp_timeout sp = timeout
     \<and> sp_processor sp = create_request_processing_future rx"

lemma standalone_cases:
  "standalone tx rx new_core handle b =
     (case new_core of
        Inl _ \<Rightarrow> Inl (TokioCoreError ''Unable to create'')
      | Inr core \<Rightarrow> (case client_creator b (handle core) of
          Inl _ \<Rightarrow> Inl ClientCreatorError
        | Inr client \<Rightarrow> Inr (build_transport tx,
            \<lparr>sp_client = client, sp_timeout = timeout_setting b, sp_processor = create_request_processing_future rx\<rparr>)))"
  by (simp add: standalone_def create_standalone_core_def split: sum.split)

text \<open>What can go wrong when a transport is set up, and only that. With its own event loop, a plain transport
  fails exactly if the loop cannot be created; one with TLS also if the connector, with two DNS threads,
  cannot, which is reported as \<open>ClientCreatorError\<close>; and if it succeeds, the loop runs the processing
  future of this transport's request channel, with the client made for this very loop and with the last
  time limit set, or none. A closure is called with the loop's handle and its error is treated likewise.\<close>

lemma transport_set_up:
  "(case standalone tx rx new_core handle (set_timeout d2 (set_timeout d1 (http_transport_new hyper_new))) of
      Inl e \<Rightarrow> (\<exists>x. new_core = Inl x) \<and> e = TokioCoreError ''Unable to create''
    | Inr (t, sp) \<Rightarrow> (\<exists>core. new_core = Inr core \<and> runs sp (hyper_new (handle core)) (Some d2) rx) \<and> t_request_tx t = tx)
   \<and> (case standalone tx rx new_core handle (http_transport_with_tls https_connector build) of
      Inl e \<Rightarrow> (\<exists>x. new_core = Inl x) \<and> e = TokioCoreError ''Unable to create''
        \<or> (\<exists>core x. new_core = Inr core \<and> https_connector 2 (handle core) = Inl x) \<and> e = ClientCreatorError
    | Inr (t, sp) \<Rightarrow> \<exists>core conn. new_core = Inr core \<and> https_connector 2 (handle core) = Inr conn
        \<and> runs sp (build conn (handle core)) None rx)
   \<and> standalone tx rx (Inr core) handle (with_client (closure_create f)) = shared tx rx (handle core) (with_client f)"
  by (auto simp: standalone_cases runs_def http_transport_new_def http_transport_with_tls_def with_client_def
      set_timeout_def default_client_create_def default_tls_client_create_def closure_create_def dns_threads_def
      build_transport_def shared_def split: sum.split)

end
