(* ===== verification/Server_Handle.thy ===== *)
theory Server_Handle
  imports Server
begin

text \<open>
  \<open>core/src/server.rs\<close>, \<open>ServerHandle\<close>: the futures with which handlers are added to and removed from a
  running server. The handle is its sender, the one-shot channel of the answer is the completion that
  travels with the message and the future of its receiving half, as for \<open>Client_Handle\<close>.

  \<open>unreachable!()\<close> inside a future is an outcome of the future: \<open>Panicked\<close>.
\<close>

datatype 'e or_panic = Err 'e | Panicked

record server_handle =
  server_handle_tx :: "handler_msg \<Rightarrow> (unit, handler_msg) fut"

definition server_handle_add ::
  "server_handle \<Rightarrow> string \<Rightarrow> handler \<Rightarrow> completion \<Rightarrow> (handler_setting_error + unit, unit) fut
     \<Rightarrow> (unit, handler_setting_error or_panic) fut" where
  "server_handle_add sh name h result_tx result_rx =
     and_then (and_then
       (map_err (\<lambda>e. case e of
            AddHandler _ h' _ \<Rightarrow> Err (HandlerSettingError h' Handler_Shutdown)
          | _ \<Rightarrow> Panicked)
         (server_handle_tx sh (AddHandler name h result_tx)))
       (\<lambda>_. map_err (\<lambda>_. Panicked) result_rx))
       (\<lambda>r. Resolved (map_sum Err (\<lambda>u. u) r))"

definition server_handle_remove ::
  "server_handle \<Rightarrow> string \<Rightarrow> completion \<Rightarrow> (handler_error + handler, unit) fut
     \<Rightarrow> (handler, handler_error) fut" where
  "server_handle_remove sh name result_tx result_rx =
     and_then (and_then
       (map_err (\<lambda>_. Handler_Shutdown) (server_handle_tx sh (RemoveHandler name result_tx)))
       (\<lambda>_. map_err (\<lambda>_. Handler_Shutdown) result_rx))
       Resolved"

text \<open>
  A sender that cannot deliver gives the message back, which is what \<open>futures\<close> documents of \<open>SendError\<close>.
\<close>

definition gives_back :: "server_handle \<Rightarrow> bool" where
  "gives_back sh \<longleftrightarrow> (\<forall>msg n e. resolves_within n (server_handle_tx sh msg) (Inl e) \<longrightarrow> e = msg)"

lemma add_outcome:
  assumes "gives_back sh" and "resolves_within n (server_handle_tx sh (AddHandler name h tx)) s"
    and "resolves_within m rx a"
  shows "resolves_within (n + m) (server_handle_add sh name h tx rx)
    (case (s, a) of
       (Inl _, _) \<Rightarrow> Inl (Err (HandlerSettingError h Handler_Shutdown))
     | (Inr _, Inl _) \<Rightarrow> Inl Panicked
     | (Inr _, Inr r) \<Rightarrow> map_sum Err (\<lambda>u. u) r)"
proof -
  let ?send = "map_err (\<lambda>e. case e of AddHandler _ h' _ \<Rightarrow> Err (HandlerSettingError h' Handler_Shutdown)
      | _ \<Rightarrow> Panicked) (server_handle_tx sh (AddHandler name h tx))"
  let ?wait = "\<lambda>_ :: unit. map_err (\<lambda>_. Panicked) rx"
  define got where "got = (case s of Inl _ \<Rightarrow> Inl (Err (HandlerSettingError h Handler_Shutdown))
      | Inr _ \<Rightarrow> map_sum (\<lambda>_. Panicked) (\<lambda>r. r) a)"
  have returned: "e = AddHandler name h tx" if "s = Inl e" for e
    using assms(1,2) that by (auto simp: gives_back_def)
  have "resolves_within (n + m) (and_then ?send ?wait) got"
    by (rule resolves_and_then[OF resolves_within_map_err[OF assms(2)]])
      (use resolves_within_map_err[OF assms(3)] returned in \<open>auto simp: got_def split: sum.splits\<close>)
  then have "resolves_within (n + m + 0) (and_then (and_then ?send ?wait) (\<lambda>r. Resolved (map_sum Err (\<lambda>u. u) r)))
      (case (s, a) of
         (Inl _, _) \<Rightarrow> Inl (Err (HandlerSettingError h Handler_Shutdown))
       | (Inr _, Inl _) \<Rightarrow> Inl Panicked
       | (Inr _, Inr r) \<Rightarrow> map_sum Err (\<lambda>u. u) r)"
    by (rule resolves_and_then) (auto simp: got_def split: sum.splits)
  then show ?thesis by (simp add: server_handle_add_def)
qed

text \<open>C39: Adding a handler through a handle ends with the server's answer: success, or the error with the
  handler in it that was not set. If the server is gone before the message is queued, the error is
  \<open>Shutdown\<close> and the caller gets its handler back. The only way to panic is a message that was
  queued and then dropped without an answer.\<close>

theorem add_handler_outcome:
  assumes "gives_back sh" and "resolves_within n (server_handle_tx sh (AddHandler name h tx)) s"
    and "resolves_within m rx a"
  shows "resolves_within (n + m) (server_handle_add sh name h tx rx)
    (case (s, a) of
       (Inl _, _) \<Rightarrow> Inl (Err (HandlerSettingError h Handler_Shutdown))
     | (Inr _, Inl _) \<Rightarrow> Inl Panicked
     | (Inr _, Inr r) \<Rightarrow> map_sum Err (\<lambda>u. u) r)"
  using assms by (rule add_outcome)

definition gone_server_handle :: server_handle where
  "gone_server_handle = \<lparr>server_handle_tx = (\<lambda>msg. Pending (Resolved (Inl msg)))\<rparr>"

lemma gives_back_gone [simp]: "gives_back gone_server_handle"
  by (auto simp: gives_back_def gone_server_handle_def)

theorem add_handler_outcome_witness:
  "resolves_within 1 (server_handle_add gone_server_handle ''ping'' ping_handler 1 (Resolved (Inl ())))
     (Inl (Err (HandlerSettingError ping_handler Handler_Shutdown)))"
  using add_handler_outcome[OF gives_back_gone, of 1 "''ping''" ping_handler 1
      "Inl (AddHandler ''ping'' ping_handler 1)" 0 "Resolved (Inl ())" "Inl ()"]
  by (simp add: gone_server_handle_def)

text \<open>Removing a handler ends with the handler that was set, with \<open>NoHandler\<close> if none was, and with
  \<open>Shutdown\<close> whenever the server is gone, be it before or after the message was queued.\<close>

lemma remove_handler_outcome:
  assumes "resolves_within n (server_handle_tx sh (RemoveHandler name tx)) s" and "resolves_within m rx a"
  shows "resolves_within (n + m) (server_handle_remove sh name tx rx)
    (case (s, a) of (Inr _, Inr r) \<Rightarrow> r | _ \<Rightarrow> Inl Handler_Shutdown)"
proof -
  let ?send = "map_err (\<lambda>_. Handler_Shutdown) (server_handle_tx sh (RemoveHandler name tx))"
  let ?wait = "\<lambda>_ :: unit. map_err (\<lambda>_. Handler_Shutdown) rx"
  define got where "got = (case s of Inl _ \<Rightarrow> Inl Handler_Shutdown
      | Inr _ \<Rightarrow> map_sum (\<lambda>_. Handler_Shutdown) (\<lambda>r. r) a)"
  have "resolves_within (n + m) (and_then ?send ?wait) got"
    by (rule resolves_and_then[OF resolves_within_map_err[OF assms(1)]])
      (use resolves_within_map_err[OF assms(2)] in \<open>auto simp: got_def split: sum.splits\<close>)
  then have "resolves_within (n + m + 0) (and_then (and_then ?send ?wait) Resolved)
      (case (s, a) of (Inr _, Inr r) \<Rightarrow> r | _ \<Rightarrow> Inl Handler_Shutdown)"
    by (rule resolves_and_then) (auto simp: got_def split: sum.splits)
  then show ?thesis by (simp add: server_handle_remove_def)
qed

definition queueing_handle :: server_handle where
  "queueing_handle = \<lparr>server_handle_tx = (\<lambda>_. Pending (Resolved (Inr ())))\<rparr>"

end
