(* ===== verification/Pubsub.thy ===== *)
theory Pubsub
  imports Server_Handle Client_Handle Select_Weak "HOL-Library.List_Lexorder" "HOL-Library.Char_ord"
begin

text \<open>
  \<open>pubsub/src/lib.rs\<close>: subscriptions. A \<open>Subscriber\<close> installs, for each notification it is asked about, a
  notification handler in the server half that forwards the messages to a \<open>NotificationHandler\<close>; that
  future keeps the subscriptions of the notification and distributes the messages to them, one at a
  time. It gets the messages of the remote end on the strong channel and the commands of the
  \<open>Subscriber\<close> and of dropped \<open>Subscription\<close>s on the weak one.

  Senders are given by the futures their sends give; each call of \<open>oneshot::channel()\<close> takes the next
  pair of a supply (\<open>oneshots\<close>).
\<close>

section \<open>Subscription ids and messages\<close>

datatype subscription_id = Sub_Num u64 | Sub_String string

text \<open>The derived order: numbers before strings.\<close>

instantiation subscription_id :: linorder
begin

fun less_eq_subscription_id :: "subscription_id \<Rightarrow> subscription_id \<Rightarrow> bool" where
  "less_eq_subscription_id (Sub_Num m) (Sub_Num n) = (m \<le> n)"
| "less_eq_subscription_id (Sub_Num _) (Sub_String _) = True"
| "less_eq_subscription_id (Sub_String _) (Sub_Num _) = False"
| "less_eq_subscription_id (Sub_String s) (Sub_String t) = (s \<le> t)"

definition less_subscription_id :: "subscription_id \<Rightarrow> subscription_id \<Rightarrow> bool" where
  "less_subscription_id a b \<longleftrightarrow> a \<le> b \<and> \<not> b \<le> (a :: subscription_id)"

instance
proof
  fix a b c :: subscription_id
  show "(a < b) = (a \<le> b \<and> \<not> b \<le> a)" by (rule less_subscription_id_def)
  show "a \<le> a" by (cases a) simp_all
  show "a \<le> b \<Longrightarrow> b \<le> c \<Longrightarrow> a \<le> c" by (cases a; cases b; cases c) auto
  show "a \<le> b \<Longrightarrow> b \<le> a \<Longrightarrow> a = b" by (cases a; cases b) auto
  show "a \<le> b \<or> b \<le> a" by (cases a; cases b) auto
qed

end

type_synonym value_sender = "json \<Rightarrow> (unit, unit) fut"

record subscription_message =
  subscription :: subscription_id
  sub_result :: json

datatype subscriber_msg =
    NewMessage subscription_message
  | NewSubscriber subscription_id value_sender
  | RemoveSubscriber subscription_id

text \<open>\<open>params_to_subscription_message\<close>; \<open>parse\<close> is what serde derives for \<open>SubscriptionMessage\<close>.\<close>

definition params_to_subscription_message ::
  "(params \<Rightarrow> subscription_message option) \<Rightarrow> params option \<Rightarrow> subscriber_msg option" where
  "params_to_subscription_message parse ps =
     map_option NewMessage (Option.bind ps parse)"

section \<open>The notification handler\<close>

record notification_handler =
  notification_method :: string
  subscribers :: "(subscription_id, value_sender) btree_map"
  messages :: "(subscriber_msg receiver, subscriber_msg receiver) select_with_weak"
  unsub_method :: string
  handler_client :: client_handle
  handler_server :: server_handle
  current_future :: "(unit, unit) fut option"
  should_stop :: bool
  oneshots :: "(completion \<times> (core_error + json, unit) fut) stream"
  dispatched :: "(subscription_id \<times> json) list"
  unsubscribed :: "subscription_id list"
  finished :: nat

definition notification_handler_new ::
  "string \<Rightarrow> server_handle \<Rightarrow> client_handle \<Rightarrow> string \<Rightarrow> subscriber_msg receiver \<Rightarrow> subscriber_msg receiver
     \<Rightarrow> (completion \<times> (core_error + json, unit) fut) stream \<Rightarrow> notification_handler" where
  "notification_handler_new method handlers client unsub subscription_messages control_messages chans =
     \<lparr>notification_method = method, subscribers = [],
      messages = select_with_weak subscription_messages control_messages, unsub_method = unsub,
      handler_client = client, handler_server = handlers, current_future = None, should_stop = False, oneshots = chans,
      dispatched = [], unsubscribed = [], finished = 0\<rparr>"

definition handle_new_subscription ::
  "subscription_id \<Rightarrow> value_sender \<Rightarrow> notification_handler \<Rightarrow> notification_handler" where
  "handle_new_subscription i chan h = h\<lparr>subscribers := btree_insert i chan (subscribers h)\<rparr>"

text \<open>The reply to the unsubscribe call must be a boolean.\<close>

fun from_bool :: "json \<Rightarrow> bool option" where
  "from_bool (JBool b) = Some b"
| "from_bool _ = None"

definition empty_slice :: "unit \<Rightarrow> json option" where
  "empty_slice u = Some (JArray [])"

definition handle_removal :: "subscription_id \<Rightarrow> notification_handler \<Rightarrow> notification_handler" where
  "handle_removal i h =
     (let h = h\<lparr>subscribers := btree_remove i (subscribers h)\<rparr>;
          (tx, rx) = shd (oneshots h);
          future = map_err (\<lambda>_. ()) (map_ok (\<lambda>_. ())
            (call_method empty_slice from_bool (handler_client h) (unsub_method h) () tx rx))
      in h\<lparr>oneshots := stl (oneshots h), should_stop := (length (subscribers h) < 1),
           current_future := Some future, unsubscribed := unsubscribed h @ [i]\<rparr>)"

definition handle_new_message :: "subscription_id \<Rightarrow> json \<Rightarrow> notification_handler \<Rightarrow> notification_handler" where
  "handle_new_message i message h =
     (case map_of (subscribers h) i of
        Some chan \<Rightarrow> h\<lparr>current_future := Some (chan message), dispatched := dispatched h @ [(i, message)]\<rparr>
      | None \<Rightarrow> h)"

definition ready_for_next_connection :: "notification_handler \<Rightarrow> bool \<times> notification_handler" where
  "ready_for_next_connection h =
     (case current_future h of
        None \<Rightarrow> (True, h)
      | Some f \<Rightarrow>
          (case poll_fut f of
             (Inr NotReady, f') \<Rightarrow> (False, h\<lparr>current_future := Some f'\<rparr>)
           | _ \<Rightarrow> (True, h\<lparr>current_future := None, finished := Suc (finished h)\<rparr>)))"

fun handle_subscriber_msg :: "subscriber_msg \<Rightarrow> notification_handler \<Rightarrow> notification_handler" where
  "handle_subscriber_msg (NewMessage msg) h = handle_new_message (subscription msg) (sub_result msg) h"
| "handle_subscriber_msg (NewSubscriber i chan) h = handle_new_subscription i chan h"
| "handle_subscriber_msg (RemoveSubscriber i) h = handle_removal i h"

definition after_loop :: "notification_handler \<Rightarrow> (unit async, unit) outcome" where
  "after_loop h = (if should_stop h then Ret (Ready ()) else Ret NotReady)"

definition handler_turn ::
  "notification_handler \<Rightarrow> (unit async, unit) outcome flow \<times> notification_handler" where
  "handler_turn h =
     (case ready_for_next_connection h of
        (False, h) \<Rightarrow> (Return (after_loop h), h)
      | (True, h) \<Rightarrow>
          (case select_poll receiver_poll receiver_poll (messages h) of
             (Inl _, q) \<Rightarrow> (Return (Raise ()), h\<lparr>messages := q\<rparr>)
           | (Inr NotReady, q) \<Rightarrow> (Return (after_loop h), h\<lparr>messages := q\<rparr>)
           | (Inr (Ready None), q) \<Rightarrow> (Return (Ret (Ready ())), h\<lparr>messages := q\<rparr>)
           | (Inr (Ready (Some msg)), q) \<Rightarrow> (Continue, handle_subscriber_msg msg (h\<lparr>messages := q\<rparr>))))"

definition handler_poll ::
  "notification_handler \<Rightarrow> ((unit async, unit) outcome \<times> notification_handler) option" where
  "handler_poll h = rust_loop handler_turn h"

text \<open>
  \<open>Drop for NotificationHandler\<close>: the future that would remove the callback is made and dropped. It is the value
  here; as nobody polls it, its message never leaves.
\<close>

definition notification_handler_drop ::
  "completion \<times> (handler_error + handler, unit) fut \<Rightarrow> notification_handler \<Rightarrow> (handler, handler_error) fut" where
  "notification_handler_drop chan h =
     server_handle_remove (handler_server h) (notification_method h) (fst chan) (snd chan)"

text \<open>Polling the handler until it resolves.\<close>

inductive handler_run :: "notification_handler \<Rightarrow> (unit async, unit) outcome \<Rightarrow> notification_handler \<Rightarrow> bool"
  for h0 where
  handler_start: "handler_run h0 (Ret NotReady) h0"
| handler_again: "handler_run h0 (Ret NotReady) h \<Longrightarrow> handler_poll h = Some (r, h') \<Longrightarrow> handler_run h0 r h'"

section \<open>Subscriptions\<close>

text \<open>
  A subscription: \<open>value_rx\<close> is its channel; \<open>handler_chan_sent\<close> records what it has sent to the handler.
\<close>

record subscription_stream =
  value_rx :: "json receiver"
  sub_id :: "subscription_id option"
  handler_chan_sent :: "subscriber_msg list"

definition subscription_poll ::
  "(json \<Rightarrow> 'v option) \<Rightarrow> subscription_stream \<Rightarrow> ('v option, core_error) poll \<times> subscription_stream" where
  "subscription_poll from_value s =
     (case receiver_poll (value_rx s) of
        (Inl _, rx) \<Rightarrow> (Inl Shutdown, s\<lparr>value_rx := rx\<rparr>)
      | (Inr (Ready (Some v)), rx) \<Rightarrow>
          (case from_value v of
             None \<Rightarrow> (Inl DeserializeError, s\<lparr>value_rx := rx\<rparr>)
           | Some x \<Rightarrow> (Inr (Ready (Some x)), s\<lparr>value_rx := rx\<rparr>))
      | (Inr (Ready None), rx) \<Rightarrow> (Inr (Ready None), s\<lparr>value_rx := rx\<rparr>)
      | (Inr NotReady, rx) \<Rightarrow> (Inr NotReady, s\<lparr>value_rx := rx\<rparr>))"

text \<open>\<open>Drop for Subscription\<close>\<close>

definition subscription_drop :: "subscription_stream \<Rightarrow> subscription_stream" where
  "subscription_drop s =
     (case sub_id s of
        Some i \<Rightarrow> s\<lparr>sub_id := None, handler_chan_sent := handler_chan_sent s @ [RemoveSubscriber i]\<rparr>
      | None \<Rightarrow> s)"

section \<open>The subscriber\<close>

datatype pubsub_error = Core core_error | HandlerError handler_setting_error | SpawnError string

text \<open>The closure that is installed as the handler of the notification.\<close>

definition forward_notification ::
  "(params \<Rightarrow> subscription_message option) \<Rightarrow> (subscriber_msg \<Rightarrow> (unit, unit) fut) \<Rightarrow> notification
     \<Rightarrow> (unit, core_error) fut" where
  "forward_notification parse msg_tx n =
     (case params_to_subscription_message parse (n_params n) of
        Some msg \<Rightarrow> map_err (\<lambda>_. Shutdown) (map_ok (\<lambda>_. ()) (msg_tx msg))
      | None \<Rightarrow> Resolved (Inr ()))"

text \<open>\<open>Future::wait\<close>: block until the future resolves; \<open>None\<close> when it never does.\<close>

partial_function (option) wait :: "('a, 'e) fut \<Rightarrow> ('e + 'a) option" where
  "wait f = (case f of Pending g \<Rightarrow> wait g | Resolved r \<Rightarrow> Some r)"

text \<open>
  A \<open>Subscriber\<close>. \<open>notification_handlers\<close> names, for each notification, the control channel of its handler.
\<close>

record subscriber =
  sub_client :: client_handle
  sub_handlers :: server_handle
  notification_handlers :: "(string, nat) btree_map"

definition subscriber_new :: "client_handle \<Rightarrow> server_handle \<Rightarrow> subscriber" where
  "subscriber_new client handlers =
     \<lparr>sub_client = client, sub_handlers = handlers, notification_handlers = []\<rparr>"

text \<open>
  What one call of \<open>spawn_notification_handler\<close> gets from outside: the channels it creates, the one-shot
  channel of \<open>add\<close>, the name of the new control channel, and whether the executor takes the new handler (if it
  does not, the handler is dropped, which is only logged).
\<close>

record spawn_env =
  env_msg_tx :: "subscriber_msg \<Rightarrow> (unit, unit) fut"
  env_msg_rx :: "subscriber_msg receiver"
  env_control :: nat
  env_control_rx :: "subscriber_msg receiver"
  env_add :: "completion \<times> (handler_setting_error + unit, unit) fut"
  env_oneshots :: "(completion \<times> (core_error + json, unit) fut) stream"
  env_executes :: bool

definition spawn_notification_handler ::
  "(params \<Rightarrow> subscription_message option) \<Rightarrow> spawn_env \<Rightarrow> string \<Rightarrow> string \<Rightarrow> subscriber
     \<Rightarrow> ((nat \<times> notification_handler option, pubsub_error) outcome \<times> subscriber) option" where
  "spawn_notification_handler parse env method unsub s =
     (case wait (server_handle_add (sub_handlers s) method
            (Handler_Notification (forward_notification parse (env_msg_tx env)))
            (fst (env_add env)) (snd (env_add env))) of
        None \<Rightarrow> None
      | Some (Inl Panicked) \<Rightarrow> Some (Panic, s)
      | Some (Inl (Err e)) \<Rightarrow> Some (Raise (HandlerError e), s)
      | Some (Inr _) \<Rightarrow>
          Some (Ret (env_control env,
                     if env_executes env
                     then Some (notification_handler_new method (sub_handlers s) (sub_client s) unsub (env_msg_rx env)
                       (env_control_rx env) (env_oneshots env))
                     else None),
                s\<lparr>notification_handlers := btree_insert method (env_control env) (notification_handlers s)\<rparr>))"

text \<open>
  \<open>subscribe\<close>, up to the future it gives: the control channel it will use, or the error. \<open>is_closed\<close> tells
  which control channels are closed. With the channel comes the handler that was spawned, if one was.
\<close>

definition subscribe_chan ::
  "(nat \<Rightarrow> bool) \<Rightarrow> (params \<Rightarrow> subscription_message option) \<Rightarrow> spawn_env \<Rightarrow> string \<Rightarrow> string \<Rightarrow> subscriber
     \<Rightarrow> ((nat \<times> notification_handler option, pubsub_error) outcome \<times> subscriber) option" where
  "subscribe_chan is_closed parse env method unsub s =
     (case (case map_of (notification_handlers s) method of
              Some c \<Rightarrow> if is_closed c then Some c else None
            | None \<Rightarrow> None) of
        Some c \<Rightarrow> Some (Ret (c, None), s)
      | None \<Rightarrow>
          (spawn_notification_handler parse env method unsub s))"

text \<open>
  The future of \<open>subscribe\<close>: the subscribe call, then the registration with the handler. It gives the
  subscription and the message for the control channel.
\<close>

definition subscribe_future ::
  "('p \<Rightarrow> json option) \<Rightarrow> (json \<Rightarrow> subscription_id option) \<Rightarrow> subscriber \<Rightarrow> string \<Rightarrow> 'p \<Rightarrow> value_sender \<Rightarrow> json receiver
     \<Rightarrow> completion \<times> (core_error + json, unit) fut
     \<Rightarrow> (subscription_stream \<times> subscriber_msg, pubsub_error) fut" where
  "subscribe_future to_value from_id s sub_method sub_parameters sub_tx sub_rx chan =
     map_ok (\<lambda>i. (\<lparr>value_rx = sub_rx, sub_id = Some i, handler_chan_sent = []\<rparr>, NewSubscriber i sub_tx))
       (map_err Core (call_method to_value from_id (sub_client s) sub_method sub_parameters (fst chan) (snd chan)))"

text \<open>
  \<open>Subscriber::subscribe\<close>: the future, with the handler that was spawned for it, and what is to be sent on
  which control channel when it resolves. An error of the first part is the future's.
\<close>

definition subscribe ::
  "(nat \<Rightarrow> bool) \<Rightarrow> (params \<Rightarrow> subscription_message option) \<Rightarrow> spawn_env \<Rightarrow> ('p \<Rightarrow> json option)
     \<Rightarrow> (json \<Rightarrow> subscription_id option) \<Rightarrow> string \<Rightarrow> string \<Rightarrow> string \<Rightarrow> value_sender \<Rightarrow> json receiver \<Rightarrow> 'p
     \<Rightarrow> completion \<times> (core_error + json, unit) fut \<Rightarrow> subscriber
     \<Rightarrow> (((subscription_stream \<times> nat \<times> subscriber_msg, pubsub_error) fut \<times> notification_handler option, pubsub_error) outcome
          \<times> subscriber) option" where
  "subscribe is_closed parse env to_value from_id sub_method unsub method sub_tx sub_rx sub_parameters oneshot s =
     (case subscribe_chan is_closed parse env method unsub s of
        None \<Rightarrow> None
      | Some (Ret (chan, spawned), s) \<Rightarrow>
          Some (Ret (map_ok (\<lambda>(stream, msg). (stream, chan, msg))
                       (subscribe_future to_value from_id s sub_method sub_parameters sub_tx sub_rx oneshot), spawned), s)
      | Some (Raise e, s) \<Rightarrow> Some (Ret (Resolved (Inl e), None), s)
      | Some (Panic, s) \<Rightarrow> Some (Panic, s))"

section \<open>Distribution of the messages\<close>

text \<open>
  The specification of a notification handler: the messages, carried out one after the other on a plain
  map of subscriptions.
\<close>

record feed =
  fd_subscribers :: "subscription_id \<rightharpoonup> value_sender"
  fd_dispatched :: "(subscription_id \<times> json) list"
  fd_unsubscribed :: "subscription_id list"
  fd_stop :: bool

definition feed_new :: feed where
  "feed_new = \<lparr>fd_subscribers = Map.empty, fd_dispatched = [], fd_unsubscribed = [], fd_stop = False\<rparr>"

fun feed_step :: "subscriber_msg \<Rightarrow> feed \<Rightarrow> feed" where
  "feed_step (NewMessage m) f =
     (if subscription m \<in> dom (fd_subscribers f)
      then f\<lparr>fd_dispatched := fd_dispatched f @ [(subscription m, sub_result m)]\<rparr> else f)"
| "feed_step (NewSubscriber i chan) f = f\<lparr>fd_subscribers := (fd_subscribers f)(i \<mapsto> chan)\<rparr>"
| "feed_step (RemoveSubscriber i) f =
     f\<lparr>fd_subscribers := (fd_subscribers f)(i := None), fd_unsubscribed := fd_unsubscribed f @ [i],
       fd_stop := ((fd_subscribers f)(i := None) = Map.empty)\<rparr>"

definition feed_of :: "notification_handler \<Rightarrow> feed" where
  "feed_of h = \<lparr>fd_subscribers = map_of (subscribers h), fd_dispatched = dispatched h,
     fd_unsubscribed = unsubscribed h, fd_stop = should_stop h\<rparr>"

lemma feed_step_msg:
  "btree_ok (subscribers h) \<Longrightarrow> btree_ok (subscribers (handle_subscriber_msg msg h))
     \<and> feed_of (handle_subscriber_msg msg h) = feed_step msg (feed_of h)
     \<and> messages (handle_subscriber_msg msg h) = messages h"
  by (cases msg)
    (auto simp: feed_of_def handle_new_message_def handle_new_subscription_def handle_removal_def Let_def
      domIff simp flip: map_of_btree_remove split: option.split prod.split)

lemma ready_frame:
  "ready_for_next_connection h = (b, h') \<Longrightarrow>
     subscribers h' = subscribers h \<and> feed_of h' = feed_of h \<and> messages h' = messages h"
  by (auto simp: ready_for_next_connection_def feed_of_def
      split: option.splits prod.splits sum.splits async.splits)

text \<open>From \<open>h\<close> to \<open>h'\<close> the handler has carried out the messages that its channels handed out.\<close>

definition fed :: "notification_handler \<Rightarrow> notification_handler \<Rightarrow> bool" where
  "fed h h' \<longleftrightarrow> btree_ok (subscribers h') \<and>
     (\<exists>msgs. hands_out (messages h) msgs (messages h') \<and> feed_of h' = fold feed_step msgs (feed_of h))"

lemma fed_refl: "btree_ok (subscribers h) \<Longrightarrow> fed h h"
  unfolding fed_def by (intro conjI exI[of _ "[]"]) simp_all

lemma fed_trans: "fed a b \<Longrightarrow> fed b c \<Longrightarrow> fed a c"
  unfolding fed_def by (metis fold_append comp_apply hands_out_trans)

lemma handler_turn_fed:
  assumes "btree_ok (subscribers h)" "handler_turn h = (f, h')"
  shows "fed h h'"
proof -
  obtain b h1 where r: "ready_for_next_connection h = (b, h1)" by fastforce
  from ready_frame[OF r] assms(1) have 1: "fed h h1" "btree_ok (subscribers h1)"
    using fed_refl[OF assms(1)] by (simp_all add: fed_def)
  obtain a q where a: "select_poll receiver_poll receiver_poll (messages h1) = (a, q)" by fastforce
  let ?h = "h1\<lparr>messages := q\<rparr>"
  have feed: "feed_of ?h = feed_of h1" by (simp add: feed_of_def)
  show ?thesis
  proof (cases b)
    case False
    with assms(2) r 1 show ?thesis by (simp add: handler_turn_def)
  next
    case True
    have idle: "fed h ?h" if "items_of [a] = []"
    proof (rule fed_trans[OF 1(1)])
      show "fed h1 ?h"
        unfolding fed_def using select_hands_out[OF a] that feed 1(2) by (intro conjI exI[of _ "[]"]) simp_all
    qed
    show ?thesis
    proof (cases a rule: poll_cases)
      case (item msg)
      with feed_step_msg[of ?h msg] 1(2) have "fed h1 (handle_subscriber_msg msg ?h)"
        unfolding fed_def using select_hands_out[OF a] feed by (intro conjI exI[of _ "[msg]"]) simp_all
      with fed_trans[OF 1(1)] assms(2) True r a item show ?thesis by (simp add: handler_turn_def)
    qed (use idle assms(2) True r a in \<open>auto simp: handler_turn_def\<close>)
  qed
qed

lemma handler_poll_fed:
  assumes "btree_ok (subscribers h)" "handler_poll h = Some (r, h')"
  shows "fed h h'"
proof (rule rust_loop_invariant[OF assms(2)[unfolded handler_poll_def], where I = "fed h"])
  show "fed h h" by (rule fed_refl[OF assms(1)])
  show "fed h u" if "fed h t" "handler_turn t = (f, u)" for t u f
    using that handler_turn_fed fed_trans by (metis fed_def)
  then show "fed h u" if "fed h t" "handler_turn t = (Return q, u)" for t u q using that by blast
qed

lemma handler_run_fed:
  assumes "handler_run (notification_handler_new method handlers client unsub rx1 rx2 chans) r h"
  shows "\<exists>msgs k l. msgs \<in> shuffles (items_of (stake k rx1)) (items_of (stake l rx2))
    \<and> strong (messages h) = sdrop k rx1 \<and> weak (messages h) = sdrop l rx2
    \<and> feed_of h = fold feed_step msgs feed_new"
proof -
  let ?h0 = "notification_handler_new method handlers client unsub rx1 rx2 chans"
  have "fed ?h0 h"
    using assms
  proof (induction rule: handler_run.induct)
    case handler_start
    show ?case by (rule fed_refl) (simp add: notification_handler_new_def)
  next
    case (handler_again h r h')
    then have "btree_ok (subscribers h)" by (simp add: fed_def)
    from handler_poll_fed[OF this handler_again.hyps(2)] handler_again.IH show ?case using fed_trans by blast
  qed
  moreover have "feed_of ?h0 = feed_new" "messages ?h0 = select_with_weak rx1 rx2"
    by (simp_all add: notification_handler_new_def feed_of_def feed_new_def)
  ultimately show ?thesis
    unfolding fed_def hands_out_def by (auto simp: select_with_weak_def)
qed

text \<open>C14: A notification handler does what its specification says: however its polls, the delivery of
  values and the unsubscribe calls interleave, the messages it has carried out are an interleaving of
  what its two channels have delivered, each channel in order, and the subscriptions it knows, the
  values it has handed to subscribers (in order, each to the subscription it is for and only while that
  subscription exists), the unsubscribe calls it has made and whether it is about to stop are those of
  the plain map that carries out the same messages one by one.\<close>

theorem handler_refines_feed:
  assumes "handler_run (notification_handler_new method handlers client unsub rx1 rx2 chans) r h"
  shows "\<exists>msgs k l. msgs \<in> shuffles (items_of (stake k rx1)) (items_of (stake l rx2))
    \<and> strong (messages h) = sdrop k rx1 \<and> weak (messages h) = sdrop l rx2
    \<and> feed_of h = fold feed_step msgs feed_new"
  using handler_run_fed[OF assms] .

definition demo_client_handle :: client_handle where
  "demo_client_handle = \<lparr>client_handle_tx = (\<lambda>_. Pending (Resolved (Inr ())))\<rparr>"

text \<open>A subscription, a value for it, and its end.\<close>

definition demo_feed :: notification_handler where
  "demo_feed = notification_handler_new ''news'' queueing_handle demo_client_handle ''unsubscribe''
     (Inr (Ready (Some (NewMessage \<lparr>subscription = Sub_Num 5, sub_result = JNull\<rparr>))) ## sconst (Inr NotReady))
     (Inr (Ready (Some (NewSubscriber (Sub_Num 5) (\<lambda>_. Resolved (Inr ())))))
        ## Inr NotReady ## Inr NotReady ## Inr (Ready (Some (RemoveSubscriber (Sub_Num 5)))) ## sconst (Inr NotReady))
     (sconst (1, never))"

lemmas feed_defs = handler_poll_def handler_turn_def ready_for_next_connection_def demo_feed_def
  notification_handler_new_def select_with_weak_def select_poll_eq receiver_poll_def after_loop_def
  handle_new_subscription_def handle_new_message_def Let_def

lemma demo_feed_poll: "\<exists>h. handler_poll demo_feed = Some (Ret NotReady, h)
    \<and> dispatched h = [(Sub_Num 5, JNull)]"
  by (simp add: feed_defs, (subst rust_loop.simps, simp add: feed_defs)+)

theorem handler_refines_feed_witness:
  "\<exists>h msgs. dispatched h = [(Sub_Num 5, JNull)] \<and> feed_of h = fold feed_step msgs feed_new"
proof -
  from demo_feed_poll obtain h where h: "handler_poll demo_feed = Some (Ret NotReady, h)"
    "dispatched h = [(Sub_Num 5, JNull)]" by blast
  from handler_refines_feed[OF handler_run.handler_again[OF handler_run.handler_start h(1)[unfolded demo_feed_def]]]
    h(2) show ?thesis by blast
qed

text \<open>One delivery at a time. While the subscriber (or the unsubscribe call) that the handler is busy
  with does not get on, a poll takes no message and disturbs no subscription; so a subscriber that
  does not read its channel holds up every other subscription to the same notification.\<close>

lemma one_delivery_at_a_time:
  assumes "current_future h = Some (Pending f)"
  shows "handler_poll h = Some (if should_stop h then Ret (Ready ()) else Ret NotReady, h\<lparr>current_future := Some f\<rparr>)"
  unfolding handler_poll_def
  by (rule rust_loop_Return) (simp add: handler_turn_def ready_for_next_connection_def after_loop_def assms)

lemma unsubscribe_future:
  "current_future (handle_removal i h) =
     Some (map_err (\<lambda>_. ()) (map_ok (\<lambda>_. ())
       (send_client_call from_bool (handler_client h)
          (Inr (Msg_RpcCall (unsub_method h) (Some (Params_Array [])) (fst (shd (oneshots h)))))
          (snd (shd (oneshots h))))))"
  by (simp add: handle_removal_def Let_def call_method_def empty_slice_def serialize_parameters_def
      split: prod.split)

text \<open>The call with which the handler ends a subscription at the remote end does not say which
  subscription: it is the same call for every id, the unsubscribe method with an empty list of
  parameters.\<close>

lemma unsubscribe_omits_id:
  "current_future (handle_removal i h) = current_future (handle_removal j h)
   \<and> current_future (handle_removal i h) =
     Some (map_err (\<lambda>_. ()) (map_ok (\<lambda>_. ())
       (send_client_call from_bool (handler_client h)
          (Inr (Msg_RpcCall (unsub_method h) (Some (Params_Array [])) (fst (shd (oneshots h)))))
          (snd (shd (oneshots h))))))"
  by (simp add: unsubscribe_future)


definition last_feed :: notification_handler where
  "last_feed = demo_feed\<lparr>subscribers := [(Sub_Num 5, \<lambda>_. Resolved (Inr ()))],
     messages := select_with_weak (sconst (Inr NotReady))
       (Inr (Ready (Some (RemoveSubscriber (Sub_Num 5))))
          ## Inr (Ready (Some (NewSubscriber (Sub_Num 6) (\<lambda>_. Resolved (Inr ()))))) ## sconst (Inr NotReady))\<rparr>"


fun subscription_polls ::
  "(json \<Rightarrow> 'v option) \<Rightarrow> nat \<Rightarrow> subscription_stream \<Rightarrow> ('v option, core_error) poll list \<times> subscription_stream" where
  "subscription_polls from_value 0 s = ([], s)"
| "subscription_polls from_value (Suc n) s =
     (let (a, s1) = subscription_poll from_value s; (as, s2) = subscription_polls from_value n s1 in (a # as, s2))"

fun subscription_result :: "('v option, core_error) poll \<Rightarrow> (core_error + 'v) option" where
  "subscription_result (Inr (Ready (Some v))) = Some (Inr v)"
| "subscription_result (Inl DeserializeError) = Some (Inl DeserializeError)"
| "subscription_result _ = None"

text \<open>A subscription hands out the values of its channel in order, each deserialized, and a value of the
  wrong shape costs only itself: after \<open>n\<close> polls the results it has given are those of the values
  taken from the channel, one by one, with \<open>DeserializeError\<close> for those that do not fit.\<close>

lemma subscription_values:
  "List.map_filter subscription_result (fst (subscription_polls from_value n s)) =
     map (\<lambda>v. case from_value v of None \<Rightarrow> Inl DeserializeError | Some x \<Rightarrow> Inr x)
       (items_of (stake n (value_rx s)))
   \<and> value_rx (snd (subscription_polls from_value n s)) = sdrop n (value_rx s)"
proof (induction n arbitrary: s)
  case (Suc n)
  obtain a s1 where a: "subscription_poll from_value s = (a, s1)" by fastforce
  obtain as s2 where as: "subscription_polls from_value n s1 = (as, s2)" by fastforce
  have "value_rx s1 = stl (value_rx s)
    \<and> List.map_filter subscription_result (a # as) =
      map (\<lambda>v. case from_value v of None \<Rightarrow> Inl DeserializeError | Some x \<Rightarrow> Inr x) (items_of [shd (value_rx s)])
        @ List.map_filter subscription_result as"
    using a by (cases "shd (value_rx s)" rule: poll_cases)
      (auto simp: subscription_poll_def receiver_poll_def List.map_filter_simps split: option.splits)
  moreover have "items_of (stake (Suc n) (value_rx s)) = items_of [shd (value_rx s)] @ items_of (stake n (stl (value_rx s)))"
    unfolding items_of_append[symmetric] by simp
  ultimately show ?case using Suc.IH[of s1] a as by (simp add: Let_def)
qed (simp add: List.map_filter_simps)

section \<open>Subscribing\<close>

lemma wait_resolves: "resolves_within n f r \<Longrightarrow> wait f = Some r"
proof (induction n arbitrary: f)
  case 0
  then show ?case by (cases f) (auto simp: wait.simps)
next
  case (Suc n)
  then show ?case by (cases f) (auto simp: wait.simps)
qed

text \<open>The control channel that \<open>subscribe\<close> will use when the notification is known already.\<close>

lemma second_subscription_chan:
  assumes "map_of (notification_handlers s) method = Some c"
    and "resolves_within n (server_handle_tx (sub_handlers s) (AddHandler method h (fst (env_add env)))) (Inr ())"
    and "h = Handler_Notification (forward_notification parse (env_msg_tx env))"
    and "resolves_within m (snd (env_add env)) (Inr (fst (handlers_add registered method h)))"
    and "method \<in> dom registered" and "gives_back (sub_handlers s)"
  shows "subscribe_chan is_closed parse env method unsub s =
    (if is_closed c then Some (Ret (c, None), s)
     else Some (Raise (HandlerError (HandlerSettingError h AlreadyExists)), s))"
proof -
  have "resolves_within (n + m) (server_handle_add (sub_handlers s) method h (fst (env_add env)) (snd (env_add env)))
      (Inl (Err (HandlerSettingError h AlreadyExists)))"
    using add_outcome[OF assms(6,2,4)] assms(5) by (simp add: handlers_add_def)
  from wait_resolves[OF this] assms(1,3) show ?thesis
    by (simp add: subscribe_chan_def spawn_notification_handler_def)
qed

text \<open>C36: A second subscription to the same notification. When \<open>subscribe\<close> is asked for a notification
  that already has a handler whose control channel is open, it tries to install a second callback, is
  refused with \<open>AlreadyExists\<close> because the first one is still registered, and the future it gives fails with that
  error without having called the remote end. A channel that is closed, on the other hand, is used again and no
  handler is started for it.\<close>

theorem second_subscription:
  assumes "map_of (notification_handlers s) method = Some c"
    and "resolves_within n (server_handle_tx (sub_handlers s) (AddHandler method h (fst (env_add env)))) (Inr ())"
    and "h = Handler_Notification (forward_notification parse (env_msg_tx env))"
    and "resolves_within m (snd (env_add env)) (Inr (fst (handlers_add registered method h)))"
    and "method \<in> dom registered" and "gives_back (sub_handlers s)"
  shows "subscribe is_closed parse env to_value from_id sub_method unsub method sub_tx sub_rx p oneshot s =
    (if is_closed c
     then Some (Ret (map_ok (\<lambda>(stream, msg). (stream, c, msg))
                       (subscribe_future to_value from_id s sub_method p sub_tx sub_rx oneshot), None), s)
     else Some (Ret (Resolved (Inl (HandlerError (HandlerSettingError h AlreadyExists))), None), s))"
  using second_subscription_chan[OF assms, of is_closed unsub] by (simp add: subscribe_def)

definition demo_subscriber :: subscriber where
  "demo_subscriber = \<lparr>sub_client = demo_client_handle, sub_handlers = queueing_handle,
     notification_handlers = [(''news'', 3)]\<rparr>"

definition demo_parse :: "params \<Rightarrow> subscription_message option" where
  "demo_parse ps = None"

definition demo_env :: "handler_setting_error + unit \<Rightarrow> spawn_env" where
  "demo_env r = \<lparr>env_msg_tx = (\<lambda>_. Resolved (Inr ())), env_msg_rx = sconst (Inr NotReady), env_control = 4,
     env_control_rx = sconst (Inr NotReady), env_add = (1, Pending (Resolved (Inr r))), env_oneshots = sconst (2, never), env_executes = True\<rparr>"

definition demo_forward :: handler where
  "demo_forward = Handler_Notification (forward_notification demo_parse (\<lambda>_. Resolved (Inr ())))"

lemma gives_back_queueing [simp]:
  "gives_back queueing_handle" "gives_back \<lparr>server_handle_tx = (\<lambda>_. Pending (Resolved (Inr ())))\<rparr>"
  by (auto simp: gives_back_def queueing_handle_def)

fun id_value :: "json \<Rightarrow> subscription_id option" where
  "id_value (JNumber (U64 w)) = Some (Sub_Num w)"
| "id_value (JString t) = Some (Sub_String t)"
| "id_value _ = None"

theorem second_subscription_witness:
  "subscribe (\<lambda>_. False) demo_parse (demo_env (Inl (HandlerSettingError demo_forward AlreadyExists))) Some id_value
     ''subscribe'' ''unsubscribe'' ''news'' (\<lambda>_. never) (sconst (Inr NotReady)) (JString ''x'') (1, never) demo_subscriber
   = Some (Ret (Resolved (Inl (HandlerError (HandlerSettingError demo_forward AlreadyExists))), None), demo_subscriber)"
proof -
  let ?env = "demo_env (Inl (HandlerSettingError demo_forward AlreadyExists))"
  have "map_of (notification_handlers demo_subscriber) ''news'' = Some 3"
    and "resolves_within 1 (server_handle_tx (sub_handlers demo_subscriber)
          (AddHandler ''news'' demo_forward (fst (env_add ?env)))) (Inr ())"
    and "demo_forward = Handler_Notification (forward_notification demo_parse (env_msg_tx ?env))"
    and "resolves_within 1 (snd (env_add ?env)) (Inr (fst (handlers_add [''news'' \<mapsto> demo_forward] ''news'' demo_forward)))"
    and "''news'' \<in> dom [''news'' \<mapsto> demo_forward]" and "gives_back (sub_handlers demo_subscriber)"
    by (simp_all add: demo_subscriber_def queueing_handle_def demo_env_def demo_forward_def handlers_add_def)
  from second_subscription[OF this, of "\<lambda>_. False" Some id_value] show ?thesis by simp
qed

text \<open>The first subscription to a notification sets up its handler: the server half gets the callback that
  forwards the messages, a new notification handler without subscriptions is started on the two new
  channels, and its control channel is remembered under the notification's name, the others
  unchanged.\<close>

lemma first_subscription:
  assumes "map_of (notification_handlers s) method = None" and "env_executes env"
    and "resolves_within n (server_handle_tx (sub_handlers s) (AddHandler method h (fst (env_add env)))) (Inr ())"
    and "h = Handler_Notification (forward_notification parse (env_msg_tx env))"
    and "resolves_within m (snd (env_add env)) (Inr (fst (handlers_add registered method h)))"
    and "method \<notin> dom registered" and "gives_back (sub_handlers s)"
  shows "\<exists>s'. subscribe_chan is_closed parse env method unsub s =
      Some (Ret (env_control env, Some (notification_handler_new method (sub_handlers s) (sub_client s) unsub (env_msg_rx env)
        (env_control_rx env) (env_oneshots env))), s')
    \<and> map_of (notification_handlers s') = (map_of (notification_handlers s))(method \<mapsto> env_control env)
    \<and> sub_client s' = sub_client s"
proof -
  have "resolves_within (n + m) (server_handle_add (sub_handlers s) method h (fst (env_add env)) (snd (env_add env)))
      (Inr ())"
    using add_outcome[OF assms(7,3,5)] assms(6) by (simp add: handlers_add_def)
  from wait_resolves[OF this] assms(1,2,4) show ?thesis
    by (simp add: subscribe_chan_def spawn_notification_handler_def)
qed

lemma first_subscription_example:
  "\<exists>s'. subscribe_chan (\<lambda>_. False) demo_parse (demo_env (Inr ())) ''alerts'' ''unsubscribe'' demo_subscriber =
      Some (Ret (4, Some (notification_handler_new ''alerts'' queueing_handle demo_client_handle ''unsubscribe'' (sconst (Inr NotReady))
        (sconst (Inr NotReady)) (sconst (2, never)))), s')
    \<and> map_of (notification_handlers s') = [''news'' \<mapsto> 3, ''alerts'' \<mapsto> 4]"
proof -
  let ?env = "demo_env (Inr ())"
  have "map_of (notification_handlers demo_subscriber) ''alerts'' = None" and "env_executes ?env"
    and "resolves_within 1 (server_handle_tx (sub_handlers demo_subscriber)
          (AddHandler ''alerts'' demo_forward (fst (env_add ?env)))) (Inr ())"
    and "demo_forward = Handler_Notification (forward_notification demo_parse (env_msg_tx ?env))"
    and "resolves_within 1 (snd (env_add ?env)) (Inr (fst (handlers_add Map.empty ''alerts'' demo_forward)))"
    and "''alerts'' \<notin> dom (Map.empty :: handlers)" and "gives_back (sub_handlers demo_subscriber)"
    by (simp_all add: demo_subscriber_def queueing_handle_def demo_env_def demo_forward_def handlers_add_def)
  from first_subscription[OF this, of "\<lambda>_. False" "''unsubscribe''"] show ?thesis
    by (auto simp: demo_subscriber_def demo_env_def)
qed

text \<open>A subscription that is granted is registered under the id the remote end has chosen: when the
  subscribe call is answered with an id, the future of \<open>subscribe\<close> resolves, at most as many polls later
  as that call takes, to a subscription on the new value channel that carries this id, together with
  the message that registers the channel under the same id; any other outcome of the call is the
  error of \<open>subscribe\<close>.\<close>

lemma subscribe_outcome:
  assumes "serialize_parameters to_value p = Inr ps"
    and "resolves_within n (client_handle_tx (sub_client s) (Msg_RpcCall sub_method ps (fst chan))) sent"
    and "resolves_within m (snd chan) answer"
  shows "resolves_within (n + m) (subscribe_future to_value from_id s sub_method p sub_tx sub_rx chan)
    (case call_outcome from_id sent answer of
       Inl e \<Rightarrow> Inl (Core e)
     | Inr i \<Rightarrow> Inr (\<lparr>value_rx = sub_rx, sub_id = Some i, handler_chan_sent = []\<rparr>, NewSubscriber i sub_tx))"
proof -
  have "resolves_within (n + m) (call_method to_value from_id (sub_client s) sub_method p (fst chan) (snd chan))
      (call_outcome from_id sent answer)"
    using send_client_call_outcome[OF assms(2,3)] by (simp add: call_method_def assms(1))
  from resolves_within_map_ok[OF resolves_within_map_err[OF this, of Core],
      of "\<lambda>i. (\<lparr>value_rx = sub_rx, sub_id = Some i, handler_chan_sent = []\<rparr>, NewSubscriber i sub_tx)"]
  show ?thesis
    unfolding subscribe_future_def by (cases "call_outcome from_id sent answer") simp_all
qed

lemma subscribe_outcome_example:
  "resolves_within 2 (subscribe_future Some id_value demo_subscriber ''subscribe'' (JString ''x'') (\<lambda>_. never)
      (sconst (Inr NotReady)) (1, Pending (Resolved (Inr (Inr (JString ''0xcd''))))))
     (Inr (\<lparr>value_rx = sconst (Inr NotReady), sub_id = Some (Sub_String ''0xcd''), handler_chan_sent = []\<rparr>,
           NewSubscriber (Sub_String ''0xcd'') (\<lambda>_. never)))"
  using subscribe_outcome[of Some "JString ''x''" "Some (Params_Array [JString ''x''])" 1 demo_subscriber "''subscribe''"
      "(1, Pending (Resolved (Inr (Inr (JString ''0xcd'')))))" "Inr ()" 1 "Inr (Inr (JString ''0xcd''))" id_value
      "\<lambda>_. never" "sconst (Inr NotReady)"]
  by (simp add: serialize_parameters_def demo_subscriber_def demo_client_handle_def numeral_2_eq_2)

text \<open>A first subscription from its call to its registration: the callback is accepted, the new notification handler starts,
  and when the remote end answers the subscribe call with an id, the future resolves to the subscription of this
  id, whose registration goes to the control channel of that handler.\<close>

lemma subscribe_granted:
  assumes "map_of (notification_handlers s) method = None" and "env_executes env"
    and "resolves_within n (server_handle_tx (sub_handlers s) (AddHandler method h (fst (env_add env)))) (Inr ())"
    and "h = Handler_Notification (forward_notification parse (env_msg_tx env))"
    and "resolves_within m (snd (env_add env)) (Inr (fst (handlers_add registered method h)))"
    and "method \<notin> dom registered" and "gives_back (sub_handlers s)"
    and "serialize_parameters to_value p = Inr ps"
    and "resolves_within k (client_handle_tx (sub_client s) (Msg_RpcCall sub_method ps (fst oneshot))) (Inr ())"
    and "resolves_within l (snd oneshot) (Inr (Inr v))" and "from_id v = Some i"
  shows "\<exists>f s'. subscribe is_closed parse env to_value from_id sub_method unsub method sub_tx sub_rx p oneshot s =
      Some (Ret (f, Some (notification_handler_new method (sub_handlers s) (sub_client s) unsub (env_msg_rx env)
        (env_control_rx env) (env_oneshots env))), s')
    \<and> resolves_within (k + l) f (Inr (\<lparr>value_rx = sub_rx, sub_id = Some i, handler_chan_sent = []\<rparr>, env_control env,
        NewSubscriber i sub_tx))"
proof -
  from first_subscription[OF assms(1-7), of is_closed unsub] obtain s' where
    s': "subscribe_chan is_closed parse env method unsub s =
      Some (Ret (env_control env, Some (notification_handler_new method (sub_handlers s) (sub_client s) unsub (env_msg_rx env)
        (env_control_rx env) (env_oneshots env))), s')" "sub_client s' = sub_client s"
    by blast
  have "call_outcome from_id (Inr ()) (Inr (Inr v)) = Inr i" using assms(11) by simp
  with subscribe_outcome[OF assms(8), of k s' sub_method oneshot "Inr ()" l "Inr (Inr v)" from_id sub_tx sub_rx] assms(9,10) s'(2)
  have "resolves_within (k + l) (subscribe_future to_value from_id s' sub_method p sub_tx sub_rx oneshot)
    (Inr (\<lparr>value_rx = sub_rx, sub_id = Some i, handler_chan_sent = []\<rparr>, NewSubscriber i sub_tx))"
    by simp
  from resolves_within_map_ok[OF this, of "\<lambda>(stream, msg). (stream, env_control env, msg)"] s'(1) show ?thesis
    by (simp add: subscribe_def)
qed

end
