(* ===== verification/Subscription_Life.thy ===== *)
theory Subscription_Life
  imports Pubsub
begin

text \<open>
  A subscription from end to end: the notification handler returns from every poll, and what a subscriber
  reads is decided by the messages of the notification alone.
\<close>

section \<open>A poll of the notification handler returns\<close>

lemma handler_turn_continues:
  assumes "handler_turn h = (Continue, h')"
  shows "\<exists>msg. select_poll receiver_poll receiver_poll (messages h) = (Inr (Ready (Some msg)), messages h')"
proof -
  obtain b h1 where r: "ready_for_next_connection h = (b, h1)" by fastforce
  from ready_frame[OF r] have m: "messages h1 = messages h" by simp
  obtain a q where a: "select_poll receiver_poll receiver_poll (messages h) = (a, q)" by fastforce
  have keeps: "messages (handle_subscriber_msg msg (h1\<lparr>messages := q\<rparr>)) = q" for msg
    by (cases msg) (auto simp: handle_new_message_def handle_new_subscription_def handle_removal_def Let_def
        split: option.split prod.split)
  show ?thesis
  proof (cases a rule: poll_cases)
    case (item msg)
    with assms r a m keeps show ?thesis by (cases b) (auto simp: handler_turn_def)
  qed (use assms r a m in \<open>cases b; auto simp: handler_turn_def\<close>)+
qed

lemma handler_turn_leaves:
  assumes "handler_turn h = (Return r, h')"
  shows "r = Ret NotReady \<or> r = Ret (Ready ()) \<or>
    (r = Raise () \<and> (\<exists>q. select_poll receiver_poll receiver_poll (messages h) = (Inl (), q)))"
proof -
  obtain b h1 where b: "ready_for_next_connection h = (b, h1)" by fastforce
  from ready_frame[OF b] have m: "messages h1 = messages h" by simp
  obtain a q where a: "select_poll receiver_poll receiver_poll (messages h) = (a, q)" by fastforce
  show ?thesis
    using assms b a m
    by (cases b; cases a rule: poll_cases) (auto simp: handler_turn_def after_loop_def split: if_splits)
qed

lemma handler_turn_frame:
  assumes "handler_turn h = (f, h')"
  shows "messages h' = messages h \<or> messages h' = snd (select_poll receiver_poll receiver_poll (messages h))"
proof -
  obtain b h1 where r: "ready_for_next_connection h = (b, h1)" by fastforce
  from ready_frame[OF r] have m: "messages h1 = messages h" by simp
  obtain a q where a: "select_poll receiver_poll receiver_poll (messages h) = (a, q)" by fastforce
  have keeps: "messages (handle_subscriber_msg msg (h1\<lparr>messages := q\<rparr>)) = q" for msg
    by (cases msg) (auto simp: handle_new_message_def handle_new_subscription_def handle_removal_def Let_def
        split: option.split prod.split)
  show ?thesis
    using assms r a m keeps by (cases b; cases a rule: poll_cases) (auto simp: handler_turn_def)
qed

lemma handler_turn_queue:
  assumes "queue_ok (messages h)" "handler_turn h = (f, h')"
  shows "queue_ok (messages h') \<and> (\<forall>r. f = Return r \<longrightarrow> r \<in> {Ret NotReady, Ret (Ready ())})"
proof -
  obtain a q where a: "select_poll receiver_poll receiver_poll (messages h) = (a, q)" by fastforce
  from queue_ok_poll[OF assms(1) a] handler_turn_frame[OF assms(2)] handler_turn_leaves assms a show ?thesis
    by fastforce
qed

lemma handler_poll_returns:
  assumes "queue_ok (messages h)"
  shows "\<exists>r h'. handler_poll h = Some (r, h') \<and> r \<in> {Ret NotReady, Ret (Ready ())} \<and> queue_ok (messages h')"
proof -
  have "\<exists>res. rust_loop handler_turn h = Some res"
  proof (rule two_channels.merged.drain_returns[where I = "\<lambda>h. queue_ok (messages h)" and src = messages])
    show "finitely_many (strong (messages h)) \<and> finitely_many (weak (messages h))"
      using assms by (simp add: queue_ok_def)
    fix d d' assume "queue_ok (messages d)" "handler_turn d = (Continue, d')"
    with handler_turn_queue handler_turn_continues show "queue_ok (messages d') \<and>
        (\<exists>i s'. select_poll receiver_poll receiver_poll (messages d) = (Inr (Ready (Some i)), s') \<and> messages d' = s')"
      by metis
  qed (rule assms)
  then obtain r h' where loop: "rust_loop handler_turn h = Some (r, h')" by auto
  have "r \<in> {Ret NotReady, Ret (Ready ())} \<and> queue_ok (messages h')"
    by (rule rust_loop_invariant[OF loop, where I = "\<lambda>h. queue_ok (messages h)"]) (use assms handler_turn_queue in blast)+
  with loop show ?thesis by (simp add: handler_poll_def)
qed

text \<open>C28: Every poll of a notification handler returns, and without a panic or an error, however the deliveries,
  the unsubscribe calls and the two channels interleave, as long as finitely many messages arrive and the
  channels do not fail; and what it leaves can be polled again.\<close>

theorem handler_poll_total:
  assumes "queue_ok (messages h)"
  shows "\<exists>r h'. handler_poll h = Some (r, h') \<and> r \<in> {Ret NotReady, Ret (Ready ())} \<and> queue_ok (messages h')"
  by (rule handler_poll_returns[OF assms])

theorem handler_poll_total_witness:
  "\<exists>r h'. handler_poll demo_feed = Some (r, h') \<and> r \<in> {Ret NotReady, Ret (Ready ())} \<and> queue_ok (messages h')"
  by (rule handler_poll_total)
    (simp add: demo_feed_def notification_handler_new_def select_with_weak_def queue_ok_def is_item_def)

section \<open>What a subscriber reads\<close>

text \<open>
  The values for a subscription among the messages of its notification: those that arrive while it exists.
\<close>

fun feed_values :: "subscription_id \<Rightarrow> bool \<Rightarrow> subscriber_msg list \<Rightarrow> json list" where
  "feed_values i active [] = []"
| "feed_values i active (NewMessage m # msgs) =
     (if active \<and> subscription m = i then sub_result m # feed_values i active msgs else feed_values i active msgs)"
| "feed_values i active (NewSubscriber j _ # msgs) = feed_values i (active \<or> j = i) msgs"
| "feed_values i active (RemoveSubscriber j # msgs) = feed_values i (active \<and> j \<noteq> i) msgs"

definition values_for :: "subscription_id \<Rightarrow> (subscription_id \<times> json) list \<Rightarrow> json list" where
  "values_for i out = map snd (filter (\<lambda>(j, _). j = i) out)"

lemma values_for_simps [simp]:
  "values_for i [] = []" "values_for i (xs @ ys) = values_for i xs @ values_for i ys"
  "values_for i [(j, v)] = (if j = i then [v] else [])"
  by (simp_all add: values_for_def)

lemma fold_feed_values:
  "values_for i (fd_dispatched (fold feed_step msgs f)) =
     values_for i (fd_dispatched f) @ feed_values i (i \<in> dom (fd_subscribers f)) msgs"
proof (induction msgs arbitrary: f)
  case (Cons msg msgs)
  show ?case
  proof (cases msg)
    case (NewMessage m)
    with Cons show ?thesis by (cases "subscription m \<in> dom (fd_subscribers f)") auto
  next
    case (NewSubscriber j chan)
    have "i \<in> dom ((fd_subscribers f)(j \<mapsto> chan)) \<longleftrightarrow> i \<in> dom (fd_subscribers f) \<or> j = i" by auto
    with Cons NewSubscriber show ?thesis by (simp del: fun_upd_apply dom_fun_upd)
  next
    case (RemoveSubscriber j)
    have "i \<in> dom ((fd_subscribers f)(j := None)) \<longleftrightarrow> i \<in> dom (fd_subscribers f) \<and> j \<noteq> i" by auto
    with Cons RemoveSubscriber show ?thesis by (simp del: fun_upd_apply dom_fun_upd)
  qed
qed simp

text \<open>A subscriber reads exactly the values that are meant for it. Whatever the notification handler has done so
  far, there is an interleaving of what its two channels delivered such that the results the subscription
  has given are, in order and each deserialized, a first part of the values that this interleaving holds
  for its id between its registration and its removal: no value of another subscription, none from before
  or after, none twice, and none skipped, a value of the wrong shape costing only itself.\<close>

lemma subscription_reads:
  assumes "handler_run (notification_handler_new method handlers client unsub rx1 rx2 chans) r h"
    and "delivers_in_order (value_rx s) (values_for i (dispatched h))"
  shows "\<exists>msgs k l j. msgs \<in> shuffles (items_of (stake k rx1)) (items_of (stake l rx2))
    \<and> List.map_filter subscription_result (fst (subscription_polls from_value n s)) =
      map (\<lambda>v. case from_value v of None \<Rightarrow> Inl DeserializeError | Some x \<Rightarrow> Inr x)
        (take j (feed_values i False msgs))"
proof -
  from handler_run_fed[OF assms(1)] obtain msgs k l where
    msgs: "msgs \<in> shuffles (items_of (stake k rx1)) (items_of (stake l rx2))" "feed_of h = fold feed_step msgs feed_new"
    by blast
  from msgs(2) have "dispatched h = fd_dispatched (fold feed_step msgs feed_new)" by (metis feed.select_convs(2) feed_of_def)
  then have "values_for i (dispatched h) = feed_values i False msgs"
    by (simp add: fold_feed_values feed_new_def)
  moreover from assms(2) obtain j where "items_of (stake n (value_rx s)) = take j (values_for i (dispatched h))"
    using delivers_in_orderD by blast
  ultimately show ?thesis using msgs(1) subscription_values[of from_value n s] by metis
qed

text \<open>The subscriber of the example, whose channel has delivered the value.\<close>

definition demo_subscription :: subscription_stream where
  "demo_subscription = \<lparr>value_rx = Inr (Ready (Some JNull)) ## sconst (Inr NotReady), sub_id = Some (Sub_Num 5),
     handler_chan_sent = []\<rparr>"

lemma subscription_reads_example:
  "\<exists>msgs j. List.map_filter subscription_result (fst (subscription_polls from_bool 1 demo_subscription)) =
     map (\<lambda>v. case from_bool v of None \<Rightarrow> Inl DeserializeError | Some x \<Rightarrow> Inr x) (take j (feed_values (Sub_Num 5) False msgs))
     \<and> List.map_filter subscription_result (fst (subscription_polls from_bool 1 demo_subscription)) = [Inl DeserializeError]"
proof -
  from demo_feed_poll obtain h where h: "handler_poll demo_feed = Some (Ret NotReady, h)"
    "dispatched h = [(Sub_Num 5, JNull)]" by blast
  have "delivers_in_order (value_rx demo_subscription) (values_for (Sub_Num 5) (dispatched h))"
    by (simp add: demo_subscription_def h(2) delivers_one)
  from subscription_reads[OF handler_run.handler_again[OF handler_run.handler_start h(1)[unfolded demo_feed_def]] this,
      of from_bool 1]
  have "\<exists>msgs j. List.map_filter subscription_result (fst (subscription_polls from_bool 1 demo_subscription)) =
      map (\<lambda>v. case from_bool v of None \<Rightarrow> Inl DeserializeError | Some x \<Rightarrow> Inr x) (take j (feed_values (Sub_Num 5) False msgs))"
    by blast
  moreover have "List.map_filter subscription_result (fst (subscription_polls from_bool 1 demo_subscription)) = [Inl DeserializeError]"
    by (simp add: demo_subscription_def subscription_poll_def receiver_poll_def List.map_filter_simps)
  ultimately show ?thesis by simp
qed

end
