(* ===== verification/Feed_Delivery.thy ===== *)
theory Feed_Delivery
  imports Subscription_Life
begin

text \<open>
  Progress of a notification handler: as long as the subscribers take their values and the unsubscribe calls
  settle, it catches up with its two channels, within a number of polls that is known beforehand.
\<close>

section \<open>Polling on\<close>

text \<open>Polling at most \<open>n\<close> times, until the handler resolves.\<close>

fun handler_polls ::
  "nat \<Rightarrow> notification_handler \<Rightarrow> ((unit async, unit) outcome \<times> notification_handler) option" where
  "handler_polls 0 h = Some (Ret NotReady, h)"
| "handler_polls (Suc n) h =
     (case handler_poll h of
        Some (Ret NotReady, h) \<Rightarrow> handler_polls n h
      | other \<Rightarrow> other)"

lemma handler_polls_run:
  assumes "handler_polls n h = Some (r, h')" "handler_run h0 (Ret NotReady) h"
  shows "handler_run h0 r h'"
  using assms
proof (induction n arbitrary: h)
  case (Suc n)
  from Suc.prems(1) obtain q h1 where q: "handler_poll h = Some (q, h1)" by (auto split: option.splits)
  with Suc show ?case
    by (cases "q = Ret NotReady") (auto intro: handler_run.handler_again split: outcome.splits async.splits)
qed simp

section \<open>What the handler waits for\<close>

text \<open>
  The sender of a subscriber takes every value within \<open>k\<close> polls, and so does the unsubscribe call that the handler
  makes with a one-shot channel: the sending of the call and the answer on the channel.
\<close>

definition takes_values :: "nat \<Rightarrow> value_sender \<Rightarrow> bool" where
  "takes_values k chan \<longleftrightarrow> (\<forall>v. \<exists>r. resolves_within k (chan v) r)"

definition subscribes_with :: "(value_sender \<Rightarrow> bool) \<Rightarrow> subscriber_msg \<Rightarrow> bool" where
  "subscribes_with P msg \<longleftrightarrow> (\<forall>i chan. msg = NewSubscriber i chan \<longrightarrow> P chan)"

definition unsubscribes :: "nat \<Rightarrow> client_handle \<Rightarrow> string \<Rightarrow> completion \<times> (core_error + json, unit) fut \<Rightarrow> bool" where
  "unsubscribes k client unsub chan \<longleftrightarrow>
     (\<exists>m n s a. m + n \<le> k \<and> resolves_within n (snd chan) a
        \<and> resolves_within m (client_handle_tx client (Msg_RpcCall unsub (Some (Params_Array [])) (fst chan))) s)"

definition settling :: "nat \<Rightarrow> notification_handler \<Rightarrow> bool" where
  "settling k h \<longleftrightarrow>
     (\<forall>chan \<in> ran (map_of (subscribers h)). takes_values k chan)
     \<and> carries (subscribes_with (takes_values k)) (strong (messages h))
     \<and> carries (subscribes_with (takes_values k)) (weak (messages h))
     \<and> (\<forall>chan \<in> sset (oneshots h). unsubscribes k (handler_client h) (unsub_method h) chan)"

definition busy_for :: "nat \<Rightarrow> notification_handler \<Rightarrow> bool" where
  "busy_for j h \<longleftrightarrow> (\<forall>f. current_future h = Some f \<longrightarrow> (\<exists>r. resolves_within j f r))"

text \<open>Every delivery and every unsubscribe call that was started is finished, except for the one in progress.\<close>

definition accounted :: "notification_handler \<Rightarrow> bool" where
  "accounted h \<longleftrightarrow>
     finished h + (case current_future h of None \<Rightarrow> 0 | Some _ \<Rightarrow> 1) = length (dispatched h) + length (unsubscribed h)"

text \<open>Channels that run dry, and that neither fail nor end.\<close>

definition channels_open :: "('a receiver, 'a receiver) select_with_weak \<Rightarrow> bool" where
  "channels_open q \<longleftrightarrow> queue_ok q \<and> weak_open q \<and> Inr (Ready None) \<notin> sset (strong q)"

definition backlog :: "notification_handler \<Rightarrow> nat" where
  "backlog h = pending_items (strong (messages h)) + pending_items (weak (messages h))"

lemma unsubscribe_settles:
  assumes "unsubscribes k client unsub (tx, rx)"
  shows "\<exists>r. resolves_within k (map_err (\<lambda>_. ()) (map_ok (\<lambda>_. ()) (call_method empty_slice from_bool client unsub () tx rx))) r"
proof -
  from assms obtain m n s a where s: "m + n \<le> k" "resolves_within n rx a"
    "resolves_within m (client_handle_tx client (Msg_RpcCall unsub (Some (Params_Array [])) tx)) s"
    by (auto simp: unsubscribes_def)
  have "resolves_within (m + n) (call_method empty_slice from_bool client unsub () tx rx) (call_outcome from_bool s a)"
    using send_client_call_outcome[OF s(3,2)] by (simp add: call_method_def serialize_parameters_def empty_slice_def)
  from resolves_within_map_err[OF resolves_within_map_ok[OF resolves_within_mono[OF this s(1)]]] show ?thesis by blast
qed

section \<open>One turn\<close>

lemma open_poll:
  assumes "channels_open q" "select_poll receiver_poll receiver_poll q = (a, q')"
  shows "channels_open q' \<and> (a = Inr NotReady \<or> is_item a)"
proof -
  have "Inr (Ready None) \<notin> sset (strong q')" "a \<noteq> Inr (Ready None)"
    using assms select_ends(1)[OF assms(2)] select_end_and_idle[of receiver_poll receiver_poll q] shd_sset[of "strong q"]
    by (auto simp: channels_open_def receiver_poll_def dest: sset_stl_subset)
  with assms queue_ok_poll[of q a q'] weak_open_poll[of q a q'] show ?thesis
    by (cases a rule: poll_cases) (auto simp: channels_open_def is_item_def)
qed

lemma ready_cases:
  obtains (busy) g where "ready_for_next_connection h = (False, h\<lparr>current_future := Some g\<rparr>)" "current_future h = Some (Pending g)"
  | (free) "ready_for_next_connection h = (True, h\<lparr>current_future := None, finished := (case current_future h of
      None \<Rightarrow> finished h | Some _ \<Rightarrow> Suc (finished h))\<rparr>)"
proof (cases "current_future h")
  case None
  then have "ready_for_next_connection h = (True, h\<lparr>current_future := None, finished := finished h\<rparr>)"
    by (cases h) (simp add: ready_for_next_connection_def)
  with None free show thesis by simp
next
  case (Some f)
  with busy free show thesis
    by (cases f) (simp_all add: ready_for_next_connection_def poll_fut_def split: sum.splits)
qed

text \<open>The handler, ready for the next message, with its channels in the state \<open>q\<close>.\<close>

definition freed :: "(subscriber_msg receiver, subscriber_msg receiver) select_with_weak \<Rightarrow> notification_handler \<Rightarrow> notification_handler" where
  "freed q h = h\<lparr>current_future := None,
     finished := (case current_future h of None \<Rightarrow> finished h | Some _ \<Rightarrow> Suc (finished h)), messages := q\<rparr>"

lemma freed_simps [simp]:
  "current_future (freed q h) = None" "messages (freed q h) = q" "subscribers (freed q h) = subscribers h"
  "should_stop (freed q h) = should_stop h" "feed_of (freed q h) = feed_of h"
  "accounted h \<Longrightarrow> accounted (freed q h)"
  by (simp_all add: freed_def feed_of_def accounted_def split: option.splits)

lemma handler_turn_cases:
  assumes "handler_turn h = (f, h')" "channels_open (messages h)"
  obtains (busy) g where "f = Return (after_loop h')" "current_future h = Some (Pending g)" "h' = h\<lparr>current_future := Some g\<rparr>"
  | (idle) q where "f = Return (after_loop h')" "select_poll receiver_poll receiver_poll (messages h) = (Inr NotReady, q)"
      "h' = freed q h"
  | (msg) msg q where "f = Continue" "select_poll receiver_poll receiver_poll (messages h) = (Inr (Ready (Some msg)), q)"
      "h' = handle_subscriber_msg msg (freed q h)"
proof (cases h rule: ready_cases)
  case (busy g)
  with assms(1) have "f = Return (after_loop h')" "h' = h\<lparr>current_future := Some g\<rparr>"
    by (auto simp: handler_turn_def)
  with busy(2) that(1) show thesis by blast
next
  case free
  obtain a q where a: "select_poll receiver_poll receiver_poll (messages h) = (a, q)" by fastforce
  with open_poll[OF assms(2) a] free assms(1) that(2,3) show thesis
    by (auto simp: handler_turn_def is_item_def after_loop_def freed_def)
qed

lemma select_carries:
  assumes "select_poll receiver_poll receiver_poll q = (a, q')" "carries M (strong q)" "carries M (weak q)"
  shows "carries M (strong q') \<and> carries M (weak q') \<and> (\<forall>msg. a = Inr (Ready (Some msg)) \<longrightarrow> M msg)"
proof -
  have "M msg" if "a = Inr (Ready (Some msg))" for msg
    using assms(1) that carries_shd[OF assms(2)] carries_shd[OF assms(3)]
    by (cases rule: select_cases) (auto simp: receiver_poll_def)
  moreover have "strong q' \<in> {strong q, stl (strong q)}" "weak q' \<in> {weak q, stl (weak q)}"
    using select_ends[OF assms(1)] by (simp_all add: receiver_poll_def)
  ultimately show ?thesis using assms(2,3) carries_stl[of M "strong q"] carries_stl[of M "weak q"] by auto
qed

lemma handle_msg_settling:
  assumes "settling k h" "subscribes_with (takes_values k) msg"
  shows "settling k (handle_subscriber_msg msg h)"
  using assms
  by (cases msg)
    (auto simp: settling_def subscribes_with_def handle_new_message_def handle_new_subscription_def handle_removal_def Let_def
      ran_def simp del: map_of_eq_Some_iff dest: sset_stl_subset split: option.split prod.split if_splits)

lemma handle_msg_accounted:
  "accounted h \<Longrightarrow> current_future h = None \<Longrightarrow> accounted (handle_subscriber_msg msg h)"
  by (cases msg)
    (auto simp: accounted_def handle_new_message_def handle_new_subscription_def handle_removal_def Let_def
      split: option.split prod.split)

lemma handle_msg_busy:
  assumes "settling k h" "current_future h = None"
  shows "busy_for k (handle_subscriber_msg msg h)"
proof (cases msg)
  case (NewMessage m)
  with assms show ?thesis
    by (auto simp: busy_for_def handle_new_message_def settling_def takes_values_def ran_def split: option.splits)
next
  case (NewSubscriber i chan)
  with assms(2) show ?thesis by (simp add: busy_for_def handle_new_subscription_def)
next
  case (RemoveSubscriber i)
  obtain tx rx where chan: "shd (oneshots h) = (tx, rx)" by fastforce
  with shd_sset[of "oneshots h"] assms(1) have "unsubscribes k (handler_client h) (unsub_method h) (tx, rx)"
    by (auto simp: settling_def)
  from unsubscribe_settles[OF this] RemoveSubscriber chan show ?thesis
    by (simp add: busy_for_def handle_removal_def Let_def)
qed

lemma settling_frame:
  assumes "settling k h" "carries (subscribes_with (takes_values k)) (strong q)" "carries (subscribes_with (takes_values k)) (weak q)"
  shows "settling k (freed q h)"
  using assms by (simp add: settling_def freed_def)

text \<open>A handler that is kept going: what holds between the turns.\<close>

definition live_feed :: "nat \<Rightarrow> notification_handler \<Rightarrow> bool" where
  "live_feed k h \<longleftrightarrow> settling k h \<and> channels_open (messages h) \<and> btree_ok (subscribers h) \<and> accounted h"

lemma turn_live:
  assumes "live_feed k h" "handler_turn h = (f, h')"
  shows "live_feed k h'"
proof -
  let ?M = "subscribes_with (takes_values k)"
  from assms(1) have h: "settling k h" "channels_open (messages h)" "btree_ok (subscribers h)" "accounted h"
    and c: "carries ?M (strong (messages h))" "carries ?M (weak (messages h))"
    by (simp_all add: live_feed_def settling_def)
  from handler_turn_fed[OF h(3) assms(2)] have b: "btree_ok (subscribers h')" by (simp add: fed_def)
  from assms(2) h(2) show ?thesis
  proof (cases rule: handler_turn_cases)
    case (busy g)
    with h show ?thesis by (simp add: live_feed_def settling_def accounted_def)
  next
    case (idle q)
    with h b open_poll[OF h(2) idle(2)] select_carries[OF idle(2) c] show ?thesis
      by (simp add: live_feed_def settling_frame)
  next
    case (msg msg q)
    from select_carries[OF msg(2) c] have "settling k (freed q h)" "?M msg"
      using settling_frame[OF h(1)] by simp_all
    from handle_msg_settling[OF this] open_poll[OF h(2) msg(2)] b msg(3) feed_step_msg[of "freed q h" msg]
      handle_msg_accounted[of "freed q h" msg] h(3,4)
    show ?thesis by (simp add: live_feed_def)
  qed
qed

text \<open>What is still to be done: a message may keep the handler busy for \<open>k\<close> polls.\<close>

definition within :: "nat \<Rightarrow> nat \<Rightarrow> notification_handler \<Rightarrow> bool" where
  "within k b h \<longleftrightarrow> (\<exists>j. busy_for j h \<and> backlog h * Suc k + j \<le> b)"

lemma turn_continues:
  assumes "live_feed k h" "within k b h" "handler_turn h = (Continue, h')"
  shows "within k b h'"
proof -
  from assms(1) have h: "settling k h" "channels_open (messages h)" "btree_ok (subscribers h)"
    by (simp_all add: live_feed_def)
  from assms(3) h(2) obtain msg q where m: "select_poll receiver_poll receiver_poll (messages h) = (Inr (Ready (Some msg)), q)"
    "h' = handle_subscriber_msg msg (freed q h)"
    by (cases rule: handler_turn_cases) auto
  from settling_frame[OF h(1)] select_carries[OF m(1)] h(1) have "settling k (freed q h)"
    by (simp add: settling_def)
  from handle_msg_busy[OF this, of msg] m(2) have "busy_for k h'" by simp
  moreover have "messages h' = q"
    using feed_step_msg[of "freed q h" msg] h(3) m(2) by simp
  with two_channels.merged.item_decreases[OF _ m(1)] h(2) have "Suc (backlog h') \<le> backlog h"
    by (simp add: backlog_def channels_open_def queue_ok_def)
  then have "Suc (backlog h') * Suc k \<le> backlog h * Suc k" by (rule mult_le_mono1)
  ultimately show ?thesis using assms(2) unfolding within_def by (intro exI[of _ k]) auto
qed

text \<open>The end of a poll: the handler has stopped, is waiting for a delivery, or has caught up.\<close>

definition caught_up :: "notification_handler \<Rightarrow> notification_handler \<Rightarrow> bool" where
  "caught_up h h' \<longleftrightarrow> current_future h' = None \<and> accounted h' \<and> feed_of h' = feed_of h
     \<and> select_poll receiver_poll receiver_poll (messages h) = (Inr NotReady, messages h')"

lemma turn_leaves:
  assumes "live_feed k h" "within k b h" "handler_turn h = (Return r, h')"
  shows "r = Ret (Ready ()) \<and> should_stop h' \<or> r = Ret NotReady \<and> (caught_up h h' \<or> (\<exists>c < b. within k c h'))"
proof -
  from assms(1) have "channels_open (messages h)" "accounted h" by (simp_all add: live_feed_def)
  from assms(3) this(1) show ?thesis
  proof (cases rule: handler_turn_cases)
    case (busy g)
    from assms(2) busy(2) obtain j r where "resolves_within (Suc j) (Pending g) r" "backlog h * Suc k + Suc j \<le> b"
      by (auto simp: within_def busy_for_def)
    moreover have "backlog h' = backlog h" by (simp add: backlog_def busy(3))
    ultimately have "busy_for j h'" "backlog h' * Suc k + Suc j \<le> b" using busy(3) by (auto simp: busy_for_def)
    then have "\<exists>c < b. within k c h'" unfolding within_def by (intro exI[of _ "b - 1"]) auto
    with busy(1) show ?thesis by (simp add: after_loop_def)
  next
    case (idle q)
    with \<open>accounted h\<close> show ?thesis by (simp add: after_loop_def caught_up_def)
  qed simp
qed

section \<open>Catching up\<close>

lemma poll_progress:
  assumes "live_feed k h" "within k b h"
  shows "\<exists>r h'. handler_poll h = Some (r, h') \<and> live_feed k h'
    \<and> (r = Ret (Ready ()) \<and> should_stop h'
       \<or> r = Ret NotReady \<and> ((\<exists>d. fed h d \<and> live_feed k d \<and> caught_up d h') \<or> (\<exists>c < b. within k c h')))"
proof -
  from assms(1) have "queue_ok (messages h)" by (simp add: live_feed_def channels_open_def)
  from handler_poll_returns[OF this] obtain r h' where p: "handler_poll h = Some (r, h')" by blast
  let ?I = "\<lambda>d. fed h d \<and> live_feed k d \<and> within k b d"
  let ?Q = "\<lambda>(r :: (unit async, unit) outcome) h'. live_feed k h' \<and> (r = Ret (Ready ()) \<and> should_stop h'
       \<or> r = Ret NotReady \<and> ((\<exists>d. fed h d \<and> live_feed k d \<and> caught_up d h') \<or> (\<exists>c < b. within k c h')))"
  have "?Q r h'"
  proof (rule rust_loop_invariant[OF p[unfolded handler_poll_def], where I = ?I and Q = ?Q])
    show "?I h" using assms fed_refl by (simp add: live_feed_def)
    fix t u assume t: "?I t" "handler_turn t = (Continue, u)"
    then have "btree_ok (subscribers t)" "live_feed k t" by (simp_all add: live_feed_def)
    from fed_trans[OF _ handler_turn_fed[OF this(1) t(2)], of h] turn_live[OF this(2) t(2)]
      turn_continues[OF this(2) _ t(2), of b] t(1) show "?I u" by simp
  next
    fix t u q assume t: "?I t" "handler_turn t = (Return q, u)"
    then have live: "live_feed k t" "within k b t" by simp_all
    from turn_leaves[OF live t(2)] t(1) have "q = Ret (Ready ()) \<and> should_stop u
        \<or> q = Ret NotReady \<and> ((\<exists>d. fed h d \<and> live_feed k d \<and> caught_up d u) \<or> (\<exists>c < b. within k c u))"
      by (elim disjE conjE) (simp, blast, blast)
    with turn_live[OF live(1) t(2)] show "?Q q u" by simp
  qed
  with p show ?thesis by blast
qed

lemma catches_up:
  assumes "live_feed k h" "within k b h"
  shows "\<exists>n r h'. n \<le> Suc b \<and> handler_polls n h = Some (r, h')
    \<and> (r = Ret (Ready ()) \<and> should_stop h' \<or> r = Ret NotReady \<and> (\<exists>d. fed h d \<and> live_feed k d \<and> caught_up d h'))"
  using assms
proof (induction b arbitrary: h rule: less_induct)
  case (less b)
  from poll_progress[OF less.prems] obtain r h1 where p: "handler_poll h = Some (r, h1)" "live_feed k h1"
    "r = Ret (Ready ()) \<and> should_stop h1
       \<or> r = Ret NotReady \<and> ((\<exists>d. fed h d \<and> live_feed k d \<and> caught_up d h1) \<or> (\<exists>c < b. within k c h1))"
    by blast
  from p(3) consider (last) "r = Ret (Ready ()) \<and> should_stop h1 \<or> r = Ret NotReady \<and> (\<exists>d. fed h d \<and> live_feed k d \<and> caught_up d h1)"
    | (on) c where "r = Ret NotReady" "c < b" "within k c h1" by blast
  then show ?case
  proof cases
    case last
    then have "handler_polls 1 h = Some (r, h1)" using p(1) by auto
    with last show ?thesis by (intro exI[of _ 1]) simp
  next
    case on
    from less.IH[OF on(2) p(2) on(3)] obtain n q h' where n: "n \<le> Suc c" "handler_polls n h1 = Some (q, h')"
      "q = Ret (Ready ()) \<and> should_stop h' \<or> q = Ret NotReady \<and> (\<exists>d. fed h1 d \<and> live_feed k d \<and> caught_up d h')"
      by blast
    have "fed h h1" using handler_poll_fed[OF _ p(1)] less.prems(1) by (simp add: live_feed_def)
    with n(3) have "q = Ret (Ready ()) \<and> should_stop h' \<or> q = Ret NotReady \<and> (\<exists>d. fed h d \<and> live_feed k d \<and> caught_up d h')"
      using fed_trans by blast
    moreover have "handler_polls (Suc n) h = Some (q, h')" using p(1) on(1) n(2) by simp
    moreover have "Suc n \<le> Suc b" using n(1) on(2) by simp
    ultimately show ?thesis by blast
  qed
qed

text \<open>A plain map that is to stop has carried out a removal that left it empty.\<close>

lemma fd_stop_removal:
  "fd_stop (fold feed_step msgs f) \<Longrightarrow> \<not> fd_stop f \<Longrightarrow>
     \<exists>before i after. msgs = before @ RemoveSubscriber i # after
       \<and> fd_subscribers (fold feed_step (before @ [RemoveSubscriber i]) f) = Map.empty"
proof (induction msgs rule: rev_induct)
  case (snoc msg msgs)
  show ?case
  proof (cases "fd_stop (fold feed_step msgs f)")
    case True
    with snoc show ?thesis by (metis append.assoc append_Cons)
  next
    case False
    with snoc.prems(1) obtain i where "msg = RemoveSubscriber i" by (cases msg) (auto split: if_splits)
    with snoc.prems(1) show ?thesis by (intro exI[of _ msgs] exI[of _ i] exI[of _ "[]"]) simp
  qed
qed simp

text \<open>How a run of polls ends: a removal has left no subscription, or everything has been delivered that was sent.\<close>

definition emptied_by_removal :: "notification_handler \<Rightarrow> bool" where
  "emptied_by_removal h \<longleftrightarrow>
     (\<exists>before i after. feed_of h = fold feed_step (before @ RemoveSubscriber i # after) feed_new
        \<and> fd_subscribers (fold feed_step (before @ [RemoveSubscriber i]) feed_new) = Map.empty)"

definition all_delivered :: "subscriber_msg receiver \<Rightarrow> subscriber_msg receiver \<Rightarrow> notification_handler \<Rightarrow> bool" where
  "all_delivered rx1 rx2 h \<longleftrightarrow> current_future h = None \<and> finished h = length (dispatched h) + length (unsubscribed h)
     \<and> (\<forall>sent1 sent2. drained rx1 sent1 (strong (messages h)) \<longrightarrow> drained rx2 sent2 (weak (messages h)) \<longrightarrow>
          (\<exists>msgs \<in> shuffles sent1 sent2. feed_of h = fold feed_step msgs feed_new
             \<and> (\<forall>i. values_for i (dispatched h) = feed_values i False msgs)))"

lemma caught_up_drained:
  assumes "fed (notification_handler_new name handlers client unsub rx1 rx2 chans) d" "live_feed k d" "caught_up d h"
    and "drained rx1 sent1 (strong (messages h))" "drained rx2 sent2 (weak (messages h))"
  shows "\<exists>msgs \<in> shuffles sent1 sent2. feed_of h = fold feed_step msgs feed_new
    \<and> (\<forall>i. values_for i (dispatched h) = feed_values i False msgs)"
proof -
  have new: "messages (notification_handler_new name handlers client unsub rx1 rx2 chans) = select_with_weak rx1 rx2"
    "feed_of (notification_handler_new name handlers client unsub rx1 rx2 chans) = feed_new"
    by (simp_all add: notification_handler_new_def feed_of_def feed_new_def)
  from assms(1) obtain msgs l m where msgs: "feed_of d = fold feed_step msgs feed_new" "strong (messages d) = sdrop l rx1"
    "weak (messages d) = sdrop m rx2" "msgs \<in> shuffles (items_of (stake l rx1)) (items_of (stake m rx2))"
    by (auto simp: fed_def hands_out_def new select_with_weak_def)
  from assms(2,3) have idle: "shd (strong (messages d)) = Inr NotReady" "shd (weak (messages d)) = Inr NotReady"
    "strong (messages h) = stl (strong (messages d))" "weak (messages h) = stl (weak (messages d))"
    using weak_open_idle[of "messages d" "messages h"] by (auto simp: live_feed_def channels_open_def caught_up_def)
  have sent: "msgs \<in> shuffles sent1 sent2"
    using drained_idle[OF assms(4)[unfolded idle(3)] msgs(2) idle(1)] drained_idle[OF assms(5)[unfolded idle(4)] msgs(3) idle(2)]
      msgs(4) by simp
  have h: "feed_of h = fold feed_step msgs feed_new" using assms(3) msgs(1) by (simp add: caught_up_def)
  then have "dispatched h = fd_dispatched (fold feed_step msgs feed_new)" by (metis feed.select_convs(2) feed_of_def)
  then have "\<forall>i. values_for i (dispatched h) = feed_values i False msgs"
    by (simp add: fold_feed_values feed_new_def)
  with sent h show ?thesis by blast
qed

lemma handler_catches_up:
  assumes "queue_ok (select_with_weak rx1 rx2)" and "Inr (Ready None) \<notin> sset rx1" and "Inr (Ready None) \<notin> sset rx2"
    and "carries (subscribes_with (takes_values k)) rx1" and "carries (subscribes_with (takes_values k)) rx2"
    and "\<forall>chan \<in> sset chans. unsubscribes k client unsub chan"
  shows "\<exists>n h. n \<le> Suc ((pending_items rx1 + pending_items rx2) * Suc k)
    \<and> (handler_polls n (notification_handler_new name handlers client unsub rx1 rx2 chans) = Some (Ret (Ready ()), h)
        \<and> emptied_by_removal h
      \<or> handler_polls n (notification_handler_new name handlers client unsub rx1 rx2 chans) = Some (Ret NotReady, h)
        \<and> all_delivered rx1 rx2 h)"
proof -
  let ?new = "notification_handler_new name handlers client unsub rx1 rx2 chans"
  let ?b = "(pending_items rx1 + pending_items rx2) * Suc k"
  have "live_feed k ?new" "within k ?b ?new"
    using assms by (simp_all add: live_feed_def settling_def channels_open_def weak_open_def within_def busy_for_def backlog_def accounted_def
        notification_handler_new_def select_with_weak_def)
  from catches_up[OF this] obtain n r h where n: "n \<le> Suc ?b" "handler_polls n ?new = Some (r, h)"
    "r = Ret (Ready ()) \<and> should_stop h \<or> r = Ret NotReady \<and> (\<exists>d. fed ?new d \<and> live_feed k d \<and> caught_up d h)"
    by blast
  from n(3) show ?thesis
  proof (elim disjE conjE exE)
    assume r: "r = Ret (Ready ())" "should_stop h"
    from handler_run_fed[OF handler_polls_run[OF n(2) handler_run.handler_start]] obtain msgs where
      msgs: "feed_of h = fold feed_step msgs feed_new" by blast
    with r(2) have "fd_stop (fold feed_step msgs feed_new)" by (metis feed.select_convs(4) feed_of_def)
    moreover have "\<not> fd_stop feed_new" by (simp add: feed_new_def)
    ultimately obtain before i after where "msgs = before @ RemoveSubscriber i # after"
      "fd_subscribers (fold feed_step (before @ [RemoveSubscriber i]) feed_new) = Map.empty"
      using fd_stop_removal by blast
    with msgs have "emptied_by_removal h" unfolding emptied_by_removal_def by blast
    with n(1,2) r(1) show ?thesis by blast
  next
    fix d assume r: "r = Ret NotReady" "fed ?new d" "live_feed k d" "caught_up d h"
    from r(4) have "finished h = length (dispatched h) + length (unsubscribed h)"
      by (auto simp: accounted_def caught_up_def)
    with caught_up_drained[OF r(2-4)] r(4) have "all_delivered rx1 rx2 h" by (simp add: all_delivered_def caught_up_def)
    with n(1,2) r(1) show ?thesis by blast
  qed
qed

text \<open>C15: A notification handler catches up. Let its channels stay open, let every subscriber that is registered take a value within
  \<open>k\<close> polls and let every unsubscribe call be settled within \<open>k\<close>, be it with an error. Then a number of polls that is
  fixed by how much the channels still deliver is enough: the handler has
  resolved, because a removal left it without a subscription, or it waits with nothing in its hands, every delivery and every unsubscribe call polled to its end. In that case, when
  the channels have handed out all that was sent on them, every message has been carried out, those of each channel in its order,
  and every subscription has been given exactly the values for it that were sent while it existed.\<close>

theorem feed_catches_up:
  assumes "queue_ok (select_with_weak rx1 rx2)" and "Inr (Ready None) \<notin> sset rx1" and "Inr (Ready None) \<notin> sset rx2"
    and "carries (subscribes_with (takes_values k)) rx1" and "carries (subscribes_with (takes_values k)) rx2"
    and "\<forall>chan \<in> sset chans. unsubscribes k client unsub chan"
  shows "\<exists>n h. n \<le> Suc ((pending_items rx1 + pending_items rx2) * Suc k)
    \<and> (handler_polls n (notification_handler_new name handlers client unsub rx1 rx2 chans) = Some (Ret (Ready ()), h)
        \<and> emptied_by_removal h
      \<or> handler_polls n (notification_handler_new name handlers client unsub rx1 rx2 chans) = Some (Ret NotReady, h)
        \<and> all_delivered rx1 rx2 h)"
  by (rule handler_catches_up[OF assms])

text \<open>
  With everything that was sent on the channels handed out, and a subscription read until its own channel had nothing more,
  the subscription has given exactly the values for its id: \<open>sent\<close> is what the first channel was given.
\<close>

definition all_read ::
  "(json \<Rightarrow> 'v option) \<Rightarrow> subscriber_msg list \<Rightarrow> subscriber_msg receiver \<Rightarrow> subscriber_msg receiver \<Rightarrow> notification_handler \<Rightarrow> bool" where
  "all_read from_value sent rx1 rx2 h \<longleftrightarrow>
     (\<forall>commands (s :: subscription_stream) i m. drained rx1 sent (strong (messages h)) \<longrightarrow> drained rx2 commands (weak (messages h))
        \<longrightarrow> drained (value_rx s) (values_for i (dispatched h)) (sdrop (Suc m) (value_rx s))
        \<longrightarrow> snth (value_rx s) m = Inr NotReady
        \<longrightarrow> (\<exists>msgs \<in> shuffles sent commands.
              List.map_filter subscription_result (fst (subscription_polls from_value (Suc m) s)) =
                map (\<lambda>v. case from_value v of None \<Rightarrow> Inl DeserializeError | Some x \<Rightarrow> Inr x) (feed_values i False msgs)))"

lemma delivered_read:
  assumes "all_delivered rx1 rx2 h"
  shows "all_read from_value sent rx1 rx2 h"
  unfolding all_read_def
proof (intro allI impI)
  fix commands i m and s :: subscription_stream
  assume "drained rx1 sent (strong (messages h))" "drained rx2 commands (weak (messages h))"
  with assms obtain msgs where msgs: "msgs \<in> shuffles sent commands" "values_for i (dispatched h) = feed_values i False msgs"
    unfolding all_delivered_def by blast
  assume "drained (value_rx s) (values_for i (dispatched h)) (sdrop (Suc m) (value_rx s))" "snth (value_rx s) m = Inr NotReady"
  then have "items_of (stake (Suc m) (value_rx s)) = values_for i (dispatched h)" unfolding drained_def by blast
  with msgs subscription_values[of from_value "Suc m" s]
  show "\<exists>msgs \<in> shuffles sent commands.
      List.map_filter subscription_result (fst (subscription_polls from_value (Suc m) s)) =
        map (\<lambda>v. case from_value v of None \<Rightarrow> Inl DeserializeError | Some x \<Rightarrow> Inr x) (feed_values i False msgs)"
    by metis
qed

text \<open>A subscription that is not removed, and one value for it.\<close>

definition bulletin_msg :: subscriber_msg where
  "bulletin_msg = NewMessage \<lparr>subscription = Sub_Num 5, sub_result = JNull\<rparr>"

definition joining_msg :: subscriber_msg where
  "joining_msg = NewSubscriber (Sub_Num 5) (\<lambda>_. Pending (Resolved (Inr ())))"

definition one_message :: "subscriber_msg \<Rightarrow> subscriber_msg receiver" where
  "one_message msg = Inr (Ready (Some msg)) ## sconst (Inr NotReady)"

definition kept_feed :: notification_handler where
  "kept_feed = notification_handler_new ''news'' queueing_handle demo_client_handle ''unsubscribe''
     (one_message bulletin_msg) (one_message joining_msg) (sconst (1, Resolved (Inr (Inr (JBool True)))))"

lemma one_message_simps [simp]:
  "pending_items (one_message msg) = 1" "finitely_many (one_message msg)" "Inl () \<notin> sset (one_message msg)"
  "Inr (Ready None) \<notin> sset (one_message msg)" "carries M (one_message msg) = M msg"
proof -
  have "\<not> is_item (snth (one_message msg) m)" if "1 \<le> m" for m
    using that by (cases m) (simp_all add: one_message_def is_item_def)
  moreover have "is_item (snth (one_message msg) 0)" by (simp add: one_message_def is_item_def)
  ultimately show "pending_items (one_message msg) = 1"
    unfolding pending_items_def by (intro Least_equality) (auto simp: Suc_le_eq intro: gr0I)
qed (auto simp: one_message_def is_item_def carries_def)

lemma one_message_drained: "drained (one_message msg) [msg] q"
  unfolding drained_def
proof (intro allI impI)
  fix l assume "snth (one_message msg) l = Inr NotReady"
  then show "items_of (stake (Suc l) (one_message msg)) = [msg]" by (cases l) (simp_all add: one_message_def)
qed

text \<open>Nothing more arrives, and the handler stays as it is.\<close>

definition quiet :: "notification_handler \<Rightarrow> bool" where
  "quiet h \<longleftrightarrow> current_future h = None \<and> \<not> should_stop h \<and> strong (messages h) = sconst (Inr NotReady)
     \<and> weak (messages h) = sconst (Inr NotReady)"

lemma quiet_poll: "quiet h \<Longrightarrow> \<exists>h'. handler_poll h = Some (Ret NotReady, h') \<and> quiet h'"
  by (simp add: handler_poll_def rust_loop.simps[of handler_turn h] handler_turn_def ready_for_next_connection_def
      select_poll_eq receiver_poll_def after_loop_def quiet_def Let_def)

lemma quiet_polls: "quiet h \<Longrightarrow> \<exists>h'. handler_polls n h = Some (Ret NotReady, h')"
proof (induction n arbitrary: h)
  case (Suc n)
  from quiet_poll[OF Suc.prems] Suc.IH show ?case by fastforce
qed simp

lemma kept_feed_polls: "\<exists>h. handler_polls n kept_feed = Some (Ret NotReady, h)"
proof -
  have "\<exists>h1 h2. handler_poll kept_feed = Some (Ret NotReady, h1) \<and> handler_poll h1 = Some (Ret NotReady, h2) \<and> quiet h2"
    by (simp add: feed_defs kept_feed_def one_message_def bulletin_msg_def joining_msg_def quiet_def,
        (subst rust_loop.simps, simp add: feed_defs)+)
  then obtain h1 h2 where h: "handler_poll kept_feed = Some (Ret NotReady, h1)" "handler_poll h1 = Some (Ret NotReady, h2)" "quiet h2"
    by blast
  show ?thesis
  proof (cases n)
    case (Suc m)
    with h quiet_polls[OF h(3)] show ?thesis by (cases m) auto
  qed simp
qed

lemma kept_feed_settles:
  "queue_ok (select_with_weak (one_message bulletin_msg) (one_message joining_msg))"
  "Inr (Ready None) \<notin> sset (one_message bulletin_msg)" "Inr (Ready None) \<notin> sset (one_message joining_msg)"
  "carries (subscribes_with (takes_values 1)) (one_message bulletin_msg)"
  "carries (subscribes_with (takes_values 1)) (one_message joining_msg)"
  "\<forall>chan \<in> sset (sconst (1, Resolved (Inr (Inr (JBool True))))). unsubscribes 1 demo_client_handle ''unsubscribe'' chan"
proof -
  have "unsubscribes 1 demo_client_handle ''unsubscribe'' (1, Resolved (Inr (Inr (JBool True))))"
    unfolding unsubscribes_def by (rule exI[of _ 1], rule exI[of _ 0]) (simp add: demo_client_handle_def)
  then show "\<forall>chan \<in> sset (sconst (1, Resolved (Inr (Inr (JBool True))))). unsubscribes 1 demo_client_handle ''unsubscribe'' chan"
    by simp
qed (simp_all add: queue_ok_def select_with_weak_def takes_values_def subscribes_with_def joining_msg_def bulletin_msg_def)

theorem feed_catches_up_witness:
  "\<exists>n h msgs. n \<le> 5 \<and> handler_polls n kept_feed = Some (Ret NotReady, h) \<and> current_future h = None
     \<and> msgs \<in> shuffles [bulletin_msg] [joining_msg]
     \<and> values_for (Sub_Num 5) (dispatched h) = feed_values (Sub_Num 5) False msgs"
proof -
  from feed_catches_up[OF kept_feed_settles, of "''news''" queueing_handle, folded kept_feed_def]
  obtain n h where n: "n \<le> Suc ((pending_items (one_message bulletin_msg) + pending_items (one_message joining_msg)) * Suc 1)"
    "handler_polls n kept_feed = Some (Ret (Ready ()), h) \<and> emptied_by_removal h
      \<or> handler_polls n kept_feed = Some (Ret NotReady, h) \<and> all_delivered (one_message bulletin_msg) (one_message joining_msg) h"
    by blast
  from kept_feed_polls[of n] n(2) have h: "handler_polls n kept_feed = Some (Ret NotReady, h)"
    "all_delivered (one_message bulletin_msg) (one_message joining_msg) h" by auto
  from h(2) one_message_drained obtain msgs where "msgs \<in> shuffles [bulletin_msg] [joining_msg]"
    "values_for (Sub_Num 5) (dispatched h) = feed_values (Sub_Num 5) False msgs" "current_future h = None"
    unfolding all_delivered_def by blast
  with n(1) h(1) show ?thesis by (intro exI[of _ n] exI[of _ h] exI[of _ msgs]) simp
qed

end
