(* ===== verification/Notification_Path.thy ===== *)
theory Notification_Path
  imports Feed_Delivery Client_Service
begin

text \<open>
  A notification on its way from the wire to a subscriber: the server half hands it to the callback that
  \<open>Subscriber\<close> has installed, which forwards its message to the notification handler, which passes the value on
  to the subscription.
\<close>

section \<open>What a callback is given\<close>

text \<open>
  The calls of a request whose futures are polled when the request is accepted: a batch is polled in its order up to the first call
  that fails, as in \<open>poll_calls\<close>.
\<close>

fun started :: "handlers \<Rightarrow> call list \<Rightarrow> call list" where
  "started hs [] = []"
| "started hs (c # calls) =
     c # (case poll_fut (handle_single_call hs c) of (Inl _, _) \<Rightarrow> [] | (Inr _, _) \<Rightarrow> started hs calls)"

text \<open>The message that the callback for \<open>method\<close> forwards for a call.\<close>

definition notified :: "(params \<Rightarrow> subscription_message option) \<Rightarrow> string \<Rightarrow> call \<Rightarrow> subscriber_msg option" where
  "notified parse method c =
     (case c of
        Call_Notification n \<Rightarrow> if n_method n = method then params_to_subscription_message parse (n_params n) else None
      | _ \<Rightarrow> None)"

definition forwards :: "(params \<Rightarrow> subscription_message option) \<Rightarrow> string \<Rightarrow> request list \<Rightarrow> subscriber_msg list" where
  "forwards parse method reqs = List.map_filter (notified parse method) (concat (map request_calls reqs))"

lemma forwards_simps [simp]:
  "forwards parse method [] = []"
  "forwards parse method (reqs @ [req]) =
     forwards parse method reqs @ List.map_filter (notified parse method) (request_calls req)"
  by (simp_all add: forwards_def List.map_filter_simps map_filter_append)

text \<open>A call is notified exactly when its future is that of forwarding the message.\<close>

lemma notified_future:
  assumes "hs method = Some (Handler_Notification (forward_notification parse tx))" "notified parse method c = Some msg"
  shows "handle_single_call hs c = map_ok (\<lambda>_. None) (map_err (\<lambda>_. Shutdown) (map_ok (\<lambda>_. ()) (tx msg)))"
  using assms
  by (auto simp: notified_def handle_single_call_def handle_notification_call_def forward_notification_def
      split: call.splits if_splits)

text \<open>The server half in use, with what the callback for \<open>name\<close> is given.\<close>

inductive forwarding ::
  "(params \<Rightarrow> subscription_message option) \<Rightarrow> string \<Rightarrow> server \<Rightarrow> subscriber_msg list \<Rightarrow> request list \<Rightarrow> server \<Rightarrow> bool"
  for parse name s0 where
  forwarding_start: "forwarding parse name s0 [] [] s0"
| forwarding_poll: "forwarding parse name s0 sent reqs s \<Longrightarrow> server_poll s = Some (r, s')
     \<Longrightarrow> forwarding parse name s0 sent reqs s'"
| forwarding_request: "forwarding parse name s0 sent reqs s \<Longrightarrow> process_request req sink s = (r, s')
     \<Longrightarrow> forwarding parse name s0
           (sent @ List.map_filter (notified parse name) (started (handler_map s) (request_calls req))) (reqs @ [req]) s'"

lemma server_driven_forwarding:
  "server_driven server_handler_ops s0 reqs s \<Longrightarrow> \<exists>sent. forwarding parse method s0 sent reqs s"
proof (induction rule: server_driven.induct)
  case driven_start
  show ?case by (blast intro: forwarding_start)
next
  case (driven_poll reqs s r s')
  then show ?case by (auto simp: server_handler_ops_def intro: forwarding_poll)
next
  case (driven_request reqs s req sink r s')
  then show ?case by (auto simp: server_handler_ops_def intro: forwarding_request)
qed

context handlers_invariant
begin

lemma forwarding_keeps:
  "forwarding parse method s0 sent reqs s \<Longrightarrow> handlers_keep P M s0 \<Longrightarrow> handlers_keep P M s"
  by (induction rule: forwarding.induct) (auto dest: poll_keeps request_keeps)

end

text \<open>Where every handler resolves, no call of a batch fails and so every call is started.\<close>

lemma started_all:
  assumes "resolving N s"
  shows "started (handler_map s) calls = calls"
proof (induction calls)
  case (Cons c calls)
  from resolving_calls[OF assms, of "[c]"] obtain out where "resolves_within N (handle_single_call (handler_map s) c) (Inr out)"
    by (auto simp: calls_resolve_def list_all2_Cons1)
  then show ?case using Cons by (cases "handle_single_call (handler_map s) c") (auto split: sum.splits)
qed simp

lemma forwarding_all:
  "forwarding parse method s0 sent reqs s \<Longrightarrow> resolving N s0 \<Longrightarrow> sent = forwards parse method reqs"
proof (induction rule: forwarding.induct)
  case (forwarding_request sent reqs s req sink r s')
  from resolving_handlers.forwarding_keeps[folded resolving_def, OF forwarding_request.hyps(1) forwarding_request.prems]
  have "started (handler_map s) (request_calls req) = request_calls req" by (rule started_all)
  with forwarding_request.IH[OF forwarding_request.prems] show ?case by simp
qed simp_all

section \<open>A callback that stays\<close>

text \<open>
  A name that is taken stays with its handler: another \<open>add\<close> is refused, and only \<open>remove\<close> takes it away.
\<close>

definition leaves :: "string \<Rightarrow> handler_msg \<Rightarrow> bool" where
  "leaves name msg \<longleftrightarrow> (\<forall>tx. msg \<noteq> RemoveHandler name tx)"

interpretation registered: handlers_invariant "\<lambda>hs. hs name = Some h" "leaves name" for name h
proof
  fix srv :: server and msg
  assume "handler_map srv name = Some h" "leaves name msg"
  then show "handler_map (handle_msg msg srv) name = Some h"
    by (cases msg) (auto simp: leaves_def handlers_add_def handlers_remove_def reply_def split: option.splits if_splits)
qed

section \<open>From the wire to the subscriber\<close>

lemma callback_given:
  assumes "transport_source T heard"
    and "client_run sd T server_handler_ops (new_with_server rx1 rx2 rtx t srv) r c"
    and "handler_map srv method = Some (Handler_Notification (forward_notification parse tx))"
    and "\<forall>chan. handler_chan srv = Some chan \<longrightarrow> carries (leaves method) chan" and "resolving N srv"
  shows "\<exists>ps. heard t (transport c) ps
    \<and> forwarding parse method srv (forwards parse method (List.map_filter (request_of sd) ps))
        (List.map_filter (request_of sd) ps) (server_handler c)
    \<and> handler_map (server_handler c) method = Some (Handler_Notification (forward_notification parse tx))"
proof -
  from transport_source.client_run_intake[OF assms(1,2)] obtain ps where
    ps: "heard t (transport c) ps" "server_driven server_handler_ops srv (List.map_filter (request_of sd) ps) (server_handler c)"
    unfolding intake_def by blast
  from server_driven_forwarding[OF ps(2)] forwarding_all[OF _ assms(5)] have
    fw: "forwarding parse method srv (forwards parse method (List.map_filter (request_of sd) ps))
      (List.map_filter (request_of sd) ps) (server_handler c)" by blast
  have "handlers_keep (\<lambda>hs. hs method = Some (Handler_Notification (forward_notification parse tx))) (leaves method) srv"
    using assms(3,4) by (simp add: handlers_keep_def)
  from registered.forwarding_keeps[OF fw this]
  have kept: "handler_map (server_handler c) method = Some (Handler_Notification (forward_notification parse tx))"
    by (simp add: handlers_keep_def)
  with fw ps(1) show ?thesis by blast
qed



text \<open>One notification, one subscription.\<close>

definition bulletin :: notification where
  "bulletin = \<lparr>n_jsonrpc = Some V2, n_method = ''news'', n_params = Some (Params_Array [JNull])\<rparr>"

definition parse_note :: "params \<Rightarrow> subscription_message option" where
  "parse_note ps = Some \<lparr>subscription = Sub_Num 5, sub_result = JNull\<rparr>"

definition note_serde :: serde where
  "note_serde = demo_serde\<lparr>from_str_request := (\<lambda>s. if s = ''note'' then Some (Request_Single (Call_Notification bulletin)) else None)\<rparr>"

definition note_server :: server where
  "note_server = idle_server\<lparr>handler_map :=
     [''news'' \<mapsto> Handler_Notification (forward_notification parse_note (\<lambda>_. Resolved (Inr ())))]\<rparr>"

definition note_framed :: framed where
  "note_framed = open_framed (Inr (Ready (Some ''note'')) ## sconst (Inr NotReady))"

definition note_client :: "(framed, server) client" where
  "note_client = new_with_server (sconst (Inr NotReady)) (sconst (Inr NotReady)) (sconst (\<lambda>_. never)) note_framed note_server"

definition note_control :: "subscriber_msg receiver" where
  "note_control = Inr (Ready (Some (NewSubscriber (Sub_Num 5) (\<lambda>_. Resolved (Inr ())))))
     ## Inr NotReady ## Inr NotReady ## Inr (Ready (Some (RemoveSubscriber (Sub_Num 5)))) ## sconst (Inr NotReady)"

lemma note_forwarded: "forward_notification parse_note (\<lambda>_. Resolved (Inr ())) bulletin = Resolved (Inr ())"
  by (simp add: forward_notification_def params_to_subscription_message_def bulletin_def parse_note_def)

lemma note_server_steps [simp]:
  "server_poll note_server = Some (Ret NotReady, note_server)"
  "process_request (Request_Single (Call_Notification bulletin)) sink note_server = (Ret (), note_server)"
  using note_forwarded
  by (simp_all add: server_poll_def drain_handler_chan_def note_server_def idle_server_def server_new_def
      rust_loop.simps[of drain_turn] drain_turn_def receiver_poll_def remove_finished_def process_request_def
      driveable_future_def handle_single_call_def handle_notification_call_def bulletin_def)

lemma note_poll:
  "\<exists>c. client_poll note_serde framed_ops server_handler_ops note_client = Some (Ret NotReady, c)
     \<and> incoming (transport c) = sconst (Inr NotReady)"
  by (simp add: note_client_def note_framed_def note_serde_def demo_defs poll_defs,
      (subst rust_loop.simps, simp add: demo_defs poll_defs)+)

lemma note_heard:
  assumes "framed_heard note_framed t ps" "incoming t = sconst (Inr NotReady)"
  shows "forwards parse_note ''news'' (List.map_filter (request_of note_serde) ps)
    = [NewMessage \<lparr>subscription = Sub_Num 5, sub_result = JNull\<rparr>]"
proof -
  from assms(1) obtain k where k: "incoming t = sdrop k (incoming note_framed)" "ps = items_of (stake k (incoming note_framed))"
    unfolding framed_heard_def by blast
  have "k \<noteq> 0"
  proof
    assume "k = 0"
    with k(1) assms(2) have "incoming note_framed = sconst (Inr NotReady)" by simp
    from arg_cong[OF this, of shd] show False by (simp add: note_framed_def open_framed_def)
  qed
  with k(2) have "ps = [''note'']" by (cases k) (simp_all add: note_framed_def open_framed_def)
  then show ?thesis
    by (simp add: request_of_def parse_incoming_def note_serde_def demo_serde_def List.map_filter_simps forwards_def
        request_calls_def notified_def bulletin_def params_to_subscription_message_def parse_note_def)
qed

lemma note_server_ready:
  "handler_map note_server ''news'' = Some (Handler_Notification (forward_notification parse_note (\<lambda>_. Resolved (Inr ()))))"
  "\<forall>chan. handler_chan note_server = Some chan \<longrightarrow> carries M chan" "resolving 0 note_server"
proof -
  show chan: "\<forall>chan. handler_chan note_server = Some chan \<longrightarrow> carries M chan" for M
    by (simp add: note_server_def idle_server_def server_new_def carries_def)
  show "resolving 0 note_server"
    using chan by (simp add: resolving_def handlers_keep_def)
      (simp add: note_server_def idle_server_def server_new_def handlers_new_def ran_def handler_resolves_def
        forward_notification_def params_to_subscription_message_def split: option.splits)
qed (simp add: note_server_def)


text \<open>A subscription whose channel hands on the values \<open>vs\<close> and nothing more.\<close>

definition given_values :: "json list \<Rightarrow> subscription_stream" where
  "given_values vs = \<lparr>value_rx = map (\<lambda>v. Inr (Ready (Some v))) vs @- sconst (Inr NotReady), sub_id = Some (Sub_Num 5),
     handler_chan_sent = []\<rparr>"

lemma given_values_drained:
  "drained (value_rx (given_values vs)) vs q" "snth (value_rx (given_values vs)) (length vs) = Inr NotReady"
proof -
  have idle: "items_of (stake k (sconst (Inr NotReady))) = []" for k :: nat by (induction k) (simp_all del: stake_siterate)
  have items: "items_of (map (\<lambda>v. Inr (Ready (Some v))) vs) = vs" by (induction vs) simp_all
  show "drained (value_rx (given_values vs)) vs q"
    unfolding drained_def
  proof (intro allI impI)
    fix l assume "snth (value_rx (given_values vs)) l = Inr NotReady"
    then have "length vs \<le> l" by (cases "l < length vs") (simp_all add: given_values_def shift_snth_less)
    then show "items_of (stake (Suc l) (value_rx (given_values vs))) = vs"
      by (simp add: given_values_def stake_shift items_of_append items idle del: stake.simps)
  qed
  show "snth (value_rx (given_values vs)) (length vs) = Inr NotReady" by (simp add: given_values_def shift_snth_ge)
qed


end
