(* ===== verification/Display.thy ===== *)
theory Display
  imports Pubsub Http_Transport
begin

text \<open>
  The texts: \<open>Display\<close> and \<open>Debug\<close> as the crates write them, for the subscription ids (\<open>pubsub/src/lib.rs\<close>), the
  handlers and their errors (\<open>core/src/server.rs\<close>), and the \<open>display\<close> lines of the \<open>error_chain!\<close> blocks of
  \<open>core/src/lib.rs\<close> and \<open>http/src/lib.rs\<close>. What third-party types print is an argument. They are what a user sees,
  so the theorems say what the texts tell apart.
\<close>

section \<open>Numbers\<close>

text \<open>\<open>write!(f, "{}", n)\<close> for a \<open>u64\<close>: decimal digits without leading zeros.\<close>

definition decimal_digit :: "nat \<Rightarrow> char" where
  "decimal_digit d = char_of (48 + d)"

fun show_nat :: "nat \<Rightarrow> string" where
  "show_nat n = (if n < 10 then [decimal_digit n] else show_nat (n div 10) @ [decimal_digit (n mod 10)])"

declare show_nat.simps [simp del]

definition read_nat :: "string \<Rightarrow> nat" where
  "read_nat s = foldl (\<lambda>n c. 10 * n + (of_char c - 48)) 0 s"

lemma of_char_digit [simp]: "d < 10 \<Longrightarrow> (of_char (decimal_digit d) :: nat) = 48 + d"
  by (simp add: decimal_digit_def)

lemma read_show_nat [simp]: "read_nat (show_nat n) = n"
proof (induction n rule: show_nat.induct)
  case (1 n)
  show ?case
  proof (cases "n < 10")
    case True
    then show ?thesis by (subst show_nat.simps) (simp add: read_nat_def)
  next
    case False
    with 1 show ?thesis by (subst show_nat.simps) (simp add: read_nat_def)
  qed
qed

lemma show_nat_inject [simp]: "show_nat m = show_nat n \<longleftrightarrow> m = n"
  by (metis read_show_nat)

section \<open>Subscription ids\<close>

fun subscription_id_display :: "subscription_id \<Rightarrow> string" where
  "subscription_id_display (Sub_Num n) = show_nat (unat n)"
| "subscription_id_display (Sub_String s) = s"

text \<open>The text of a subscription id. A numeric id is written so that reading the digits gives it back, up to
  the last of the \<open>2 ^ 64\<close> ids, and a string is written as it is; so two ids look the same in the log exactly
  when they are the same or one is the string that spells the other's number. The maps of the
  notification handler never confuse these two: there they are different keys.\<close>

lemma subscription_id_text:
  "of_nat (read_nat (subscription_id_display (Sub_Num n))) = n
   \<and> (subscription_id_display a = subscription_id_display b \<longleftrightarrow>
        a = b \<or> (\<exists>k. {a, b} = {Sub_Num k, Sub_String (show_nat (unat k))}))
   \<and> map_of (btree_insert (Sub_String (show_nat (unat n))) chan m) (Sub_Num n) = map_of m (Sub_Num n)"
  by (cases a; cases b) (auto simp: doubleton_eq_iff dest: unsigned_word_eqI)

section \<open>Handlers\<close>

fun handler_error_display :: "handler_error \<Rightarrow> string" where
  "handler_error_display AlreadyExists = ''HandlerError - Handler for the given method name is already set''"
| "handler_error_display NoHandler = ''HandlerError - Handler for the given method name does not exist''"
| "handler_error_display Handler_Shutdown = ''HandlerError - RPC client already shut down''"

definition handler_debug :: "handler \<Rightarrow> string" where
  "handler_debug h = ''RPC '' @ handler_description h @ '' handler''"

definition handler_setting_error_display :: "handler_setting_error \<Rightarrow> string" where
  "handler_setting_error_display e =
     ''Failure to set new '' @ handler_description (setting_handler e) @ '' - '' @ handler_error_display (setting_kind e)"

text \<open>\<open>Debug for Handlers\<close>: a line for each handler, in the order in which the hash map gives them (\<open>entries\<close>).\<close>

definition newline :: string where
  "newline = [char_of (10 :: nat)]"

definition tab :: string where
  "tab = [char_of (9 :: nat)]"

definition handlers_debug :: "(string \<times> handler) list \<Rightarrow> string" where
  "handlers_debug entries =
     ''Handlers{'' @ newline
       @ concat (map (\<lambda>(method_name, callback). tab @ method_name @ '' - '' @ handler_description callback @ newline) entries)
       @ ''}''"

lemma handler_error_display_inject [simp]: "handler_error_display a = handler_error_display b \<longleftrightarrow> a = b"
  by (cases a; cases b) simp_all

text \<open>The text of a failure names the kind of the handler that was not set and the reason.\<close>

lemma handler_setting_error_text:
  "handler_setting_error_display a = handler_setting_error_display b \<longleftrightarrow>
     handler_description (setting_handler a) = handler_description (setting_handler b) \<and> setting_kind a = setting_kind b"
  by (cases "setting_handler a"; cases "setting_handler b"; cases "setting_kind a"; cases "setting_kind b")
    (simp_all add: handler_setting_error_display_def handler_description_def)

section \<open>Error kinds\<close>

text \<open>
  \<open>code_description\<close> and \<open>error_message\<close> are those of \<open>jsonrpc_core::Error\<close>, \<open>show_status\<close> is \<open>Display\<close> of Hyper's
  \<open>StatusCode\<close>, \<open>show_hyper\<close> and \<open>show_uri\<close> those of the foreign errors, which \<open>error_chain!\<close> prints as they are.
\<close>

fun core_error_display :: "(rpc_error \<Rightarrow> string) \<Rightarrow> (rpc_error \<Rightarrow> string) \<Rightarrow> core_error \<Rightarrow> string" where
  "core_error_display code_description error_message TransportError = ''Unable to send the JSON-RPC 2.0 request''"
| "core_error_display code_description error_message SerializeError = ''Unable to serialize the method parameters''"
| "core_error_display code_description error_message DeserializeError = ''Unable to deserialize response''"
| "core_error_display code_description error_message (ResponseError msg) = ''Unable to deserialize the response: '' @ msg"
| "core_error_display code_description error_message InvalidVersion =
     ''Method call returned a response that was not specified as JSON-RPC 2.0''"
| "core_error_display code_description error_message Shutdown = ''RPC Client already shut down''"
| "core_error_display code_description error_message (JsonRpcError e) =
     ''JSON-RPC 2.0 Error: '' @ code_description e @ '' ('' @ error_message e @ '')''"

fun http_error_display ::
  "(nat \<Rightarrow> string) \<Rightarrow> (string \<Rightarrow> string) \<Rightarrow> (string \<Rightarrow> string) \<Rightarrow> http_error \<Rightarrow> string" where
  "http_error_display show_status show_hyper show_uri ClientCreatorError = ''Failed to create the Hyper Client''"
| "http_error_display show_status show_hyper show_uri (HttpError code) = ''Http error. Status code '' @ show_status code"
| "http_error_display show_status show_hyper show_uri RequestTimeout = ''Timeout while waiting for a request''"
| "http_error_display show_status show_hyper show_uri ParseBodyError = ''Failed to parse response body as UTF-8''"
| "http_error_display show_status show_hyper show_uri (TokioCoreError msg) = ''Error with the Tokio Core: '' @ msg"
| "http_error_display show_status show_hyper show_uri (Hyper e) = show_hyper e"
| "http_error_display show_status show_hyper show_uri (Uri e) = show_uri e"

text \<open>The kinds of core errors can be told apart by their texts, up to what the remote end put into them.\<close>

lemma core_error_text:
  "core_error_display cd em a = core_error_display cd em b \<longleftrightarrow>
     a = b \<or> (\<exists>e f. a = JsonRpcError e \<and> b = JsonRpcError f
        \<and> cd e @ '' ('' @ em e @ '')'' = cd f @ '' ('' @ em f @ '')'')"
  by (cases a; cases b) auto

end
