(* ===== verification/Example_Client.thy ===== *)
theory Example_Client
  imports Client_Handle
begin

text \<open>
  The struct that \<open>jsonrpc_client!\<close> (\<open>core/src/macros.rs\<close>) generates, and the instance of the macro in
  \<open>core/src/example.rs\<close>. \<open>from_unit\<close> and \<open>from_string\<close> are what serde does for the return types \<open>()\<close> and \<open>String\<close>.
\<close>

record generated_client =
  gen_client :: client_handle

definition generated_client_new :: "client_handle \<Rightarrow> generated_client" where
  "generated_client_new client = \<lparr>gen_client = client\<rparr>"

fun from_unit :: "json \<Rightarrow> unit option" where
  "from_unit JNull = Some ()"
| "from_unit _ = None"

fun from_string :: "json \<Rightarrow> string option" where
  "from_string (JString s) = Some s"
| "from_string _ = None"

definition nullary :: "generated_client \<Rightarrow> completion \<Rightarrow> (core_error + json, unit) fut \<Rightarrow> unit rpc_future" where
  "nullary self tx rx = generated_method from_unit (gen_client self) ''nullary'' [] tx rx"

definition echo :: "generated_client \<Rightarrow> string \<Rightarrow> completion \<Rightarrow> (core_error + json, unit) fut \<Rightarrow> string rpc_future" where
  "echo self input tx rx = generated_method from_string (gen_client self) ''echo'' [Some (JString input)] tx rx"

definition example_concat ::
  "generated_client \<Rightarrow> string \<Rightarrow> u64 \<Rightarrow> completion \<Rightarrow> (core_error + json, unit) fut \<Rightarrow> string rpc_future" where
  "example_concat self arg0 arg1 tx rx =
     generated_method from_string (gen_client self) ''concat'' [Some (JString arg0), Some (JNumber (U64 arg1))] tx rx"

text \<open>A generated method hands the client one call with all its arguments as an array.\<close>

lemma generated_method_sends:
  "generated_method from_value h method (map Some vals) tx rx =
     send_client_call from_value h (Inr (Msg_RpcCall method (Some (Params_Array vals)) tx)) rx"
proof -
  have "those (map Some vals) = Some vals" by (induction vals) simp_all
  then show ?thesis by (simp add: generated_method_def serialize_parameters_def expand_params_def)
qed

lemmas example_sends =
  generated_method_sends[where vals = "[]", unfolded list.map]
  generated_method_sends[where vals = "[a]" for a, unfolded list.map]
  generated_method_sends[where vals = "[a, b]" for a b, unfolded list.map]

text \<open>
  The methods of the example: each is settled by its sender and its one-shot channel, and gives the result if
  it has the declared type: \<open>null\<close> for \<open>nullary\<close>, a string for the others.
\<close>

lemma example_outcomes:
  assumes "\<And>msg. resolves_within n (client_handle_tx h msg) (Inr ())" and "resolves_within m rx (Inr (Inr r))"
  shows "resolves_within (n + m) (nullary (generated_client_new h) tx rx)
           (if r = JNull then Inr () else Inl DeserializeError)
    \<and> resolves_within (n + m) (echo (generated_client_new h) input tx rx)
           (case r of JString s \<Rightarrow> Inr s | _ \<Rightarrow> Inl DeserializeError)
    \<and> resolves_within (n + m) (example_concat (generated_client_new h) arg0 arg1 tx rx)
           (case r of JString s \<Rightarrow> Inr s | _ \<Rightarrow> Inl DeserializeError)"
  using send_client_call_outcome[OF assms(1,2), of from_unit] send_client_call_outcome[OF assms(1,2), of from_string]
  unfolding nullary_def echo_def example_concat_def example_sends generated_client_new_def
  by (cases r) simp_all

text \<open>What they put on the wire: \<open>concat\<close> with its two arguments in order, \<open>nullary\<close> with an empty array.\<close>

lemma example_on_the_wire:
  assumes "params_transparent (to_value_params sd)"
  shows "serialize_method_request sd i ''concat'' (Some (Params_Array [JString arg0, JNumber (U64 arg1)])) =
      (case to_string_call sd \<lparr>mc_jsonrpc = Some V2, mc_method = ''concat'',
          mc_params = Some (Params_Array [JString arg0, JNumber (U64 arg1)]), mc_id = i\<rparr> of
         None \<Rightarrow> Inl SerializeError | Some s \<Rightarrow> Inr s)
    \<and> serialize_method_request sd i ''nullary'' (Some (Params_Array [])) =
      (case to_string_call sd \<lparr>mc_jsonrpc = Some V2, mc_method = ''nullary'',
          mc_params = Some (Params_Array []), mc_id = i\<rparr> of None \<Rightarrow> Inl SerializeError | Some s \<Rightarrow> Inr s)"
  by (simp add: serialize_method_request_def serialize_parameters_transparent[OF assms])

end
