(* ===== verification/Spec2Isabelle.thy ===== *)
theory Spec2Isabelle
  imports Call_Life Client_Outlet Http_Call Client_Creator Notification_Path Feed_Delivery Display Example_Client
begin

text \<open>
  A model of \<open>jsonrpc-client-rs\<close>, an asynchronous JSON-RPC 2.0 client in Rust, and the theorems that make
  it correct.

  \<^bold>\<open>The program.\<close> A \<open>Client\<close> is a future over a transport. The user holds \<open>ClientHandle\<close>s, which send calls
  and notifications to it over a channel; the client numbers the calls, serializes them, pushes them into
  the transport's sink and completes the one-shot channel of a call when a response with its id arrives.
  A second half, the \<open>Server\<close>, answers the requests that the remote end sends, with callbacks that the user
  sets through a \<open>ServerHandle\<close>; its responses go back through the client. The two channels that feed
  the client are merged by \<open>SelectWithWeak\<close>. Two crates provide transports, over HTTP and over a local
  socket; a third builds subscriptions on top of the client and the server half.

  \<^bold>\<open>Theories and sources.\<close>
  \<^item> \<open>Prelude\<close>: polls, futures, channels, panics, \<open>loop\<close>, \<open>BTreeMap\<close>, and the rules to reason about them.
  \<^item> \<open>Rpc_Types\<close>: the JSON-RPC messages, the error kinds of \<open>core/src/lib.rs\<close>, and the serialization functions
    at the end of that file.
  \<^item> \<open>Id_Generator\<close>: \<open>core/src/id_generator.rs\<close>. The locale \<open>id_source\<close> is what the client and the server rely
    on, a fresh id at every draw; it is interpreted for both uses of the generator.
  \<^item> \<open>Select_Weak\<close>: \<open>utils/src/select_weak.rs\<close>. Fairness, termination, and that the merged stream is an
    interleaving of the two (\<open>hands_out\<close>).
  \<^item> \<open>Server\<close>: \<open>core/src/server.rs\<close>, the handler map, \<open>process_request\<close>, \<open>poll\<close> and the futures of the requests
    being handled. The handler map refines a plain map; every request is answered once; no finished
    future is polled again. \<open>Server_Handle\<close>: the \<open>add\<close> and \<open>remove\<close> futures of the same file.
    \<open>Server_Service\<close>: the server half in use (\<open>server_used\<close>): polls and requests in any order, the schedule by
    which each request must have been answered, and the locale \<open>handlers_invariant\<close> for what the changes of the
    handler map keep, interpreted for handlers that resolve (and in \<open>Notification_Path\<close> for one that stays).
  \<^item> \<open>Client\<close>: the struct \<open>Client\<close> of \<open>core/src/lib.rs\<close> with every method that its \<open>poll\<close> runs, one definition for
    each, and the abstract session it implements; the locale \<open>transport_contract\<close> is what it relies on in a
    sink. \<open>Client_Session\<close>: what a session guarantees. \<open>Client_Progress\<close>: a poll returns and does not panic;
    the locales \<open>server_contract\<close> (interpreted for \<open>Server\<close>) and \<open>live_client\<close>. \<open>Client_Properties\<close>: the
    properties of the client over whole runs. \<open>Client_Runs\<close>: what every step of a
    poll keeps, every run keeps (the locale \<open>client_invariant\<close>, and \<open>transport_invariant\<close> for what a transport
    keeps by itself); the contract \<open>transport_source\<close> of a transport's stream. \<open>Client_Intake\<close>: what arrives on
    the wire is what the session and the server half see.
  \<^item> \<open>Client_Handle\<close>: \<open>ClientHandle\<close> of \<open>core/src/lib.rs\<close> and the methods that the macro of \<open>core/src/macros.rs\<close>
    generates. \<open>Example_Client\<close>: the struct that the macro generates, and \<open>core/src/example.rs\<close>.
  \<^item> \<open>Ipc_Transport\<close>: \<open>ipc/src/lib.rs\<close>; its connected transport interprets \<open>transport_contract\<close>,
    \<open>dry_stream\<close> and \<open>transport_source\<close>.
  \<^item> \<open>Http_Transport\<close>: \<open>http/src/lib.rs\<close>: requests, time limits, the processing future, \<open>send_fut\<close>, the builder.
    \<open>Http_Sink\<close>: \<open>impl Transport for HttpHandle\<close>, the sink and the stream that the client uses; they interpret
    the transport contracts and \<open>transport_invariant\<close>. \<open>Client_Creator\<close>: \<open>http/src/client_creator.rs\<close> and the
    constructors of \<open>HttpTransport\<close>.
  \<^item> \<open>Pubsub\<close>: \<open>pubsub/src/lib.rs\<close>: the notification handler and its refinement of a plain map of
    subscriptions, \<open>Subscription\<close>, \<open>Subscriber\<close>. \<open>Subscription_Life\<close>: its polls return, and what a subscriber
    reads. \<open>Feed_Delivery\<close>: the handler catches up with its channels. \<open>Notification_Path\<close>: a notification from the wire through the server half to the subscriber.
  \<^item> \<open>Display\<close>: the texts of ids, handlers and errors, over all the crates.
  \<^item> \<open>Call_Life\<close>, \<open>Client_Server\<close>, \<open>Client_Service\<close>, \<open>Client_Outlet\<close>, \<open>Http_Client\<close>, \<open>Http_Call\<close>: the parts put
    together, a handle's future with the client, the responses of the server half on their way out, the client as
    what drives its server half, a request from the wire to its response on the wire, the client over HTTP, a call
    over HTTP.
  \<^item> this theory: \<open>Client::new\<close>, \<open>subscriber_client\<close>, and the property that spans pubsub, server half and client.

  \<^bold>\<open>How the code is read.\<close> A state of a struct is a record with its fields; a method is a function from the
  state to its result and the new state. A result is an \<open>outcome\<close>: \<open>Ret\<close>, \<open>Raise\<close> (an \<open>Err\<close>, \<open>?\<close> or \<open>ensure!\<close>) or
  \<open>Panic\<close> (\<open>unreachable!\<close>, \<open>expect\<close>). A \<open>loop\<close> is \<open>rust_loop\<close>, whose value is \<open>None\<close> if it never returns;
  that the loops of a poll do return is proved (\<open>client_poll_total\<close>, \<open>server_never_panics\<close>), from bounds on
  what the channels still deliver and not with fuel. A chain of combinators (\<open>map\<close>, \<open>map_err\<close>, \<open>and_then\<close>) is
  the same chain over the codatatype \<open>fut\<close>; where the source writes a \<open>poll\<close> by hand or hides one behind
  combinators with effects, the model has the states of that machine as a datatype and one function for
  a poll. Integers are 64-bit words; \<open>+= 1\<close> wraps, as in a release build. An error is its kind: the cause
  chain is only ever printed. Logging is left out.

  Code outside the repository (\<open>futures\<close>, \<open>serde_json\<close>, Hyper, Tokio, the socket, the callbacks of the user) is
  never defined. A future of somebody else is the sequence of answers it gives to its polls, a receiver
  or a socket is the stream of its answers, a sender is the function from a message to the future of
  sending it, serialization is a record of functions; the theorems quantify over all of these. \<open>Fuse\<close>,
  which \<open>SelectWithWeak\<close> puts around its streams, only restricts the streams of answers that can occur.
  \<open>FuturesUnordered\<close> is polled in the order of the calls of a batch, so the order of the outputs inside one
  batch response is stated only up to permutation; that the calls of a batch are first polled in their order
  (\<open>started\<close>) is its documented first-in first-out start. \<open>With\<close>, the sink adaptor of \<open>futures\<close> around \<open>sink_item\<close>, is
  the machine its documentation describes. Each end of a channel is seen on its own; a theorem that needs
  both ends says what \<open>futures\<close> promises of them: a channel hands out a first part of what was put into it,
  in order (\<open>delivers_in_order\<close>), and all of it when it answers \<open>NotReady\<close> (\<open>drained\<close>), a one-shot channel what was sent on it (\<open>completion_delivered\<close>,
  \<open>answers_delivered\<close>).

  Fields that no code has are ghosts and only record: \<open>completions\<close> and \<open>history\<close> of \<open>client\<close>,
  \<open>handler_replies\<close> and \<open>responses\<close> of \<open>server\<close>, \<open>sunk\<close> of \<open>framed\<close>, \<open>replies\<close> of \<open>processor\<close>, \<open>dispatched\<close>,
  \<open>unsubscribed\<close> and \<open>finished\<close> of \<open>notification_handler\<close>, \<open>handler_chan_sent\<close> of \<open>subscription_stream\<close>, \<open>io_taken\<close>,
  \<open>io_posted\<close>, \<open>io_settled\<close> and \<open>io_read\<close> of \<open>http_io\<close>.

  \<^bold>\<open>What is shown.\<close> The client implements the session: ids, waiting calls, completions and the wire are those
  of the sequential specification, under every interleaving, with nothing lost, repeated or overtaken
  unless the transport fails (\<open>client_refines_session\<close>); every completion channel is used once or still
  waits (\<open>completions_conserved\<close>); responses in any order reach their calls; back pressure, shutdown and
  errors behave as intended; what the client produces is well typed (\<open>client_output_typed\<close>). Requests of the
  remote end are answered exactly once, and their responses reach the wire in order, each once (\<open>responses_on_the_wire\<close>).
  Everything that arrives is taken in, once and in order (\<open>intake_from_the_wire\<close>), and nothing is answered that
  was not asked (\<open>never_answers_unasked\<close>). A request is answered in its time whatever else the server half
  is doing (\<open>answered_in_any_interleaving\<close>), and as every good poll of the client is one of its server half,
  every request that has arrived is answered as many polls of the client later, and nothing else is given
  (\<open>every_request_answered\<close>). A poll that goes well empties the channels of the handles and of the server half
  (\<open>good_poll_empties_channels\<close>), so the responses are on the wire (\<open>requests_answered_on_the_wire\<close>).
  From end to end: the future of a call resolves to what the first response with its id says, to the
  error of its serialization, or to \<open>Shutdown\<close> (\<open>every_call_settles\<close>); over HTTP the payloads are exchanged one at
  a time (\<open>http_exchanges_in_order\<close>), each gets the server's answer to itself (\<open>http_answer_matches_payload\<close>), and
  a call resolves to the result in the body of its own request (\<open>http_call_answered\<close>);
  a subscriber reads the messages of its subscription, in order and without a gap, and these come from the
  notifications that arrived on the wire (\<open>notifications_reach_subscriber\<close>); while subscribers take their values and
  unsubscribe calls settle, the notification handler delivers everything that was sent to it, within a known
  number of polls (\<open>feed_catches_up\<close>), and so every notification for a subscription is read (\<open>every_notification_read\<close>).

  \<^bold>\<open>What modelling the code turned up.\<close> The client stops when its last handle goes even if calls are waiting,
  against its documentation (\<open>handles_gone_shuts_down\<close>); \<open>subscribe\<close> passes over a living notification handler
  and reuses a closed one (\<open>second_subscription\<close>); the unsubscribe call does not name its subscription
  (\<open>unsubscribe_omits_id\<close>); a subscription that is queued when the last one goes is lost
  (\<open>last_removal_stops\<close>); a handler that stops leaves its callback behind, and a notification that comes
  later shuts the whole client down (\<open>late_notification_stops_client\<close>); \<open>ServerHandle::add\<close> panics when its
  message is queued and then dropped (\<open>add_handler_outcome\<close>);
  a server half that resolves is noticed one poll late (\<open>server_end_noticed_late\<close>); over HTTP one timeout or bad
  status ends the client for all of its calls (\<open>http_failure_stops_client\<close>), and so does the empty body with
  which a notification is answered (\<open>empty_body_stops_client\<close>).

  \<^bold>\<open>Not modelled.\<close> The set-up of connections and threads inside Hyper and Tokio; task wake-ups (a run is
  polled again by whoever drives it); logging; the integration tests; the crate root of \<open>utils\<close>, which has
  no code.
\<close>

section \<open>Putting the parts together\<close>

text \<open>
  \<open>Client::new\<close> and \<open>subscriber_client\<close>: the client with the default server half, its handle and the
  subscriber. The arguments are the receiving and the sending halves of the channels that are created.
\<close>

definition client_new ::
  "outgoing_message receiver \<Rightarrow> outgoing_message receiver \<Rightarrow> response_sender stream \<Rightarrow> handler_msg receiver
     \<Rightarrow> (outgoing_message \<Rightarrow> (unit, unit) fut) \<Rightarrow> 't \<Rightarrow> ('t, server) client \<times> client_handle" where
  "client_new calls_rx responses_rx response_tx handler_rx calls_tx t =
     (new_with_server calls_rx responses_rx response_tx t (server_new handler_rx), \<lparr>client_handle_tx = calls_tx\<rparr>)"

definition into_client ::
  "outgoing_message receiver \<Rightarrow> outgoing_message receiver \<Rightarrow> response_sender stream \<Rightarrow> handler_msg receiver
     \<Rightarrow> (outgoing_message \<Rightarrow> (unit, unit) fut) \<Rightarrow> 't \<Rightarrow> ('t, server) client \<times> client_handle" where
  "into_client calls_rx responses_rx response_tx handler_rx calls_tx t =
     client_new calls_rx responses_rx response_tx handler_rx calls_tx t"

text \<open>\<open>Client::with_server\<close> and \<open>DuplexTransport::with_server\<close>: any server half.\<close>

definition client_with_server ::
  "outgoing_message receiver \<Rightarrow> outgoing_message receiver \<Rightarrow> response_sender stream
     \<Rightarrow> (outgoing_message \<Rightarrow> (unit, unit) fut) \<Rightarrow> 't \<Rightarrow> 's \<Rightarrow> ('t, 's) client \<times> client_handle" where
  "client_with_server calls_rx responses_rx response_tx calls_tx t server =
     (new_with_server calls_rx responses_rx response_tx t server, \<lparr>client_handle_tx = calls_tx\<rparr>)"

definition with_server ::
  "outgoing_message receiver \<Rightarrow> outgoing_message receiver \<Rightarrow> response_sender stream
     \<Rightarrow> (outgoing_message \<Rightarrow> (unit, unit) fut) \<Rightarrow> 't \<Rightarrow> 's \<Rightarrow> ('t, 's) client \<times> client_handle" where
  "with_server calls_rx responses_rx response_tx calls_tx t server =
     (new_with_server calls_rx responses_rx response_tx t server, \<lparr>client_handle_tx = calls_tx\<rparr>)"

definition subscriber_client ::
  "outgoing_message receiver \<Rightarrow> outgoing_message receiver \<Rightarrow> response_sender stream \<Rightarrow> handler_msg receiver
     \<Rightarrow> (outgoing_message \<Rightarrow> (unit, unit) fut) \<Rightarrow> (handler_msg \<Rightarrow> (unit, handler_msg) fut) \<Rightarrow> 't
     \<Rightarrow> ('t, server) client \<times> client_handle \<times> subscriber" where
  "subscriber_client calls_rx responses_rx response_tx handler_rx calls_tx handlers_tx t =
     (let server = server_new handler_rx; server_handle = \<lparr>server_handle_tx = handlers_tx\<rparr>;
          (client, client_handle) = with_server calls_rx responses_rx response_tx calls_tx t server
      in (client, client_handle, subscriber_new client_handle server_handle))"

text \<open>A client that has just been built is ready to run.\<close>

lemma subscriber_client_alive:
  assumes "subscriber_client rx1 rx2 rtx hrx ctx htx t = (c, h, s)"
    and "finitely_many rx1" "Inl () \<notin> sset rx1" "finitely_many rx2" "Inl () \<notin> sset rx2"
    and "finitely_many hrx" "Inl () \<notin> sset hrx" "finitely_many (incoming t)"
  shows "ipc_client.alive c \<and> sub_client s = h \<and> notification_handlers s = []
    \<and> fst (client_new rx1 rx2 rtx hrx ctx t) = c"
  using assms
  by (auto simp: subscriber_client_def with_server_def client_new_def Let_def subscriber_new_def ipc_client.alive_def queue_ok_def
      new_with_server_def select_with_weak_def server_ok_def server_new_def channel_ok_def)

section \<open>A notification that comes too late\<close>

text \<open>An error that a pending future carries comes out of the next poll of the server.\<close>

lemma poll_futures_insert_err:
  "\<forall>d \<in> snd ` set m. \<exists>a. fst (drive d) = Ret a \<Longrightarrow>
     \<exists>m' ms. poll_futures (btree_insert key (Drv_err e) m) = (Raise e, m', ms)"
proof (induction m)
  case (Cons p m)
  obtain k d where p: "p = (k, d)" by (cases p)
  with Cons.prems obtain a where a: "fst (drive d) = Ret a" by auto
  from Cons obtain m' ms where "poll_futures (btree_insert key (Drv_err e) m) = (Raise e, m', ms)" by auto
  with a show ?case by (cases "drive d") (auto simp: p)
qed simp


text \<open>Here the callback of \<open>bulletin\<close> is left behind, and another call is waiting.\<close>

definition news_server :: server where
  "news_server = idle_server\<lparr>handler_map :=
     [''news'' \<mapsto> Handler_Notification (forward_notification parse_note (\<lambda>_. Resolved (Inl ())))]\<rparr>"


end
